(* ===== verification/Prelude.thy ===== *)
theory Prelude
  imports Main "HOL-Library.Word"
begin

text \<open>
  Shared vocabulary of the development: the Go types the service uses (bytes, strings,
  \<open>int64\<close>, instants and durations), the arithmetic Go gives them, and the
  generic facts on lists and maps that several components need.

  Go strings are byte sequences, so \<^typ>\<open>string\<close> (a list of 8-bit characters) with
  \<^const>\<open>length\<close> for \<open>len\<close> is exact.  An \<open>int64\<close> is an \<^typ>\<open>int\<close> kept in
  range by \<open>wrap64\<close> wherever the code can overflow.  An instant (\<open>time.Time\<close>)
  counts nanoseconds from Go's zero time (1 January of year 1, UTC), so the zero
  \<open>time.Time\<close> is \<open>0\<close>; a \<open>time.Duration\<close> is a number of nanoseconds.
\<close>

type_synonym byte = "8 word"
type_synonym int64 = int
type_synonym gtime = int
type_synonym duration = int

named_theorems go_defs "definitions that only name a Go constant"

section \<open>Signed 64-bit arithmetic\<close>

definition MinInt64 :: int where [go_defs]: "MinInt64 = - (2 ^ 63)"
definition MaxInt64 :: int where [go_defs]: "MaxInt64 = 2 ^ 63 - 1"

definition in_int64 :: "int \<Rightarrow> bool" where
  "in_int64 x \<longleftrightarrow> MinInt64 \<le> x \<and> x \<le> MaxInt64"

text \<open>Two's-complement reduction: what an \<open>int64\<close> operation keeps of an exact result.\<close>

definition wrap64 :: "int \<Rightarrow> int64" where
  "wrap64 x = (x + 2 ^ 63) mod 2 ^ 64 - 2 ^ 63"

lemma wrap64_id [simp]: "in_int64 x \<Longrightarrow> wrap64 x = x"
  by (simp add: wrap64_def in_int64_def go_defs)

lemma wrap64_range [simp]: "in_int64 (wrap64 x)"
proof -
  have "0 \<le> (x + 2 ^ 63) mod 2 ^ 64" and "(x + 2 ^ 63) mod 2 ^ 64 < (2 ^ 64 :: int)"
    by (rule pos_mod_sign, simp) (rule pos_mod_bound, simp)
  then show ?thesis by (simp add: wrap64_def in_int64_def go_defs)
qed

text \<open>Go's integer division truncates towards zero; the remainder has the dividend's sign.\<close>

definition go_div :: "int \<Rightarrow> int \<Rightarrow> int" where
  "go_div a b = sgn a * sgn b * (\<bar>a\<bar> div \<bar>b\<bar>)"

definition go_mod :: "int \<Rightarrow> int \<Rightarrow> int" where
  "go_mod a b = a - go_div a b * b"

lemma go_div_nonneg: "0 \<le> a \<Longrightarrow> 0 < b \<Longrightarrow> go_div a b = a div b"
  by (cases "a = 0") (simp_all add: go_div_def)

lemma go_mod_nonneg: "0 \<le> a \<Longrightarrow> 0 < b \<Longrightarrow> go_mod a b = a mod b"
  by (simp add: go_mod_def go_div_nonneg minus_div_mult_eq_mod)

section \<open>Instants and durations\<close>

definition Second :: duration where [go_defs]: "Second = 1000000000"
definition Minute :: duration where [go_defs]: "Minute = 60 * Second"
definition Hour :: duration where [go_defs]: "Hour = 60 * Minute"

text \<open>\<open>Time.IsZero\<close>, and \<open>Time.Unix\<close>: whole seconds since 1970, rounded down.\<close>

definition IsZero :: "gtime \<Rightarrow> bool" where
  "IsZero t \<longleftrightarrow> t = 0"

definition unix_epoch :: int where [go_defs]: "unix_epoch = 62135596800"

definition Unix :: "gtime \<Rightarrow> int" where
  "Unix t = t div Second - unix_epoch"

section \<open>Lists and maps\<close>

text \<open>\<open>index_of xs x\<close> is the position of the first \<open>x\<close>, as \<open>strings.IndexByte\<close> finds it.\<close>

fun index_of :: "'a list \<Rightarrow> 'a \<Rightarrow> nat option" where
  "index_of [] x = None"
| "index_of (y # ys) x = (if y = x then Some 0 else map_option Suc (index_of ys x))"

lemma index_of_None_iff: "index_of xs x = None \<longleftrightarrow> x \<notin> set xs"
  by (induction xs) auto

lemma index_of_SomeD: "index_of xs x = Some n \<Longrightarrow> n < length xs \<and> xs ! n = x"
  by (induction xs arbitrary: n) (auto split: if_splits)

lemma index_of_nth: "distinct xs \<Longrightarrow> n < length xs \<Longrightarrow> index_of xs (xs ! n) = Some n"
  by (induction xs arbitrary: n) (auto simp: nth_Cons split: nat.splits)

lemma index_of_append: "x \<notin> set xs \<Longrightarrow> index_of (xs @ x # ys) x = Some (length xs)"
  by (induction xs) auto

lemma length_2_conv: "length xs = 2 \<longleftrightarrow> (\<exists>x y. xs = [x, y])"
  by (auto simp: numeral_2_eq_2 length_Suc_conv)

lemma filter_same_length: "length (filter P xs) = length xs \<Longrightarrow> filter P xs = xs"
  by (metis filter_True length_filter_less nat_neq_iff)

lemma map_upd_same_iff [simp]: "(m(k \<mapsto> v)) = m \<longleftrightarrow> m k = Some v"
  by (metis fun_upd_same fun_upd_triv)

text \<open>Two lists that agree outside some two adjacent positions.\<close>

definition burst2 :: "'a list \<Rightarrow> 'a list \<Rightarrow> bool" where
  "burst2 w w' \<longleftrightarrow> (\<exists>pre x y x' y' post. w = pre @ x # y # post \<and> w' = pre @ x' # y' # post)"

lemma burst2_append: "burst2 w w' \<Longrightarrow> burst2 (us @ w) (us @ w')"
  unfolding burst2_def by (metis append.assoc)

end
