(* ===== verification/Store.thy ===== *)
theory Store
  imports Prelude "HOL-Library.Multiset"
begin

text \<open>
  internal/store/store.go: the invoice, its statuses and the persistence contract.  The Go
  interface \<open>Store\<close> is a record of operations over an arbitrary state; each operation also takes
  what the surroundings contribute to the call (I/O outcomes, iteration orders), its
  \<^emph>\<open>world\<close>.  The contract the comments of the interface promise is the locale
  \<open>invoice_store\<close>; the in-memory and the Postgres store interpret it.
\<close>

section \<open>Invoices\<close>

record invoice =
  ID :: string
  PayTo :: string
  Memo :: string
  AmountNano :: int64
  Currency :: string
  Status :: string
  TxHash :: string
  Metadata :: "(string \<times> string) list"
  CreatedAt :: gtime
  PaidAt :: gtime
  ExpiresAt :: gtime

definition StatusPending :: string where "StatusPending = ''pending''"
definition StatusPaid :: string where "StatusPaid = ''paid''"
definition StatusExpired :: string where "StatusExpired = ''expired''"

lemma status_distinct [simp]:
  "StatusPending \<noteq> StatusPaid" "StatusPaid \<noteq> StatusPending" "StatusPending \<noteq> StatusExpired"
  "StatusExpired \<noteq> StatusPending" "StatusPaid \<noteq> StatusExpired" "StatusExpired \<noteq> StatusPaid"
  by (simp_all add: StatusPending_def StatusPaid_def StatusExpired_def)

text \<open>Go's zero value \<open>Invoice{}\<close>.\<close>

definition zero_invoice :: invoice where
  "zero_invoice = \<lparr>ID = [], PayTo = [], Memo = [], AmountNano = 0, Currency = [], Status = [],
     TxHash = [], Metadata = [], CreatedAt = 0, PaidAt = 0, ExpiresAt = 0\<rparr>"

abbreviation pending :: "invoice \<Rightarrow> bool" where
  "pending i \<equiv> Status i = StatusPending"

text \<open>The two transitions: settlement and expiry.\<close>

definition settled :: "invoice \<Rightarrow> string \<Rightarrow> gtime \<Rightarrow> invoice" where
  "settled i tx t = i\<lparr>Status := StatusPaid, TxHash := tx, PaidAt := t\<rparr>"

definition expired :: "invoice \<Rightarrow> invoice" where
  "expired i = i\<lparr>Status := StatusExpired\<rparr>"

lemma settled_simps [simp]:
  "ID (settled i tx t) = ID i" "PayTo (settled i tx t) = PayTo i" "Memo (settled i tx t) = Memo i"
  "AmountNano (settled i tx t) = AmountNano i" "Status (settled i tx t) = StatusPaid"
  "TxHash (settled i tx t) = tx" "PaidAt (settled i tx t) = t" "CreatedAt (settled i tx t) = CreatedAt i"
  "ExpiresAt (settled i tx t) = ExpiresAt i" "Currency (settled i tx t) = Currency i"
  "Metadata (settled i tx t) = Metadata i"
  by (simp_all add: settled_def)

lemma expired_simps [simp]:
  "ID (expired i) = ID i" "PayTo (expired i) = PayTo i" "Memo (expired i) = Memo i"
  "AmountNano (expired i) = AmountNano i" "Status (expired i) = StatusExpired"
  "TxHash (expired i) = TxHash i" "PaidAt (expired i) = PaidAt i" "CreatedAt (expired i) = CreatedAt i"
  "ExpiresAt (expired i) = ExpiresAt i"
  by (simp_all add: expired_def)

section \<open>The interface\<close>

datatype store_error = ErrMemoExists | StoreFailure string

record ('s, 'w) Store =
  CreateInvoice :: "'w \<Rightarrow> 's \<Rightarrow> invoice \<Rightarrow> store_error option \<times> 's"
  GetInvoice :: "'w \<Rightarrow> 's \<Rightarrow> string \<Rightarrow> invoice option"
  ListInvoices :: "'w \<Rightarrow> 's \<Rightarrow> invoice list"
  ListPending :: "'w \<Rightarrow> 's \<Rightarrow> invoice list"
  ClaimInvoiceForSettlement ::
    "'w \<Rightarrow> 's \<Rightarrow> string \<Rightarrow> string \<Rightarrow> gtime \<Rightarrow> (bool \<times> store_error option) \<times> 's"
  ExpireInvoice :: "'w \<Rightarrow> 's \<Rightarrow> string \<Rightarrow> (bool \<times> store_error option) \<times> 's"
  PendingCounts :: "'w \<Rightarrow> 's \<Rightarrow> string \<Rightarrow> (nat \<times> nat) \<times> store_error option"

section \<open>What the contract speaks about\<close>

text \<open>
  The abstract content of a store is a finite map from ids to invoices.  Over it: an invoice
  that awaits payment under an id, the pending sets that are counted, and the order of
  development, in which a pending invoice may be settled or expired and nothing else changes.
\<close>

type_synonym ledger = "string \<rightharpoonup> invoice"

definition is_pending :: "ledger \<Rightarrow> string \<Rightarrow> bool" where
  "is_pending v iid \<longleftrightarrow> (\<exists>i. v iid = Some i \<and> pending i)"

definition pending_ids :: "ledger \<Rightarrow> string set" where
  "pending_ids v = {iid. is_pending v iid}"

definition pending_ids_for :: "ledger \<Rightarrow> string \<Rightarrow> string set" where
  "pending_ids_for v addr = {iid. \<exists>i. v iid = Some i \<and> pending i \<and> PayTo i = addr}"

definition same_key :: "invoice \<Rightarrow> invoice \<Rightarrow> bool" where
  "same_key i j \<longleftrightarrow> PayTo i = PayTo j \<and> Memo i = Memo j"

definition unique_keys :: "ledger \<Rightarrow> bool" where
  "unique_keys v \<longleftrightarrow>
     (\<forall>a b i j. v a = Some i \<longrightarrow> v b = Some j \<longrightarrow> same_key i j \<longrightarrow> a = b)"

definition key_taken :: "ledger \<Rightarrow> invoice \<Rightarrow> bool" where
  "key_taken v i \<longleftrightarrow> (\<exists>a j. v a = Some j \<and> same_key j i)"

definition nul_free :: "string \<Rightarrow> bool" where
  "nul_free s \<longleftrightarrow> CHR 0x00 \<notin> set s"

definition develops :: "invoice \<Rightarrow> invoice \<Rightarrow> bool" where
  "develops i j \<longleftrightarrow> j = i \<or> (pending i \<and> ((\<exists>tx t. j = settled i tx t) \<or> j = expired i))"

definition ledger_develops :: "ledger \<Rightarrow> ledger \<Rightarrow> bool" where
  "ledger_develops v v' \<longleftrightarrow> (\<forall>iid i. v iid = Some i \<longrightarrow> (\<exists>j. v' iid = Some j \<and> develops i j))"

lemma develops_refl [simp]: "develops i i"
  by (simp add: develops_def)

lemma develops_settled [simp]: "pending i \<Longrightarrow> develops i (settled i tx t)"
  by (auto simp: develops_def)

lemma develops_expired [simp]: "pending i \<Longrightarrow> develops i (expired i)"
  by (simp add: develops_def)

lemma develops_trans: "develops i j \<Longrightarrow> develops j k \<Longrightarrow> develops i k"
  by (auto simp: develops_def)

lemma develops_terminal: "develops i j \<Longrightarrow> \<not> pending i \<Longrightarrow> j = i"
  by (simp add: develops_def)

lemma develops_fixed:
  "develops i j \<Longrightarrow> ID j = ID i \<and> PayTo j = PayTo i \<and> Memo j = Memo i \<and> AmountNano j = AmountNano i
    \<and> CreatedAt j = CreatedAt i \<and> ExpiresAt j = ExpiresAt i"
  by (auto simp: develops_def)

lemma ledger_develops_refl [simp]: "ledger_develops v v"
  by (simp add: ledger_develops_def)

lemma ledger_develops_trans:
  "ledger_develops u v \<Longrightarrow> ledger_develops v w \<Longrightarrow> ledger_develops u w"
  unfolding ledger_develops_def by (meson develops_trans)

lemma ledger_develops_upd:
  "v iid = Some i \<Longrightarrow> develops i j \<Longrightarrow> ledger_develops v (v(iid \<mapsto> j))"
  by (auto simp: ledger_develops_def)

lemma ledger_develops_new: "v iid = None \<Longrightarrow> ledger_develops v (v(iid \<mapsto> j))"
  by (auto simp: ledger_develops_def)

lemma ledger_develops_terminal:
  "ledger_develops v v' \<Longrightarrow> v iid = Some i \<Longrightarrow> \<not> pending i \<Longrightarrow> v' iid = Some i"
  by (auto simp: ledger_develops_def dest!: develops_terminal)

lemma pending_ids_for_subset: "pending_ids_for v addr \<subseteq> pending_ids v"
  by (auto simp: pending_ids_for_def pending_ids_def is_pending_def)

lemma finite_pending_ids: "finite (dom v) \<Longrightarrow> finite (pending_ids v)"
  by (rule finite_subset [of _ "dom v"]) (auto simp: pending_ids_def is_pending_def)

lemma pending_ids_new:
  "v k = None \<Longrightarrow> pending i \<Longrightarrow> pending_ids (v(k \<mapsto> i)) = insert k (pending_ids v)"
  by (auto simp: pending_ids_def is_pending_def)

lemma pending_ids_for_new:
  "v k = None \<Longrightarrow> pending i \<Longrightarrow> pending_ids_for (v(k \<mapsto> i)) (PayTo i) = insert k (pending_ids_for v (PayTo i))"
  by (auto simp: pending_ids_for_def)

lemma unique_keys_upd:
  assumes "unique_keys v" and "v iid = Some i" and "same_key j i"
  shows "unique_keys (v(iid \<mapsto> j))"
  using assms by (auto simp: unique_keys_def same_key_def)

lemma unique_keys_new:
  assumes "unique_keys v" and "\<not> key_taken v i"
  shows "unique_keys (v(iid \<mapsto> i))"
  using assms unfolding unique_keys_def key_taken_def same_key_def
  by (metis (no_types, lifting) fun_upd_apply option.inject)

section \<open>Lists of invoices\<close>

lemma distinct_map_sort_key: "distinct (map f (sort_key g xs)) = distinct (map f xs)"
  by (metis distinct_map distinct_sort set_sort)

lemma sorted_wrt_sort_key: "sorted_wrt (\<lambda>i j. f i \<le> f j) (sort_key f xs)"
  using sorted_sort_key [of f xs] by (simp add: sorted_map)

lemma length_filter_card:
  assumes "distinct (map ID xs)"
  shows "length (filter P xs) = card (ID ` {i \<in> set xs. P i})"
proof -
  have "distinct (map ID (filter P xs))" using assms by (induction xs) auto
  then have "length (map ID (filter P xs)) = card (set (map ID (filter P xs)))"
    by (metis distinct_card)
  then show ?thesis by simp
qed

section \<open>The contract\<close>

text \<open>
  \<open>view\<close> is the content of a state, \<open>kept\<close> what the store keeps of an invoice (Postgres rounds
  its times), \<open>stamp\<close> what it keeps of a settlement time,
  \<open>storable\<close> which invoices it can represent (Postgres text has no NUL), \<open>sane\<close> says that a world describes a possible behaviour of the runtime and
  \<open>healthy\<close> that in addition no I/O fails.  A failing operation may or may not have taken
  effect; an operation that reports success has.
\<close>

locale invoice_store =
  fixes st :: "('s, 'w) Store"
    and inv :: "'s \<Rightarrow> bool"
    and view :: "'s \<Rightarrow> ledger"
    and kept :: "invoice \<Rightarrow> invoice"
    and stamp :: "gtime \<Rightarrow> gtime"
    and storable :: "invoice \<Rightarrow> bool"
    and sane :: "'w \<Rightarrow> 's \<Rightarrow> bool"
    and healthy :: "'w \<Rightarrow> 's \<Rightarrow> bool"
  assumes healthy_sane: "healthy w s \<Longrightarrow> sane w s"
    and kept_fields: "ID (kept i) = ID i \<and> PayTo (kept i) = PayTo i \<and> Memo (kept i) = Memo i
      \<and> AmountNano (kept i) = AmountNano i \<and> Currency (kept i) = Currency i
      \<and> Status (kept i) = Status i \<and> TxHash (kept i) = TxHash i \<and> Metadata (kept i) = Metadata i"
    and view_finite: "inv s \<Longrightarrow> finite (dom (view s))"
    and view_id: "inv s \<Longrightarrow> view s iid = Some i \<Longrightarrow> ID i = iid"
    and view_unique: "inv s \<Longrightarrow> unique_keys (view s)"
    and get_sound: "inv s \<Longrightarrow> GetInvoice st w s iid = Some i \<Longrightarrow> view s iid = Some i"
    and get_complete: "inv s \<Longrightarrow> healthy w s \<Longrightarrow> GetInvoice st w s iid = view s iid"
    and create_law: "inv s \<Longrightarrow> view s (ID i) = None \<Longrightarrow> nul_free (PayTo i) \<Longrightarrow>
      CreateInvoice st w s i = (r, s') \<Longrightarrow>
      inv s' \<and> (view s' = view s \<or> \<not> key_taken (view s) i \<and> view s' = (view s)(ID i \<mapsto> kept i))
      \<and> (r = None \<longrightarrow> view s' = (view s)(ID i \<mapsto> kept i))
      \<and> (r = Some ErrMemoExists \<longrightarrow> key_taken (view s) i)"
    and create_healthy: "inv s \<Longrightarrow> view s (ID i) = None \<Longrightarrow> nul_free (PayTo i) \<Longrightarrow> storable i \<Longrightarrow>
      healthy w s \<Longrightarrow>
      fst (CreateInvoice st w s i) = (if key_taken (view s) i then Some ErrMemoExists else None)"
    and claim_law: "inv s \<Longrightarrow> ClaimInvoiceForSettlement st w s iid tx t = ((won, e), s') \<Longrightarrow>
      inv s'
      \<and> (view s' = view s \<or>
         (\<exists>i. view s iid = Some i \<and> pending i \<and> view s' = (view s)(iid \<mapsto> settled i tx (stamp t))))
      \<and> (won \<longrightarrow> e = None \<and> is_pending (view s) iid \<and> \<not> is_pending (view s') iid)
      \<and> (\<not> won \<and> e = None \<longrightarrow> view s' = view s \<and> \<not> is_pending (view s) iid)
      \<and> (healthy w s \<longrightarrow> (is_pending (view s) iid \<and> nul_free tx \<longrightarrow> won)
          \<and> (nul_free iid \<and> nul_free tx \<longrightarrow> e = None))"
    and expire_law: "inv s \<Longrightarrow> ExpireInvoice st w s iid = ((won, e), s') \<Longrightarrow>
      inv s'
      \<and> (view s' = view s \<or>
         (\<exists>i. view s iid = Some i \<and> pending i \<and> view s' = (view s)(iid \<mapsto> expired i)))
      \<and> (won \<longrightarrow> e = None \<and> is_pending (view s) iid \<and> \<not> is_pending (view s') iid)
      \<and> (\<not> won \<and> e = None \<longrightarrow> view s' = view s \<and> \<not> is_pending (view s) iid)
      \<and> (healthy w s \<longrightarrow> (is_pending (view s) iid \<longrightarrow> won) \<and> (nul_free iid \<longrightarrow> e = None))"
    and counts_law: "inv s \<Longrightarrow> sane w s \<Longrightarrow> PendingCounts st w s addr = ((n, forAddr), None) \<Longrightarrow>
      n = card (pending_ids (view s)) \<and> forAddr = card (pending_ids_for (view s) addr)"
    and counts_healthy: "inv s \<Longrightarrow> healthy w s \<Longrightarrow> nul_free addr \<Longrightarrow> snd (PendingCounts st w s addr) = None"
    and list_pending_law: "inv s \<Longrightarrow> sane w s \<Longrightarrow>
      distinct (map ID (ListPending st w s)) \<and> sorted (map CreatedAt (ListPending st w s))
      \<and> set (ListPending st w s) \<subseteq> {i. view s (ID i) = Some i \<and> pending i}"
    and list_pending_healthy: "inv s \<Longrightarrow> healthy w s \<Longrightarrow>
      set (ListPending st w s) = {i. view s (ID i) = Some i \<and> pending i}"
    and list_law: "inv s \<Longrightarrow> healthy w s \<Longrightarrow>
      distinct (map ID (ListInvoices st w s))
      \<and> sorted_wrt (\<lambda>i j. CreatedAt j \<le> CreatedAt i) (ListInvoices st w s)
      \<and> set (ListInvoices st w s) = {i. view s (ID i) = Some i}"
begin

lemmas claim_parts =
  claim_law [THEN conjunct1]
  claim_law [THEN conjunct2, THEN conjunct1]
  claim_law [THEN conjunct2, THEN conjunct2, THEN conjunct1, rule_format]
  claim_law [THEN conjunct2, THEN conjunct2, THEN conjunct2, THEN conjunct1, rule_format]
  claim_law [THEN conjunct2, THEN conjunct2, THEN conjunct2, THEN conjunct2, rule_format]

lemmas expire_parts =
  expire_law [THEN conjunct1]
  expire_law [THEN conjunct2, THEN conjunct1]
  expire_law [THEN conjunct2, THEN conjunct2, THEN conjunct1, rule_format]
  expire_law [THEN conjunct2, THEN conjunct2, THEN conjunct2, THEN conjunct1, rule_format]
  expire_law [THEN conjunct2, THEN conjunct2, THEN conjunct2, THEN conjunct2, rule_format]

lemma claim_inv: "inv s \<Longrightarrow> ClaimInvoiceForSettlement st w s iid tx t = (r, s') \<Longrightarrow> inv s'"
  by (cases r) (metis claim_parts(1))

lemma expire_inv: "inv s \<Longrightarrow> ExpireInvoice st w s iid = (r, s') \<Longrightarrow> inv s'"
  by (cases r) (metis expire_parts(1))

lemma claim_won:
  assumes "inv s" and "ClaimInvoiceForSettlement st w s iid tx t = ((True, e), s')"
  obtains i where "view s iid = Some i" and "pending i" and "view s' = (view s)(iid \<mapsto> settled i tx (stamp t))"
  using claim_parts(2,3) [OF assms] by auto

lemma expire_won:
  assumes "inv s" and "ExpireInvoice st w s iid = ((True, e), s')"
  obtains i where "view s iid = Some i" and "pending i" and "view s' = (view s)(iid \<mapsto> expired i)"
  using expire_parts(2,3) [OF assms] by auto

lemma claim_develops:
  assumes "inv s" and "ClaimInvoiceForSettlement st w s iid tx t = (r, s')"
  shows "ledger_develops (view s) (view s')"
proof -
  obtain won e where r: "r = (won, e)" by (cases r)
  consider "view s' = view s" | (moved) i where "view s iid = Some i" "pending i"
      "view s' = (view s)(iid \<mapsto> settled i tx (stamp t))"
    using claim_parts(2) [OF assms(1) assms(2) [unfolded r]] by blast
  then show ?thesis
    by cases (simp, simp add: ledger_develops_upd)
qed

lemma expire_develops:
  assumes "inv s" and "ExpireInvoice st w s iid = (r, s')"
  shows "ledger_develops (view s) (view s')"
proof -
  obtain won e where r: "r = (won, e)" by (cases r)
  consider "view s' = view s" | (moved) i where "view s iid = Some i" "pending i"
      "view s' = (view s)(iid \<mapsto> expired i)"
    using expire_parts(2) [OF assms(1) assms(2) [unfolded r]] by blast
  then show ?thesis
    by cases (simp, simp add: ledger_develops_upd)
qed

lemma create_develops:
  "inv s \<Longrightarrow> view s (ID i) = None \<Longrightarrow> nul_free (PayTo i) \<Longrightarrow> CreateInvoice st w s i = (r, s') \<Longrightarrow>
   ledger_develops (view s) (view s')"
  by (drule (3) create_law) (auto intro: ledger_develops_new)

lemma create_cases:
  assumes "inv s" and fresh: "view s (ID i) = None" and "nul_free (PayTo i)"
    and "CreateInvoice st w s i = (r, s')"
  obtains (created) "r = None" "inv s'" "\<not> key_taken (view s) i" "view s' = (view s)(ID i \<mapsto> kept i)"
  | (clash) "r = Some ErrMemoExists" "inv s'" "key_taken (view s) i" "view s' = view s"
  | (failed) e where "r = Some (StoreFailure e)" "inv s'" "ledger_develops (view s) (view s')"
proof -
  note law = create_law [OF assms]
  show thesis
  proof (cases r)
    case None
    then have v: "view s' = (view s)(ID i \<mapsto> kept i)" using law by blast
    then have "\<not> key_taken (view s) i" using law fresh by (metis fun_upd_same option.distinct(1))
    then show thesis using created None law v by blast
  next
    case (Some e)
    then show thesis
      using law clash failed create_develops [OF assms] by (cases e) blast+
  qed
qed

text \<open>Once an invoice is terminal, a claim or an expiry for it loses and changes nothing.\<close>

lemma claim_terminal:
  assumes "inv s" and "\<not> is_pending (view s) iid"
    and "ClaimInvoiceForSettlement st w s iid tx t = ((won, e), s')"
  shows "\<not> won \<and> view s' = view s"
proof -
  have "view s' = view s"
    using claim_parts(2) [OF assms(1,3)] assms(2) unfolding is_pending_def by blast
  then show ?thesis using claim_parts(3) [OF assms(1,3)] assms(2) by blast
qed

lemma expire_terminal:
  assumes "inv s" and "\<not> is_pending (view s) iid" and "ExpireInvoice st w s iid = ((won, e), s')"
  shows "\<not> won \<and> view s' = view s"
proof -
  have "view s' = view s"
    using expire_parts(2) [OF assms(1,3)] assms(2) unfolding is_pending_def by blast
  then show ?thesis using expire_parts(3) [OF assms(1,3)] assms(2) by blast
qed

lemma healthy_claim_wins:
  assumes "inv s" and "healthy w s" and "is_pending (view s) iid" and "nul_free tx"
    and "ClaimInvoiceForSettlement st w s iid tx t = ((won, e), s')"
  shows "won \<and> e = None"
  using claim_parts(3,5) [OF assms(1,5)] assms(2,3,4) by blast

lemma healthy_expire_wins:
  assumes "inv s" and "healthy w s" and "is_pending (view s) iid"
    and "ExpireInvoice st w s iid = ((won, e), s')"
  shows "won \<and> e = None"
  using expire_parts(3,5) [OF assms(1,4)] assms(2,3) by blast

text \<open>In a healthy world the laws leave no choice: result and new content are determined.\<close>

lemma healthy_create:
  assumes "inv s" and "healthy w s" and "view s (ID i) = None" and "nul_free (PayTo i)"
    and "storable i" and "CreateInvoice st w s i = (r, s')"
  shows "inv s' \<and> (if key_taken (view s) i then r = Some ErrMemoExists \<and> view s' = view s
    else r = None \<and> view s' = (view s)(ID i \<mapsto> kept i))"
proof -
  have r: "r = (if key_taken (view s) i then Some ErrMemoExists else None)"
    using create_healthy [OF assms(1,3,4,5,2)] assms(6) by simp
  note l = create_law [OF assms(1,3,4,6)]
  show ?thesis
  proof (cases "key_taken (view s) i")
    case True
    then have "view s' = view s" using l [THEN conjunct2, THEN conjunct1] by blast
    then show ?thesis using True r l [THEN conjunct1] by simp
  next
    case False
    then have "r = None" using r by simp
    then have "view s' = (view s)(ID i \<mapsto> kept i)"
      using l [THEN conjunct2, THEN conjunct2, THEN conjunct1] by blast
    then show ?thesis using False r l [THEN conjunct1] by simp
  qed
qed

lemma healthy_claim:
  assumes "inv s" and "healthy w s" and "nul_free iid" and "nul_free tx"
    and "ClaimInvoiceForSettlement st w s iid tx t = ((won, e), s')"
  shows "inv s' \<and> e = None \<and> won = is_pending (view s) iid
    \<and> view s' = (case view s iid of None \<Rightarrow> view s
        | Some i \<Rightarrow> if pending i then (view s)(iid \<mapsto> settled i tx (stamp t)) else view s)"
proof -
  have e: "e = None" using claim_parts(5) [OF assms(1,5,2)] assms(3,4) by blast
  have iff: "won \<longleftrightarrow> is_pending (view s) iid"
    using claim_parts(3,4) [OF assms(1,5)] e by blast
  have "view s' = view s" if "\<not> is_pending (view s) iid"
    using claim_terminal [OF assms(1) that assms(5)] by blast
  moreover have "view s' = (view s)(iid \<mapsto> settled i tx (stamp t))"
    if i: "view s iid = Some i" "pending i" for i
  proof -
    have won using iff i by (auto simp: is_pending_def)
    then show ?thesis using claim_won [of s w iid tx t e s'] assms(1,5) i by auto
  qed
  ultimately show ?thesis
    using claim_parts(1) [OF assms(1,5)] e iff by (auto simp: is_pending_def split: option.splits)
qed

lemma healthy_expire:
  assumes "inv s" and "healthy w s" and "nul_free iid"
    and "ExpireInvoice st w s iid = ((won, e), s')"
  shows "inv s' \<and> e = None \<and> won = is_pending (view s) iid
    \<and> view s' = (case view s iid of None \<Rightarrow> view s
        | Some i \<Rightarrow> if pending i then (view s)(iid \<mapsto> expired i) else view s)"
proof -
  have e: "e = None" using expire_parts(5) [OF assms(1,4,2)] assms(3) by blast
  have iff: "won \<longleftrightarrow> is_pending (view s) iid"
    using expire_parts(3,4) [OF assms(1,4)] e by blast
  have "view s' = view s" if "\<not> is_pending (view s) iid"
    using expire_terminal [OF assms(1) that assms(4)] by blast
  moreover have "view s' = (view s)(iid \<mapsto> expired i)"
    if i: "view s iid = Some i" "pending i" for i
  proof -
    have won using iff i by (auto simp: is_pending_def)
    then show ?thesis using expire_won [of s w iid e s'] assms(1,4) i by auto
  qed
  ultimately show ?thesis
    using expire_parts(1) [OF assms(1,4)] e iff by (auto simp: is_pending_def split: option.splits)
qed

end

end
