(* ===== verification/Memory.thy ===== *)
theory Memory
  imports Store
begin

text \<open>
  internal/store/memory.go: the in-memory store with its JSON snapshot.  The two Go maps are
  partial functions; the snapshot file and the temporary file beside it are part of the state,
  so that what a restart finds is a theorem and not an assumption.  Calls run under the
  store's mutex, hence each operation is one step.  The world of a call says how the file
  system answers and in which order Go ranges over the invoice map.
\<close>

section \<open>State\<close>

text \<open>
  What \<open>os.ReadFile\<close> and \<open>json.Unmarshal\<close> can find in a file: nothing, an I/O error, bytes that
  are not JSON, or a snapshot, whose \<open>invoices\<close> member may be missing; \<open>Persistence\<close> says which bytes
  are which.
\<close>

datatype disk_file = NoFile | Unreadable | Corrupt | Snapshot "ledger option"

record memory =
  dir :: string
  invoices :: ledger
  memos :: "string \<rightharpoonup> string"
  store_file :: disk_file
  tmp_file :: disk_file

datatype io = IoOk | MkdirFail | MarshalFail | WriteFail | RenameFail

record mem_world =
  disk_io :: io
  range_order :: "string list"

section \<open>Operations\<close>

definition memoKey :: "string \<Rightarrow> string \<Rightarrow> string" where
  "memoKey payTo memo = payTo @ CHR 0x00 # memo"

text \<open>
  \<open>persist\<close>: create the directory, marshal, write the temporary file, rename it over the
  snapshot.  A failed write leaves a torn temporary file.
\<close>

definition persist :: "io \<Rightarrow> memory \<Rightarrow> store_error option \<times> memory" where
  "persist w m = (if dir m = [] then (None, m)
     else case w of
       MkdirFail \<Rightarrow> (Some (StoreFailure ''mkdir''), m)
     | MarshalFail \<Rightarrow> (Some (StoreFailure ''marshal''), m)
     | WriteFail \<Rightarrow> (Some (StoreFailure ''write''), m\<lparr>tmp_file := Corrupt\<rparr>)
     | RenameFail \<Rightarrow> (Some (StoreFailure ''rename''), m\<lparr>tmp_file := Snapshot (Some (invoices m))\<rparr>)
     | IoOk \<Rightarrow> (None, m\<lparr>store_file := Snapshot (Some (invoices m)), tmp_file := NoFile\<rparr>))"

definition mem_create :: "mem_world \<Rightarrow> memory \<Rightarrow> invoice \<Rightarrow> store_error option \<times> memory" where
  "mem_create w m i = (let mk = memoKey (PayTo i) (Memo i) in
     if memos m mk \<noteq> None then (Some ErrMemoExists, m)
     else case persist (disk_io w)
                 (m\<lparr>invoices := (invoices m)(ID i \<mapsto> i), memos := (memos m)(mk \<mapsto> ID i)\<rparr>) of
       (Some e, m') \<Rightarrow> (Some e, m'\<lparr>invoices := (invoices m')(ID i := None),
                                  memos := (memos m')(mk := None)\<rparr>)
     | (None, m') \<Rightarrow> (None, m'))"

definition mem_get :: "mem_world \<Rightarrow> memory \<Rightarrow> string \<Rightarrow> invoice option" where
  "mem_get w m iid = invoices m iid"

text \<open>\<open>for _, inv := range m.invoices\<close> visits the invoices in the order of the world.\<close>

definition range_invoices :: "mem_world \<Rightarrow> memory \<Rightarrow> invoice list" where
  "range_invoices w m = List.map_filter (invoices m) (range_order w)"

text \<open>
  \<open>sort.Slice\<close> is not stable: ties come out in any order.  Here the sort is stable and the
  order it starts from is the arbitrary one of the world, which yields the same outcomes.
\<close>

definition mem_list :: "mem_world \<Rightarrow> memory \<Rightarrow> invoice list" where
  "mem_list w m = sort_key (\<lambda>i. - CreatedAt i) (range_invoices w m)"

definition mem_list_pending :: "mem_world \<Rightarrow> memory \<Rightarrow> invoice list" where
  "mem_list_pending w m = sort_key CreatedAt (filter pending (range_invoices w m))"

definition mem_claim ::
  "mem_world \<Rightarrow> memory \<Rightarrow> string \<Rightarrow> string \<Rightarrow> gtime \<Rightarrow> (bool \<times> store_error option) \<times> memory" where
  "mem_claim w m iid txHash paidAt = (case invoices m iid of
     None \<Rightarrow> ((False, None), m)
   | Some cur \<Rightarrow>
       if Status cur \<noteq> StatusPending then ((False, None), m)
       else let updated = cur\<lparr>Status := StatusPaid, TxHash := txHash, PaidAt := paidAt\<rparr> in
         case persist (disk_io w) (m\<lparr>invoices := (invoices m)(iid \<mapsto> updated)\<rparr>) of
           (Some e, m') \<Rightarrow> ((False, Some e), m'\<lparr>invoices := (invoices m')(iid \<mapsto> cur)\<rparr>)
         | (None, m') \<Rightarrow> ((True, None), m'))"

definition mem_expire :: "mem_world \<Rightarrow> memory \<Rightarrow> string \<Rightarrow> (bool \<times> store_error option) \<times> memory" where
  "mem_expire w m iid = (case invoices m iid of
     None \<Rightarrow> ((False, None), m)
   | Some cur \<Rightarrow>
       if Status cur \<noteq> StatusPending then ((False, None), m)
       else let updated = cur\<lparr>Status := StatusExpired\<rparr> in
         case persist (disk_io w) (m\<lparr>invoices := (invoices m)(iid \<mapsto> updated)\<rparr>) of
           (Some e, m') \<Rightarrow> ((False, Some e), m'\<lparr>invoices := (invoices m')(iid \<mapsto> cur)\<rparr>)
         | (None, m') \<Rightarrow> ((True, None), m'))"

text \<open>The counting loop, one iteration per invoice.\<close>

fun count_loop :: "string \<Rightarrow> invoice list \<Rightarrow> nat \<times> nat \<Rightarrow> nat \<times> nat" where
  "count_loop payTo [] acc = acc"
| "count_loop payTo (i # rest) (tot, forAddr) =
     (if Status i \<noteq> StatusPending then count_loop payTo rest (tot, forAddr)
      else count_loop payTo rest (Suc tot, if PayTo i = payTo then Suc forAddr else forAddr))"

definition mem_counts :: "mem_world \<Rightarrow> memory \<Rightarrow> string \<Rightarrow> (nat \<times> nat) \<times> store_error option" where
  "mem_counts w m payTo = (count_loop payTo (range_invoices w m) (0, 0), None)"

section \<open>Start-up\<close>

text \<open>\<open>load\<close> rebuilds the memo index by one pass over the loaded map.\<close>

definition index_memo :: "ledger \<Rightarrow> string \<Rightarrow> (string \<rightharpoonup> string) \<Rightarrow> (string \<rightharpoonup> string)" where
  "index_memo invs iid mm = (case invs iid of
      None \<Rightarrow> mm | Some i \<Rightarrow> mm(memoKey (PayTo i) (Memo i) \<mapsto> iid))"

definition rebuild_memos :: "ledger \<Rightarrow> string list \<Rightarrow> (string \<rightharpoonup> string)" where
  "rebuild_memos invs order = fold (index_memo invs) order Map.empty"

definition load :: "string list \<Rightarrow> memory \<Rightarrow> store_error + memory" where
  "load order m = (case store_file m of
     NoFile \<Rightarrow> Inr m
   | Unreadable \<Rightarrow> Inl (StoreFailure ''read'')
   | Corrupt \<Rightarrow> Inl (StoreFailure ''unmarshal'')
   | Snapshot s \<Rightarrow> let invs = (case s of None \<Rightarrow> invoices m | Some v \<Rightarrow> v) in
       Inr (m\<lparr>invoices := invs, memos := rebuild_memos invs order\<rparr>))"

definition NewMemory :: "string \<Rightarrow> disk_file \<Rightarrow> disk_file \<Rightarrow> string list \<Rightarrow> store_error + memory" where
  "NewMemory d f t order =
     (let m = \<lparr>dir = d, invoices = Map.empty, memos = Map.empty, store_file = f, tmp_file = t\<rparr> in
      if d \<noteq> [] then load order m else Inr m)"

definition memory_store :: "(memory, mem_world) Store" where
  "memory_store = \<lparr>CreateInvoice = mem_create, GetInvoice = mem_get, ListInvoices = mem_list,
     ListPending = mem_list_pending, ClaimInvoiceForSettlement = mem_claim,
     ExpireInvoice = mem_expire, PendingCounts = mem_counts\<rparr>"

lemma memory_store_simps [simp]:
  "CreateInvoice memory_store = mem_create" "GetInvoice memory_store = mem_get"
  "ListInvoices memory_store = mem_list" "ListPending memory_store = mem_list_pending"
  "ClaimInvoiceForSettlement memory_store = mem_claim" "ExpireInvoice memory_store = mem_expire"
  "PendingCounts memory_store = mem_counts"
  by (simp_all add: memory_store_def)

section \<open>Invariants\<close>

definition index_exact :: "ledger \<Rightarrow> (string \<rightharpoonup> string) \<Rightarrow> bool" where
  "index_exact v mm \<longleftrightarrow>
     (\<forall>k iid. mm k = Some iid \<longleftrightarrow> (\<exists>i. v iid = Some i \<and> memoKey (PayTo i) (Memo i) = k))"

definition well_keyed :: "ledger \<Rightarrow> bool" where
  "well_keyed v \<longleftrightarrow> finite (dom v) \<and> (\<forall>iid i. v iid = Some i \<longrightarrow> ID i = iid \<and> nul_free (PayTo i))"

definition mem_inv :: "memory \<Rightarrow> bool" where
  "mem_inv m \<longleftrightarrow> well_keyed (invoices m) \<and> index_exact (invoices m) (memos m)"

text \<open>Memory and disk agree: what a restart would load is what the process holds.\<close>

definition durable :: "memory \<Rightarrow> bool" where
  "durable m \<longleftrightarrow> dir m \<noteq> [] \<longrightarrow>
     store_file m = Snapshot (Some (invoices m)) \<or> store_file m = NoFile \<and> invoices m = Map.empty"

definition mem_sane :: "mem_world \<Rightarrow> memory \<Rightarrow> bool" where
  "mem_sane w m \<longleftrightarrow> distinct (range_order w) \<and> set (range_order w) = dom (invoices m)"

definition mem_healthy :: "mem_world \<Rightarrow> memory \<Rightarrow> bool" where
  "mem_healthy w m \<longleftrightarrow> mem_sane w m \<and> disk_io w = IoOk"


section \<open>The memo index\<close>

lemma memoKey_eq_iff:
  assumes "nul_free a" and "nul_free b"
  shows "memoKey a x = memoKey b y \<longleftrightarrow> a = b \<and> x = y"
  using assms
proof (induction a arbitrary: b)
  case Nil
  then show ?case by (cases b) (auto simp: memoKey_def nul_free_def)
next
  case (Cons c a)
  then show ?case by (cases b) (auto simp: memoKey_def nul_free_def)
qed

lemma well_keyed_empty [simp]: "well_keyed Map.empty"
  by (simp add: well_keyed_def)

lemma index_exact_empty [simp]: "index_exact Map.empty Map.empty"
  by (simp add: index_exact_def)

lemma well_keyed_upd:
  "well_keyed v \<Longrightarrow> nul_free (PayTo i) \<Longrightarrow> ID i = iid \<Longrightarrow> well_keyed (v(iid \<mapsto> i))"
  by (auto simp: well_keyed_def)

lemma index_exact_upd:
  assumes "index_exact v mm" and "v iid = Some i" and "same_key j i"
  shows "index_exact (v(iid \<mapsto> j)) mm"
  using assms unfolding index_exact_def same_key_def by (auto split: if_splits)

lemma index_exact_new:
  assumes "index_exact v mm" and "v (ID i) = None" and "mm (memoKey (PayTo i) (Memo i)) = None"
  shows "index_exact (v(ID i \<mapsto> i)) (mm(memoKey (PayTo i) (Memo i) \<mapsto> ID i))"
  unfolding index_exact_def
proof (intro allI)
  fix k iid
  let ?k = "memoKey (PayTo i) (Memo i)"
  have old: "mm k = Some iid \<longleftrightarrow> (\<exists>j. v iid = Some j \<and> memoKey (PayTo j) (Memo j) = k)"
    using assms(1) unfolding index_exact_def by blast
  have none: "\<not> (v iid = Some j \<and> memoKey (PayTo j) (Memo j) = ?k)" for j
    using assms(1,3) unfolding index_exact_def by (metis option.distinct(1))
  show "(mm(?k \<mapsto> ID i)) k = Some iid \<longleftrightarrow>
      (\<exists>j. (v(ID i \<mapsto> i)) iid = Some j \<and> memoKey (PayTo j) (Memo j) = k)"
    using old none assms(2) by (cases "k = ?k"; cases "iid = ID i") auto
qed

lemma index_taken:
  assumes "index_exact v mm" and "well_keyed v" and "nul_free (PayTo i)"
  shows "mm (memoKey (PayTo i) (Memo i)) \<noteq> None \<longleftrightarrow> key_taken v i"
proof
  assume "mm (memoKey (PayTo i) (Memo i)) \<noteq> None"
  then obtain a j where "v a = Some j" "memoKey (PayTo j) (Memo j) = memoKey (PayTo i) (Memo i)"
    using assms(1) unfolding index_exact_def by auto
  moreover from this have "nul_free (PayTo j)" using assms(2) by (auto simp: well_keyed_def)
  ultimately show "key_taken v i"
    using assms(3) by (auto simp: memoKey_eq_iff key_taken_def same_key_def)
next
  assume "key_taken v i"
  then show "mm (memoKey (PayTo i) (Memo i)) \<noteq> None"
    using assms(1) unfolding index_exact_def key_taken_def same_key_def by (metis option.distinct(1))
qed

lemma index_exact_unique_keys: "index_exact v mm \<Longrightarrow> unique_keys v"
  unfolding index_exact_def unique_keys_def same_key_def by (metis option.inject)

section \<open>Persisting\<close>

lemma persist_cases:
  assumes "persist w m = (r, m')"
  shows "dir m' = dir m \<and> invoices m' = invoices m \<and> memos m' = memos m
    \<and> (r = None \<longrightarrow> dir m \<noteq> [] \<longrightarrow> store_file m' = Snapshot (Some (invoices m)))
    \<and> (r \<noteq> None \<longrightarrow> store_file m' = store_file m \<and> dir m \<noteq> [])
    \<and> (w = IoOk \<longrightarrow> r = None) \<and> r \<noteq> Some ErrMemoExists"
  using assms by (auto simp: persist_def split: if_splits io.splits)

lemma persist_ok: "persist IoOk m = (r, m') \<Longrightarrow> r = None"
  by (drule persist_cases) simp

text \<open>
  The three mutations have one shape: try a new content, keep it when the write is durable and
  otherwise put the old one back.
\<close>

lemma mem_create_cases:
  assumes "mem_inv m" and "nul_free (PayTo i)" and "invoices m (ID i) = None"
    and "mem_create w m i = (r, m')"
  obtains (taken) "key_taken (invoices m) i" "r = Some ErrMemoExists" "m' = m"
  | (failed) e where "\<not> key_taken (invoices m) i" "r = Some e" "e \<noteq> ErrMemoExists"
      "invoices m' = invoices m" "memos m' = memos m"
      "store_file m' = store_file m" "dir m' = dir m" "disk_io w \<noteq> IoOk" "dir m \<noteq> []"
  | (created) "\<not> key_taken (invoices m) i" "r = None"
      "invoices m' = (invoices m)(ID i \<mapsto> i)"
      "memos m' = (memos m)(memoKey (PayTo i) (Memo i) \<mapsto> ID i)" "dir m' = dir m"
      "dir m \<noteq> [] \<longrightarrow> store_file m' = Snapshot (Some (invoices m'))"
proof -
  let ?mk = "memoKey (PayTo i) (Memo i)"
  let ?m1 = "m\<lparr>invoices := (invoices m)(ID i \<mapsto> i), memos := (memos m)(?mk \<mapsto> ID i)\<rparr>"
  have tk: "memos m ?mk \<noteq> None \<longleftrightarrow> key_taken (invoices m) i"
    using index_taken assms(1,2) by (simp add: mem_inv_def)
  obtain r1 m1 where p: "persist (disk_io w) ?m1 = (r1, m1)" by (metis surj_pair)
  note pc = persist_cases [OF p]
  show thesis
  proof (cases "memos m ?mk")
    case (Some x)
    then have "(r, m') = (Some ErrMemoExists, m)" using assms(4) by (simp add: mem_create_def)
    moreover have "key_taken (invoices m) i" using tk Some by blast
    ultimately show thesis using taken by blast
  next
    case None
    then have nt: "\<not> key_taken (invoices m) i" using tk by blast
    show thesis
    proof (cases r1)
      case r1: None
      then have "r = None" "m' = m1" using assms(4) None p by (auto simp: mem_create_def Let_def)
      then show thesis using created [OF nt] r1 pc by simp
    next
      case (Some e)
      have "r = Some e" "m' = m1\<lparr>invoices := (invoices m1)(ID i := None), memos := (memos m1)(?mk := None)\<rparr>"
        using assms(4) None p Some by (auto simp: mem_create_def Let_def)
      moreover have "(invoices m)(ID i := None) = invoices m" "(memos m)(?mk := None) = memos m"
        using assms(3) None by auto
      ultimately show thesis using failed [OF nt, of e] Some pc by simp
    qed
  qed
qed


text \<open>Settlement and expiry are the same guarded replacement of a pending invoice.\<close>

definition replace_pending ::
  "io \<Rightarrow> memory \<Rightarrow> string \<Rightarrow> (invoice \<Rightarrow> invoice) \<Rightarrow> (bool \<times> store_error option) \<times> memory" where
  "replace_pending w m iid f = (case invoices m iid of
     None \<Rightarrow> ((False, None), m)
   | Some cur \<Rightarrow>
       if \<not> pending cur then ((False, None), m)
       else case persist w (m\<lparr>invoices := (invoices m)(iid \<mapsto> f cur)\<rparr>) of
           (Some e, m') \<Rightarrow> ((False, Some e), m'\<lparr>invoices := (invoices m')(iid \<mapsto> cur)\<rparr>)
         | (None, m') \<Rightarrow> ((True, None), m'))"

lemma mem_claim_replace: "mem_claim w m iid tx t = replace_pending (disk_io w) m iid (\<lambda>i. settled i tx t)"
  by (cases "invoices m iid") (simp_all add: mem_claim_def replace_pending_def settled_def Let_def)

lemma mem_expire_replace: "mem_expire w m iid = replace_pending (disk_io w) m iid expired"
  by (cases "invoices m iid") (simp_all add: mem_expire_def replace_pending_def expired_def Let_def)

lemma replace_pending_cases:
  assumes "replace_pending w m iid f = ((won, e), m')"
  obtains (idle) "\<not> is_pending (invoices m) iid" "\<not> won" "e = None" "m' = m"
  | (failed) x where "is_pending (invoices m) iid" "\<not> won" "e = Some x" "w \<noteq> IoOk"
      "invoices m' = invoices m" "memos m' = memos m" "store_file m' = store_file m" "dir m' = dir m" "dir m \<noteq> []"
  | (replaced) i where "invoices m iid = Some i" "pending i" "won" "e = None"
      "invoices m' = (invoices m)(iid \<mapsto> f i)" "memos m' = memos m" "dir m' = dir m"
      "dir m \<noteq> [] \<longrightarrow> store_file m' = Snapshot (Some (invoices m'))"
proof (cases "is_pending (invoices m) iid")
  case False
  then show thesis
    using idle assms by (auto simp: replace_pending_def is_pending_def split: option.splits)
next
  case True
  then obtain i where i: "invoices m iid = Some i" "pending i" by (auto simp: is_pending_def)
  obtain r1 m1 where p: "persist w (m\<lparr>invoices := (invoices m)(iid \<mapsto> f i)\<rparr>) = (r1, m1)"
    by (metis surj_pair)
  note pc = persist_cases [OF p]
  have undone: "(invoices m)(iid \<mapsto> i) = invoices m" using i by auto
  show thesis
  proof (cases r1)
    case None
    then show thesis using replaced [OF i] assms i p pc by (simp add: replace_pending_def)
  next
    case (Some x)
    then have "e = Some x" "\<not> won" "m' = m1\<lparr>invoices := (invoices m1)(iid \<mapsto> i)\<rparr>"
      using assms i p by (auto simp: replace_pending_def)
    then show thesis using failed [OF True] Some pc undone by auto
  qed
qed

lemma replace_pending_inv:
  assumes "mem_inv m" and "replace_pending w m iid f = (r, m')"
    and f: "\<And>i. ID (f i) = ID i \<and> same_key (f i) i"
  shows "mem_inv m'"
proof -
  obtain won e where r: "replace_pending w m iid f = ((won, e), m')" using assms(2) by (cases r) auto
  show ?thesis
    using r
  proof (cases rule: replace_pending_cases)
    case (replaced i)
    have wk: "well_keyed (invoices m)" and ie: "index_exact (invoices m) (memos m)"
      using assms(1) by (simp_all add: mem_inv_def)
    have "ID i = iid" "nul_free (PayTo i)" using wk replaced(1) by (auto simp: well_keyed_def)
    then have "well_keyed ((invoices m)(iid \<mapsto> f i))"
      using well_keyed_upd [OF wk, of "f i" iid] f [of i] by (simp add: same_key_def)
    moreover have "index_exact ((invoices m)(iid \<mapsto> f i)) (memos m)"
      using index_exact_upd [OF ie replaced(1)] f by blast
    ultimately show ?thesis using replaced by (simp add: mem_inv_def)
  qed (use assms(1) in \<open>simp_all add: mem_inv_def\<close>)
qed

lemma replace_pending_durable:
  assumes "durable m" and "replace_pending w m iid f = (r, m')"
  shows "durable m'"
proof -
  obtain won e where r: "replace_pending w m iid f = ((won, e), m')" using assms(2) by (cases r) auto
  show ?thesis
    using r by (cases rule: replace_pending_cases) (use assms(1) in \<open>auto simp: durable_def\<close>)
qed

lemma mem_create_inv:
  assumes "mem_inv m" and "nul_free (PayTo i)" and "invoices m (ID i) = None"
    and "mem_create w m i = (r, m')"
  shows "mem_inv m'"
  using assms
proof (cases rule: mem_create_cases)
  case created
  have wk: "well_keyed (invoices m)" and ie: "index_exact (invoices m) (memos m)"
    using assms(1) by (simp_all add: mem_inv_def)
  have "memos m (memoKey (PayTo i) (Memo i)) = None"
    using index_taken [OF ie wk assms(2)] created(1) by blast
  then show ?thesis
    using created wk ie assms(2,3) by (simp add: mem_inv_def well_keyed_upd index_exact_new)
qed (use assms(1) in \<open>simp_all add: mem_inv_def\<close>)

lemma mem_create_durable:
  assumes "mem_inv m" and "nul_free (PayTo i)" and "invoices m (ID i) = None"
    and "durable m" and "mem_create w m i = (r, m')"
  shows "durable m'"
  using assms(1,2,3,5) by (cases rule: mem_create_cases) (use assms(4) in \<open>auto simp: durable_def\<close>)

section \<open>Reading\<close>

lemma set_range_invoices:
  assumes "well_keyed (invoices m)" and "mem_sane w m"
  shows "set (range_invoices w m) = {i. invoices m (ID i) = Some i}"
proof -
  have "set (range_invoices w m) = {i. \<exists>iid. invoices m iid = Some i}"
    using assms(2) by (force simp: range_invoices_def List.map_filter_def mem_sane_def)
  also have "\<dots> = {i. invoices m (ID i) = Some i}"
    using assms(1) by (auto simp: well_keyed_def)
  finally show ?thesis .
qed

lemma map_filter_ids:
  assumes "\<And>iid i. v iid = Some i \<Longrightarrow> ID i = iid"
  shows "map ID (List.map_filter v ks) = filter (\<lambda>k. v k \<noteq> None) ks"
  by (induction ks) (use assms in \<open>auto simp: List.map_filter_simps split: option.splits\<close>)

lemma distinct_range_ids:
  assumes "well_keyed (invoices m)" and "mem_sane w m"
  shows "distinct (map ID (range_invoices w m))"
  using assms by (simp add: range_invoices_def map_filter_ids well_keyed_def mem_sane_def)

lemma count_loop_filter:
  "count_loop p xs (a, b) = (a + length (filter pending xs),
     b + length (filter (\<lambda>i. pending i \<and> PayTo i = p) xs))"
  by (induction xs arbitrary: a b) auto

lemma ids_of_view:
  assumes "well_keyed v"
  shows "ID ` {i. v (ID i) = Some i \<and> P i} = {iid. \<exists>i. v iid = Some i \<and> P i}"
  using assms by (auto simp: well_keyed_def image_iff)


section \<open>The memory store meets the contract\<close>

lemma mem_counts_card:
  assumes "mem_inv m" and "mem_sane w m"
  shows "mem_counts w m p = ((card (pending_ids (invoices m)), card (pending_ids_for (invoices m) p)), None)"
proof -
  have wk: "well_keyed (invoices m)" using assms(1) by (simp add: mem_inv_def)
  let ?xs = "range_invoices w m"
  note d = distinct_range_ids [OF wk assms(2)]
  have s: "{i \<in> set ?xs. P i} = {i. invoices m (ID i) = Some i \<and> P i}" for P
    using set_range_invoices [OF wk assms(2)] by auto
  have "length (filter pending ?xs) = card (pending_ids (invoices m))"
    by (simp add: length_filter_card [OF d] s ids_of_view [OF wk] pending_ids_def is_pending_def)
  moreover have "length (filter (\<lambda>i. pending i \<and> PayTo i = p) ?xs) = card (pending_ids_for (invoices m) p)"
    by (simp add: length_filter_card [OF d] s ids_of_view [OF wk] pending_ids_for_def)
  ultimately show ?thesis by (simp add: mem_counts_def count_loop_filter)
qed

lemma mem_list_pending_spec:
  assumes "mem_inv m" and "mem_sane w m"
  shows "distinct (map ID (mem_list_pending w m)) \<and> sorted (map CreatedAt (mem_list_pending w m))
    \<and> set (mem_list_pending w m) = {i. invoices m (ID i) = Some i \<and> pending i}"
proof -
  have wk: "well_keyed (invoices m)" using assms(1) by (simp add: mem_inv_def)
  have "distinct (map ID (filter pending (range_invoices w m)))"
    using distinct_range_ids [OF wk assms(2)] by (simp add: distinct_map_filter)
  then show ?thesis
    using set_range_invoices [OF wk assms(2)] by (auto simp: mem_list_pending_def distinct_map_sort_key)
qed

lemma mem_list_spec:
  assumes "mem_inv m" and "mem_sane w m"
  shows "distinct (map ID (mem_list w m))
    \<and> sorted_wrt (\<lambda>i j. CreatedAt j \<le> CreatedAt i) (mem_list w m)
    \<and> set (mem_list w m) = {i. invoices m (ID i) = Some i}"
proof -
  have wk: "well_keyed (invoices m)" using assms(1) by (simp add: mem_inv_def)
  have "sorted_wrt (\<lambda>i j. CreatedAt j \<le> CreatedAt i) (mem_list w m)"
    using sorted_wrt_sort_key [of "\<lambda>i. - CreatedAt i" "range_invoices w m"] by (simp add: mem_list_def)
  then show ?thesis
    using set_range_invoices [OF wk assms(2)] distinct_range_ids [OF wk assms(2)]
    by (auto simp: mem_list_def distinct_map_sort_key)
qed

lemma mem_create_law:
  assumes "mem_inv m" and "invoices m (ID i) = None" and "nul_free (PayTo i)"
    and "mem_create w m i = (r, m')"
  shows "mem_inv m' \<and> (invoices m' = invoices m \<or> \<not> key_taken (invoices m) i \<and> invoices m' = (invoices m)(ID i \<mapsto> i))
    \<and> (r = None \<longrightarrow> invoices m' = (invoices m)(ID i \<mapsto> i))
    \<and> (r = Some ErrMemoExists \<longrightarrow> key_taken (invoices m) i)"
  using assms(1,3,2,4)
  by (cases rule: mem_create_cases) (use mem_create_inv [OF assms(1,3,2,4)] in auto)

lemma mem_create_healthy:
  assumes "mem_inv m" and "invoices m (ID i) = None" and "nul_free (PayTo i)" and "mem_healthy w m"
  shows "fst (mem_create w m i) = (if key_taken (invoices m) i then Some ErrMemoExists else None)"
proof -
  obtain r m' where c: "mem_create w m i = (r, m')" by (metis surj_pair)
  show ?thesis
    using assms(1,3,2) c
    by (cases rule: mem_create_cases) (use assms(4) c in \<open>auto simp: mem_healthy_def\<close>)
qed

lemma replace_pending_law:
  assumes "mem_inv m" and "replace_pending w m iid f = ((won, e), m')"
    and f: "\<And>i. ID (f i) = ID i \<and> same_key (f i) i" "\<And>i. \<not> pending (f i)"
  shows "mem_inv m'
    \<and> (invoices m' = invoices m \<or>
       (\<exists>i. invoices m iid = Some i \<and> pending i \<and> invoices m' = (invoices m)(iid \<mapsto> f i)))
    \<and> (won \<longrightarrow> e = None \<and> is_pending (invoices m) iid \<and> \<not> is_pending (invoices m') iid)
    \<and> (\<not> won \<and> e = None \<longrightarrow> invoices m' = invoices m \<and> \<not> is_pending (invoices m) iid)
    \<and> (w = IoOk \<longrightarrow> e = None)"
  using assms(2)
  by (cases rule: replace_pending_cases)
    (use replace_pending_inv [OF assms(1,2) f(1)] f(2) in \<open>auto simp: is_pending_def\<close>)

interpretation mem: invoice_store memory_store mem_inv invoices "\<lambda>i. i" "\<lambda>t. t" "\<lambda>i. True"
  mem_sane mem_healthy
proof
  show "mem_healthy w m \<Longrightarrow> mem_sane w m" for w m by (simp add: mem_healthy_def)
  show "mem_inv m \<Longrightarrow> finite (dom (invoices m))" for m by (simp add: mem_inv_def well_keyed_def)
  show "mem_inv m \<Longrightarrow> invoices m iid = Some i \<Longrightarrow> ID i = iid" for m iid i
    by (simp add: mem_inv_def well_keyed_def)
  show "mem_inv m \<Longrightarrow> unique_keys (invoices m)" for m
    by (auto simp: mem_inv_def dest: index_exact_unique_keys)
  show "mem_inv m \<Longrightarrow> invoices m (ID i) = None \<Longrightarrow> nul_free (PayTo i) \<Longrightarrow>
      CreateInvoice memory_store w m i = (r, m') \<Longrightarrow>
      mem_inv m' \<and> (invoices m' = invoices m \<or> \<not> key_taken (invoices m) i \<and> invoices m' = (invoices m)(ID i \<mapsto> i))
      \<and> (r = None \<longrightarrow> invoices m' = (invoices m)(ID i \<mapsto> i))
      \<and> (r = Some ErrMemoExists \<longrightarrow> key_taken (invoices m) i)" for m i w r m'
    using mem_create_law [of m i w r m'] by simp
  show "mem_inv m \<Longrightarrow> ClaimInvoiceForSettlement memory_store w m iid tx t = ((won, e), m') \<Longrightarrow>
      mem_inv m'
      \<and> (invoices m' = invoices m \<or>
         (\<exists>i. invoices m iid = Some i \<and> pending i \<and> invoices m' = (invoices m)(iid \<mapsto> settled i tx t)))
      \<and> (won \<longrightarrow> e = None \<and> is_pending (invoices m) iid \<and> \<not> is_pending (invoices m') iid)
      \<and> (\<not> won \<and> e = None \<longrightarrow> invoices m' = invoices m \<and> \<not> is_pending (invoices m) iid)
      \<and> (mem_healthy w m \<longrightarrow> (is_pending (invoices m) iid \<and> nul_free tx \<longrightarrow> won)
          \<and> (nul_free iid \<and> nul_free tx \<longrightarrow> e = None))" for m w iid tx t won e m'
    using replace_pending_law [of m "disk_io w" iid "\<lambda>i. settled i tx t" won e m']
    by (auto simp: mem_claim_replace mem_healthy_def same_key_def)
  show "mem_inv m \<Longrightarrow> ExpireInvoice memory_store w m iid = ((won, e), m') \<Longrightarrow>
      mem_inv m'
      \<and> (invoices m' = invoices m \<or>
         (\<exists>i. invoices m iid = Some i \<and> pending i \<and> invoices m' = (invoices m)(iid \<mapsto> expired i)))
      \<and> (won \<longrightarrow> e = None \<and> is_pending (invoices m) iid \<and> \<not> is_pending (invoices m') iid)
      \<and> (\<not> won \<and> e = None \<longrightarrow> invoices m' = invoices m \<and> \<not> is_pending (invoices m) iid)
      \<and> (mem_healthy w m \<longrightarrow> (is_pending (invoices m) iid \<longrightarrow> won) \<and> (nul_free iid \<longrightarrow> e = None))" for m w iid won e m'
    using replace_pending_law [of m "disk_io w" iid expired won e m']
    by (auto simp: mem_expire_replace mem_healthy_def same_key_def)
qed (auto simp: mem_create_healthy mem_counts_card mem_list_pending_spec mem_list_spec
      mem_get_def mem_healthy_def)


section \<open>Life of a store across restarts\<close>

text \<open>
  A process opens the store, mutates it, stops at any point and is started again on the files
  it left behind.  New invoices come with ids that are not in use.
\<close>

inductive mem_reach :: "string \<Rightarrow> memory \<Rightarrow> bool" for d :: string where
  fresh: "NewMemory d NoFile t order = Inr m \<Longrightarrow> mem_reach d m"
| create: "mem_reach d m \<Longrightarrow> invoices m (ID i) = None \<Longrightarrow> nul_free (PayTo i) \<Longrightarrow>
    mem_create w m i = (r, m') \<Longrightarrow> mem_reach d m'"
| claim: "mem_reach d m \<Longrightarrow> mem_claim w m iid tx at = (c, m') \<Longrightarrow> mem_reach d m'"
| expire: "mem_reach d m \<Longrightarrow> mem_expire w m iid = (c, m') \<Longrightarrow> mem_reach d m'"
| restart: "mem_reach d m \<Longrightarrow> set order = dom (invoices m) \<Longrightarrow>
    NewMemory d (store_file m) t order = Inr m' \<Longrightarrow> mem_reach d m'"

lemma rebuild_memos_other:
  assumes "\<And>iid i. iid \<in> set ks \<Longrightarrow> v iid = Some i \<Longrightarrow> memoKey (PayTo i) (Memo i) \<noteq> k"
  shows "fold (index_memo v) ks mm k = mm k"
  using assms
proof (induction ks arbitrary: mm)
  case (Cons a ks)
  have "fold (index_memo v) ks (index_memo v a mm) k = index_memo v a mm k"
    by (rule Cons.IH) (use Cons.prems in auto)
  moreover have "index_memo v a mm k = mm k"
    using Cons.prems [of a] by (auto simp: index_memo_def split: option.splits)
  ultimately show ?case by simp
qed simp

lemma rebuild_memos_hit:
  assumes "v a = Some i" and "memoKey (PayTo i) (Memo i) = k" and "a \<in> set ks"
    and u: "\<And>b j. v b = Some j \<Longrightarrow> memoKey (PayTo j) (Memo j) = k \<Longrightarrow> b = a"
  shows "fold (index_memo v) ks mm k = Some a"
  using assms(3)
proof (induction ks arbitrary: mm)
  case (Cons b ks)
  show ?case
  proof (cases "a \<in> set ks")
    case True
    then show ?thesis using Cons.IH by simp
  next
    case False
    then have "b = a" using Cons.prems by simp
    have "fold (index_memo v) ks (index_memo v a mm) k = index_memo v a mm k"
      by (rule rebuild_memos_other) (use False u in blast)
    moreover have "index_memo v a mm k = Some a" using assms(1,2) by (simp add: index_memo_def)
    ultimately show ?thesis using \<open>b = a\<close> by simp
  qed
qed simp

lemma rebuild_memos_exact:
  assumes "index_exact v mm" and "set ks = dom v"
  shows "rebuild_memos v ks = mm"
proof
  fix k
  show "rebuild_memos v ks k = mm k"
  proof (cases "mm k")
    case None
    then have "\<And>iid i. v iid = Some i \<Longrightarrow> memoKey (PayTo i) (Memo i) \<noteq> k"
      using assms(1) unfolding index_exact_def by (metis option.distinct(1))
    then show ?thesis using None by (simp add: rebuild_memos_def rebuild_memos_other)
  next
    case (Some a)
    then obtain i where i: "v a = Some i" "memoKey (PayTo i) (Memo i) = k"
      using assms(1) unfolding index_exact_def by blast
    have u: "b = a" if "v b = Some j" "memoKey (PayTo j) (Memo j) = k" for b j
    proof -
      have "mm k = Some b" using assms(1) that unfolding index_exact_def by blast
      then show ?thesis using Some by simp
    qed
    have "a \<in> set ks" using assms(2) i(1) by blast
    have "fold (index_memo v) ks Map.empty k = Some a"
      by (rule rebuild_memos_hit [where v = v and a = a and i = i and k = k])
        (fact i(1), fact i(2), fact, erule (1) u)
    then show ?thesis using Some by (simp add: rebuild_memos_def)
  qed
qed

lemma reload:
  assumes "mem_inv m" and "durable m" and "dir m \<noteq> []" and "set order = dom (invoices m)"
  shows "NewMemory (dir m) (store_file m) t order = Inr (m\<lparr>tmp_file := t\<rparr>)"
proof -
  have ie: "index_exact (invoices m) (memos m)" using assms(1) by (simp add: mem_inv_def)
  consider "store_file m = Snapshot (Some (invoices m))" | "store_file m = NoFile" "invoices m = Map.empty"
    using assms(2,3) by (auto simp: durable_def)
  then show ?thesis
  proof cases
    case 1
    then show ?thesis
      using rebuild_memos_exact [OF ie assms(4)] assms(3) by (cases m) (simp add: NewMemory_def load_def Let_def)
  next
    case 2
    moreover from this have "memos m = Map.empty"
      using rebuild_memos_exact [OF ie, of "[]"] by (simp add: rebuild_memos_def)
    ultimately show ?thesis using assms(3) by (cases m) (simp add: NewMemory_def load_def)
  qed
qed

lemma mem_reach_inv:
  assumes "mem_reach d m"
  shows "mem_inv m \<and> durable m \<and> dir m = d"
  using assms
proof induction
  case (fresh t order m)
  then show ?case
    by (cases "d = []") (auto simp: NewMemory_def load_def mem_inv_def durable_def)
next
  case (create m i w r m')
  moreover from this have "dir m' = dir m"
    by (auto elim: mem_create_cases)
  ultimately show ?case using mem_create_inv mem_create_durable by blast
next
  case (claim m w iid tx at c m')
  then show ?case
    using replace_pending_inv [of m "disk_io w" iid "\<lambda>i. settled i tx at"]
      replace_pending_durable [of m "disk_io w" iid "\<lambda>i. settled i tx at"]
    by (cases c) (auto simp: mem_claim_replace same_key_def elim: replace_pending_cases)
next
  case (expire m w iid c m')
  then show ?case
    using replace_pending_inv [of m "disk_io w" iid expired]
      replace_pending_durable [of m "disk_io w" iid expired]
    by (cases c) (auto simp: mem_expire_replace same_key_def elim: replace_pending_cases)
next
  case (restart m order t m')
  show ?case
  proof (cases "d = []")
    case True
    then show ?thesis using restart by (auto simp: NewMemory_def mem_inv_def durable_def)
  next
    case False
    then have "m' = m\<lparr>tmp_file := t\<rparr>" using restart reload [of m order t] by simp
    then show ?thesis using restart by (simp add: mem_inv_def durable_def)
  qed
qed

text \<open>
  Whatever calls were made, with whatever I/O failures and earlier restarts, a process
  that stops and is started again on the files it left behind finds exactly the invoices the
  stopped one held, and the memo index it rebuilds from them is the one that was lost,
  whichever order Go ranges over the map in and whatever temporary file a failed write left.
\<close>

theorem restart_restores_everything:
  assumes "mem_reach d m" and "d \<noteq> []" and "set order = dom (invoices m)"
  shows "NewMemory d (store_file m) t order = Inr (m\<lparr>tmp_file := t\<rparr>) \<and> unique_keys (invoices m)
    \<and> (\<forall>iid. mem_get w (m\<lparr>tmp_file := t\<rparr>) iid = mem_get w m iid)"
  using mem_reach_inv [OF assms(1)] reload assms(2,3)
  by (auto simp: mem_get_def mem_inv_def dest: index_exact_unique_keys)


text \<open>The witnesses share one small history: a fresh store, one invoice, one failed claim.\<close>

definition sample_invoice :: invoice where
  "sample_invoice = zero_invoice\<lparr>ID := ''inv_1'', PayTo := ''EQ1'', Memo := ''TON-1'', AmountNano := 5,
     Status := StatusPending, ExpiresAt := 100\<rparr>"

definition sample_memory :: memory where
  "sample_memory = \<lparr>dir = ''d'', invoices = [''inv_1'' \<mapsto> sample_invoice],
     memos = [memoKey ''EQ1'' ''TON-1'' \<mapsto> ''inv_1''],
     store_file = Snapshot (Some [''inv_1'' \<mapsto> sample_invoice]), tmp_file = NoFile\<rparr>"

definition world :: "io \<Rightarrow> string list \<Rightarrow> mem_world" where
  "world r ks = \<lparr>disk_io = r, range_order = ks\<rparr>"

lemma sample_reach: "mem_reach ''d'' sample_memory"
proof -
  let ?m0 = "\<lparr>dir = ''d'', invoices = Map.empty, memos = Map.empty, store_file = NoFile, tmp_file = NoFile\<rparr>"
  have r0: "mem_reach ''d'' ?m0"
    by (rule mem_reach.fresh [of _ NoFile "[]"]) (simp add: NewMemory_def load_def)
  have c: "mem_create (world IoOk []) ?m0 sample_invoice = (None, sample_memory)"
    by (simp add: mem_create_def persist_def world_def sample_memory_def sample_invoice_def)
  show ?thesis
    by (rule mem_reach.create [OF r0 _ _ c])
      (simp_all add: sample_invoice_def nul_free_def)
qed

lemma sample_mem_inv: "mem_inv sample_memory \<and> durable sample_memory"
  using mem_reach_inv [OF sample_reach] by blast

definition torn_memory :: memory where
  "torn_memory = sample_memory\<lparr>tmp_file := Corrupt\<rparr>"

lemma torn_reach: "mem_reach ''d'' torn_memory"
proof (rule mem_reach.claim [OF sample_reach])
  show "mem_claim (world WriteFail []) sample_memory ''inv_1'' ''tx'' 7
      = ((False, Some (StoreFailure ''write'')), torn_memory)"
    by (simp add: mem_claim_def persist_def world_def sample_memory_def torn_memory_def
        sample_invoice_def zero_invoice_def)
qed

theorem restart_restores_everything_witness:
  "NewMemory ''d'' (store_file torn_memory) Corrupt [''inv_1''] = Inr torn_memory \<and> tmp_file torn_memory = Corrupt"
  using restart_restores_everything [OF torn_reach, of "[''inv_1'']" Corrupt]
  by (simp add: torn_memory_def sample_memory_def)

text \<open>
  C35: The mutations are atomic with respect to memory and disk together.  Whatever the file
  system answers, a claim that succeeds has its invoice paid both in memory and in the snapshot
  file; one that fails leaves both exactly as they were; and it loses without touching
  anything when the invoice is not pending.  No outcome leaves the snapshot torn.
\<close>

theorem claim_is_atomic:
  assumes "mem_reach d m" and "d \<noteq> []" and "mem_claim w m iid tx t = ((won, e), m')"
  shows "if won
    then \<exists>i. invoices m iid = Some i \<and> pending i \<and> e = None
      \<and> invoices m' = (invoices m)(iid \<mapsto> settled i tx t)
      \<and> store_file m' = Snapshot (Some ((invoices m)(iid \<mapsto> settled i tx t)))
    else invoices m' = invoices m \<and> store_file m' = store_file m
      \<and> (e = None) = (\<not> is_pending (invoices m) iid)"
  using assms(3) [unfolded mem_claim_replace] mem_reach_inv [OF assms(1)] assms(2)
  by (cases rule: replace_pending_cases) auto

theorem claim_is_atomic_witness:
  "mem_claim (world RenameFail []) sample_memory ''inv_1'' ''tx'' 7
     = ((False, Some (StoreFailure ''rename'')), sample_memory\<lparr>tmp_file := Snapshot (Some
          [''inv_1'' \<mapsto> settled sample_invoice ''tx'' 7])\<rparr>)
   \<and> store_file sample_memory = Snapshot (Some [''inv_1'' \<mapsto> sample_invoice])"
proof -
  have c: "mem_claim (world RenameFail []) sample_memory ''inv_1'' ''tx'' 7
     = ((False, Some (StoreFailure ''rename'')), sample_memory\<lparr>tmp_file := Snapshot (Some
          [''inv_1'' \<mapsto> settled sample_invoice ''tx'' 7])\<rparr>)"
    by (simp add: mem_claim_def persist_def world_def sample_memory_def settled_def
        sample_invoice_def zero_invoice_def)
  show ?thesis
    using claim_is_atomic [OF sample_reach _ c] c by (simp add: sample_memory_def)
qed

text \<open>
  The store never looks whether an id is in use.  Creating a second invoice under the id of
  a first one with another memo succeeds, the first one is gone, and its memo stays reserved
  although no invoice carries it any more: the index is not that of the ledger.
\<close>

lemma duplicate_id_overwrites:
  assumes "mem_inv m" and "invoices m (ID j) = Some i" and "nul_free (PayTo j)"
    and "\<not> key_taken (invoices m) j" and "disk_io w = IoOk" and "mem_create w m j = (r, m')"
  shows "r = None \<and> invoices m' = (invoices m)(ID j \<mapsto> j)
    \<and> memos m' (memoKey (PayTo i) (Memo i)) = Some (ID j) \<and> \<not> index_exact (invoices m') (memos m')"
proof -
  have wk: "well_keyed (invoices m)" and ie: "index_exact (invoices m) (memos m)"
    using assms(1) by (simp_all add: mem_inv_def)
  let ?ki = "memoKey (PayTo i) (Memo i)" and ?kj = "memoKey (PayTo j) (Memo j)"
  have kj: "memos m ?kj = None" using index_taken [OF ie wk assms(3)] assms(4) by blast
  have ki: "memos m ?ki = Some (ID j)" using ie assms(2) unfolding index_exact_def by blast
  obtain r1 m1 where p: "persist (disk_io w) (m\<lparr>invoices := (invoices m)(ID j \<mapsto> j),
      memos := (memos m)(?kj \<mapsto> ID j)\<rparr>) = (r1, m1)" by (metis surj_pair)
  have "r1 = None" using p assms(5) persist_ok by simp
  then have c: "r = None" "invoices m' = (invoices m)(ID j \<mapsto> j)" "memos m' = (memos m)(?kj \<mapsto> ID j)"
    using assms(6) kj p persist_cases [OF p] by (auto simp: mem_create_def)
  have ne: "?kj \<noteq> ?ki" using kj ki by auto
  then have "memos m' ?ki = Some (ID j)" using c ki by simp
  moreover have "\<not> index_exact (invoices m') (memos m')"
    using calculation ne c(2) unfolding index_exact_def by (metis fun_upd_same option.inject)
  ultimately show ?thesis using c by blast
qed

lemma duplicate_id_overwrites_witness:
  "let j = sample_invoice\<lparr>Memo := ''TON-2''\<rparr>; m' = snd (mem_create (world IoOk []) sample_memory j) in
     fst (mem_create (world IoOk []) sample_memory j) = None
     \<and> invoices m' = [''inv_1'' \<mapsto> j] \<and> \<not> index_exact (invoices m') (memos m')"
proof -
  let ?j = "sample_invoice\<lparr>Memo := ''TON-2''\<rparr>"
  obtain r m' where c: "mem_create (world IoOk []) sample_memory ?j = (r, m')" by (metis surj_pair)
  have nk: "\<not> key_taken (invoices sample_memory) ?j"
    by (auto simp: key_taken_def same_key_def sample_memory_def sample_invoice_def)
  have i: "invoices sample_memory (ID ?j) = Some sample_invoice" "nul_free (PayTo ?j)" "ID ?j = ''inv_1''"
    by (simp_all add: sample_memory_def sample_invoice_def nul_free_def)
  have u: "(invoices sample_memory)(''inv_1'' \<mapsto> ?j) = [''inv_1'' \<mapsto> ?j]"
    by (simp add: sample_memory_def)
  have w: "disk_io (world IoOk []) = IoOk" by (simp add: world_def)
  have d: "r = None \<and> invoices m' = [''inv_1'' \<mapsto> ?j] \<and> \<not> index_exact (invoices m') (memos m')"
    using duplicate_id_overwrites [OF conjunct1 [OF sample_mem_inv] i(1,2) nk w c, unfolded i(3) u]
    by blast
  show ?thesis unfolding Let_def c fst_conv snd_conv by (rule d)
qed

end
