(* ===== verification/Postgres.thy ===== *)
theory Postgres
  imports Store
begin

text \<open>
  internal/store/postgres.go: the durable store.  The state is the table of the embedded
  schema, the operations are the SQL statements the code sends, each of which the database runs
  atomically.  The world of a call says what becomes of the connection and in which order a
  scan yields the rows.  Times are kept with the microsecond resolution of \<open>timestamptz\<close>, and a
  text with a NUL byte is refused, as PostgreSQL does.
\<close>

section \<open>Rows\<close>

record row =
  col_id :: string
  pay_to :: string
  memo :: string
  amount_nano :: int64
  currency :: string
  status :: string
  tx_hash :: string
  metadata :: "(string \<times> string) list"
  created_at :: gtime
  paid_at :: "gtime option"
  expires_at :: "gtime option"

definition nt :: "gtime \<Rightarrow> gtime option" where
  "nt t = (if IsZero t then None else Some t)"

text \<open>What \<open>timestamptz\<close> keeps of a time.\<close>

definition micro :: "gtime \<Rightarrow> gtime" where
  "micro t = t - t mod 1000"

definition row_of :: "invoice \<Rightarrow> row" where
  "row_of i = \<lparr>col_id = ID i, pay_to = PayTo i, memo = Memo i, amount_nano = AmountNano i,
     currency = Currency i, status = Status i, tx_hash = TxHash i, metadata = Metadata i,
     created_at = micro (CreatedAt i), paid_at = map_option micro (nt (PaidAt i)),
     expires_at = map_option micro (nt (ExpiresAt i))\<rparr>"

definition scanInvoice :: "row \<Rightarrow> invoice" where
  "scanInvoice r = (let i = zero_invoice\<lparr>ID := col_id r, PayTo := pay_to r, Memo := memo r,
       AmountNano := amount_nano r, Currency := currency r, Status := status r,
       TxHash := tx_hash r, CreatedAt := created_at r, Metadata := metadata r\<rparr>;
     i1 = (case paid_at r of None \<Rightarrow> i | Some t \<Rightarrow> i\<lparr>PaidAt := t\<rparr>) in
     case expires_at r of None \<Rightarrow> i1 | Some t \<Rightarrow> i1\<lparr>ExpiresAt := t\<rparr>)"

section \<open>Statements\<close>

datatype sql_error = SqlState string | ConnError

text \<open>
  The connection may drop before a statement took effect or after, when only its answer is
  lost; a result set may break off after some rows.
\<close>

datatype pg_fault = PgOk | PgLost | PgUnknown | PgCut nat

record pg_world =
  fault :: pg_fault
  scan_order :: "row list"

definition exec ::
  "pg_fault \<Rightarrow> (row list \<Rightarrow> (sql_error + 'a) \<times> row list) \<Rightarrow> row list \<Rightarrow> (sql_error + 'a) \<times> row list" where
  "exec f stmt rows = (case f of
     PgOk \<Rightarrow> stmt rows
   | PgLost \<Rightarrow> (Inl ConnError, rows)
   | PgUnknown \<Rightarrow> (Inl ConnError, snd (stmt rows))
   | PgCut n \<Rightarrow> (Inl ConnError, snd (stmt rows)))"

definition texts_ok :: "invoice \<Rightarrow> bool" where
  "texts_ok i \<longleftrightarrow> nul_free (ID i) \<and> nul_free (PayTo i) \<and> nul_free (Memo i) \<and> nul_free (Currency i)
     \<and> nul_free (Status i) \<and> nul_free (TxHash i) \<and> (\<forall>(k, v) \<in> set (Metadata i). nul_free k \<and> nul_free v)"

text \<open>\<open>INSERT INTO invoices\<close> under the primary key and the unique index on (pay_to, memo).\<close>

definition sql_insert :: "invoice \<Rightarrow> row list \<Rightarrow> (sql_error + unit) \<times> row list" where
  "sql_insert i rows = (let r = row_of i in
     if \<not> texts_ok i then (Inl (SqlState ''22021''), rows)
     else if \<exists>q \<in> set rows. col_id q = col_id r \<or> (pay_to q = pay_to r \<and> memo q = memo r)
     then (Inl (SqlState ''23505''), rows)
     else (Inr (), rows @ [r]))"

text \<open>\<open>UPDATE invoices SET ... WHERE id=$1 AND status='pending'\<close> with the number of rows affected.\<close>

definition sql_update :: "string list \<Rightarrow> string \<Rightarrow> (row \<Rightarrow> row) \<Rightarrow> row list \<Rightarrow> (sql_error + nat) \<times> row list" where
  "sql_update params iid f rows =
     (if \<exists>p \<in> set params. \<not> nul_free p then (Inl (SqlState ''22021''), rows)
      else let hit = (\<lambda>r. col_id r = iid \<and> status r = ''pending'') in
        (Inr (length (filter hit rows)), map (\<lambda>r. if hit r then f r else r) rows))"

definition sql_query :: "pg_fault \<Rightarrow> row list \<Rightarrow> row list option" where
  "sql_query f result = (case f of
     PgOk \<Rightarrow> Some result | PgCut n \<Rightarrow> Some (take n result) | PgLost \<Rightarrow> None | PgUnknown \<Rightarrow> None)"

section \<open>Operations\<close>

definition pg_create :: "pg_world \<Rightarrow> row list \<Rightarrow> invoice \<Rightarrow> store_error option \<times> row list" where
  "pg_create w rows i = (case exec (fault w) (sql_insert i) rows of
     (Inl (SqlState c), rows') \<Rightarrow>
       (if c = ''23505'' then (Some ErrMemoExists, rows') else (Some (StoreFailure c), rows'))
   | (Inl ConnError, rows') \<Rightarrow> (Some (StoreFailure ''conn''), rows')
   | (Inr _, rows') \<Rightarrow> (None, rows'))"

definition pg_get :: "pg_world \<Rightarrow> row list \<Rightarrow> string \<Rightarrow> invoice option" where
  "pg_get w rows iid = (if \<not> nul_free iid then None else
     case fault w of
       PgOk \<Rightarrow> map_option scanInvoice (find (\<lambda>r. col_id r = iid) rows)
     | _ \<Rightarrow> None)"

text \<open>The row loop; a broken result set just ends it, \<open>rows.Err\<close> is not consulted.\<close>

definition scan_rows :: "row list option \<Rightarrow> invoice list" where
  "scan_rows rs = (case rs of None \<Rightarrow> [] | Some rows \<Rightarrow> map scanInvoice rows)"

definition pg_list :: "pg_world \<Rightarrow> row list \<Rightarrow> invoice list" where
  "pg_list w rows = scan_rows (sql_query (fault w) (sort_key (\<lambda>r. - created_at r) (scan_order w)))"

definition pg_list_pending :: "pg_world \<Rightarrow> row list \<Rightarrow> invoice list" where
  "pg_list_pending w rows = scan_rows (sql_query (fault w)
     (sort_key created_at (filter (\<lambda>r. status r = ''pending'') (scan_order w))))"

definition pg_counts :: "pg_world \<Rightarrow> row list \<Rightarrow> string \<Rightarrow> (nat \<times> nat) \<times> store_error option" where
  "pg_counts w rows payTo = (if \<not> nul_free payTo then ((0, 0), Some (StoreFailure ''22021''))
     else case fault w of
       PgOk \<Rightarrow> (let ps = filter (\<lambda>r. status r = ''pending'') rows in
         ((length ps, length (filter (\<lambda>r. pay_to r = payTo) ps)), None))
     | _ \<Rightarrow> ((0, 0), Some (StoreFailure ''conn'')))"

definition sql_failure :: "sql_error \<Rightarrow> store_error" where
  "sql_failure e = (case e of SqlState c \<Rightarrow> StoreFailure c | ConnError \<Rightarrow> StoreFailure ''conn'')"

definition affected_one :: "(sql_error + nat) \<times> row list \<Rightarrow> (bool \<times> store_error option) \<times> row list" where
  "affected_one r = (case r of
     (Inl e, rows) \<Rightarrow> ((False, Some (sql_failure e)), rows)
   | (Inr n, rows) \<Rightarrow> ((n = 1, None), rows))"

definition pg_claim ::
  "pg_world \<Rightarrow> row list \<Rightarrow> string \<Rightarrow> string \<Rightarrow> gtime \<Rightarrow> (bool \<times> store_error option) \<times> row list" where
  "pg_claim w rows iid txHash paidAt = affected_one (exec (fault w) (sql_update [iid, txHash] iid
     (\<lambda>r. r\<lparr>status := ''paid'', tx_hash := txHash, paid_at := map_option micro (nt paidAt)\<rparr>)) rows)"

definition pg_expire :: "pg_world \<Rightarrow> row list \<Rightarrow> string \<Rightarrow> (bool \<times> store_error option) \<times> row list" where
  "pg_expire w rows iid = affected_one (exec (fault w) (sql_update [iid] iid
     (\<lambda>r. r\<lparr>status := ''expired''\<rparr>)) rows)"

definition postgres_store :: "(row list, pg_world) Store" where
  "postgres_store = \<lparr>CreateInvoice = pg_create, GetInvoice = pg_get, ListInvoices = pg_list,
     ListPending = pg_list_pending, ClaimInvoiceForSettlement = pg_claim,
     ExpireInvoice = pg_expire, PendingCounts = pg_counts\<rparr>"

lemma postgres_store_simps [simp]:
  "CreateInvoice postgres_store = pg_create" "GetInvoice postgres_store = pg_get"
  "ListInvoices postgres_store = pg_list" "ListPending postgres_store = pg_list_pending"
  "ClaimInvoiceForSettlement postgres_store = pg_claim" "ExpireInvoice postgres_store = pg_expire"
  "PendingCounts postgres_store = pg_counts"
  by (simp_all add: postgres_store_def)

section \<open>Invariant and content\<close>

definition pg_inv :: "row list \<Rightarrow> bool" where
  "pg_inv rows \<longleftrightarrow> distinct (map col_id rows) \<and> distinct (map (\<lambda>r. (pay_to r, memo r)) rows)
     \<and> (\<forall>r \<in> set rows. nul_free (col_id r) \<and> nul_free (pay_to r))"

definition table :: "row list \<Rightarrow> ledger" where
  "table rows = map_of (map (\<lambda>r. (col_id r, scanInvoice r)) rows)"

definition micro_invoice :: "invoice \<Rightarrow> invoice" where
  "micro_invoice i = i\<lparr>CreatedAt := micro (CreatedAt i), PaidAt := micro (PaidAt i),
     ExpiresAt := micro (ExpiresAt i)\<rparr>"

definition pg_sane :: "pg_world \<Rightarrow> row list \<Rightarrow> bool" where
  "pg_sane w rows \<longleftrightarrow> mset (scan_order w) = mset rows"

definition pg_healthy :: "pg_world \<Rightarrow> row list \<Rightarrow> bool" where
  "pg_healthy w rows \<longleftrightarrow> pg_sane w rows \<and> fault w = PgOk"


section \<open>Rows and invoices\<close>

lemma micro_0 [simp]: "micro 0 = 0"
  by (simp add: micro_def)

lemma micro_micro [simp]: "micro (micro t) = micro t"
  by (simp add: micro_def mod_diff_eq)

lemma micro_mono: "s \<le> t \<Longrightarrow> micro s \<le> micro t"
  unfolding micro_def by (metis minus_mod_eq_div_mult mult_right_mono zdiv_mono1 zero_le_numeral zero_less_numeral)

lemma scan_simps [simp]:
  "ID (scanInvoice r) = col_id r" "PayTo (scanInvoice r) = pay_to r" "Memo (scanInvoice r) = memo r"
  "AmountNano (scanInvoice r) = amount_nano r" "Status (scanInvoice r) = status r"
  "CreatedAt (scanInvoice r) = created_at r"
  by (auto simp: scanInvoice_def Let_def split: option.splits)

lemma scan_row_of: "scanInvoice (row_of i) = micro_invoice i"
  by (cases i) (simp add: scanInvoice_def row_of_def micro_invoice_def nt_def IsZero_def zero_invoice_def Let_def)

lemma row_of_simps [simp]:
  "col_id (row_of i) = ID i" "pay_to (row_of i) = PayTo i" "memo (row_of i) = Memo i"
  "status (row_of i) = Status i"
  by (simp_all add: row_of_def)

lemma scan_settled:
  "scanInvoice (r\<lparr>status := ''paid'', tx_hash := tx, paid_at := map_option micro (nt t)\<rparr>)
    = settled (scanInvoice r) tx (micro t)"
  by (cases r) (auto simp: scanInvoice_def settled_def nt_def IsZero_def zero_invoice_def
      StatusPaid_def Let_def split: option.splits)

lemma scan_expired: "scanInvoice (r\<lparr>status := ''expired''\<rparr>) = expired (scanInvoice r)"
  by (cases r) (auto simp: scanInvoice_def expired_def zero_invoice_def StatusExpired_def Let_def
      split: option.splits)

lemma table_find: "table rows k = map_option scanInvoice (find (\<lambda>r. col_id r = k) rows)"
  by (induction rows) (auto simp: table_def)

lemma table_Some:
  assumes "distinct (map col_id rows)"
  shows "table rows k = Some i \<longleftrightarrow> (\<exists>r \<in> set rows. col_id r = k \<and> scanInvoice r = i)"
proof -
  have "distinct (map fst (map (\<lambda>r. (col_id r, scanInvoice r)) rows))"
    using assms by (simp add: comp_def)
  from map_of_eq_Some_iff [OF this] show ?thesis by (auto simp: table_def)
qed

lemma find_map_col:
  "(\<And>r. col_id (g r) = col_id r) \<Longrightarrow>
   find (\<lambda>r. col_id r = k) (map g rows) = map_option g (find (\<lambda>r. col_id r = k) rows)"
  by (induction rows) auto

definition pg_pending :: "row \<Rightarrow> bool" where
  "pg_pending r \<longleftrightarrow> status r = ''pending''"

lemma pg_pending_scan: "pending (scanInvoice r) \<longleftrightarrow> pg_pending r"
  by (simp add: pg_pending_def StatusPending_def)

text \<open>An update of one pending row, as a change of the ledger.\<close>

definition touch :: "string \<Rightarrow> (row \<Rightarrow> row) \<Rightarrow> row \<Rightarrow> row" where
  "touch iid f r = (if col_id r = iid \<and> status r = ''pending'' then f r else r)"

lemma table_touch:
  assumes "\<And>r. col_id (f r) = col_id r"
  shows "table (map (touch iid f) rows) =
    (case find (\<lambda>r. col_id r = iid) rows of
       None \<Rightarrow> table rows
     | Some r \<Rightarrow> if pg_pending r then (table rows)(iid \<mapsto> scanInvoice (f r)) else table rows)"
proof
  fix k
  have c: "table (map (touch iid f) rows) k
      = map_option (\<lambda>r. scanInvoice (touch iid f r)) (find (\<lambda>r. col_id r = k) rows)"
    using assms by (simp add: table_find find_map_col touch_def option.map_comp comp_def)
  show "table (map (touch iid f) rows) k = (case find (\<lambda>r. col_id r = iid) rows of
       None \<Rightarrow> table rows
     | Some r \<Rightarrow> if pg_pending r then (table rows)(iid \<mapsto> scanInvoice (f r)) else table rows) k"
  proof (cases "find (\<lambda>r. col_id r = k) rows")
    case None
    then show ?thesis unfolding c by (auto simp: table_find split: option.splits)
  next
    case (Some r)
    then have "col_id r = k" by (auto simp: find_Some_iff)
    then show ?thesis
      unfolding c using Some
      by (cases "k = iid"; cases "find (\<lambda>r. col_id r = iid) rows")
        (simp_all add: table_find touch_def pg_pending_def)
  qed
qed

lemma filter_one_id:
  "distinct (map col_id rows) \<Longrightarrow>
   length (filter (\<lambda>r. col_id r = iid \<and> status r = ''pending'') rows) =
   (case find (\<lambda>r. col_id r = iid) rows of None \<Rightarrow> 0 | Some r \<Rightarrow> if pg_pending r then 1 else 0)"
proof (induction rows)
  case (Cons r rows)
  have "filter (\<lambda>q. col_id q = iid \<and> status q = ''pending'') rows = []" if "col_id r = iid"
    using Cons.prems that by (auto simp: filter_empty_conv image_iff)
  with Cons show ?case by (auto simp: pg_pending_def split: option.splits)
qed simp

lemma pg_inv_touch:
  assumes "pg_inv rows" and "\<And>r. col_id (f r) = col_id r \<and> pay_to (f r) = pay_to r \<and> memo (f r) = memo r"
  shows "pg_inv (map (touch iid f) rows)"
proof -
  have "col_id \<circ> touch iid f = col_id" "(\<lambda>r. (pay_to r, memo r)) \<circ> touch iid f = (\<lambda>r. (pay_to r, memo r))"
    using assms(2) by (auto simp: touch_def fun_eq_iff)
  then have "map col_id (map (touch iid f) rows) = map col_id rows"
    "map (\<lambda>r. (pay_to r, memo r)) (map (touch iid f) rows) = map (\<lambda>r. (pay_to r, memo r)) rows"
    by (simp_all only: map_map)
  moreover have "\<forall>r \<in> set (map (touch iid f) rows). nul_free (col_id r) \<and> nul_free (pay_to r)"
    using assms by (auto simp: pg_inv_def touch_def)
  ultimately show ?thesis using assms(1) by (simp only: pg_inv_def)
qed


section \<open>The Postgres store meets the contract\<close>

lemma exec_cases:
  assumes "exec f stmt rows = (r, rows')"
  obtains (ok) "f = PgOk" "stmt rows = (r, rows')"
  | (lost) "f \<noteq> PgOk" "r = Inl ConnError" "rows' = rows"
  | (unknown) "f \<noteq> PgOk" "r = Inl ConnError" "rows' = snd (stmt rows)"
  using assms by (cases f) (auto simp: exec_def)

lemma sql_insert_law:
  assumes "pg_inv rows" and "table rows (ID i) = None" and "sql_insert i rows = (r, rows')"
  shows "pg_inv rows'
    \<and> (if \<not> texts_ok i then r = Inl (SqlState ''22021'') \<and> rows' = rows
       else if key_taken (table rows) i then r = Inl (SqlState ''23505'') \<and> rows' = rows
       else r = Inr () \<and> table rows' = (table rows)(ID i \<mapsto> micro_invoice i))"
proof -
  have d: "distinct (map col_id rows)" using assms(1) by (simp add: pg_inv_def)
  have fresh: "ID i \<notin> col_id ` set rows"
    using assms(2) table_Some [OF d, of "ID i"] by (metis imageE option.distinct(1))
  have taken: "key_taken (table rows) i \<longleftrightarrow> (\<exists>q \<in> set rows. pay_to q = PayTo i \<and> memo q = Memo i)"
    unfolding key_taken_def same_key_def table_Some [OF d] by (metis scan_simps(2,3))
  have clash: "(\<exists>q \<in> set rows. col_id q = col_id (row_of i) \<or> pay_to q = pay_to (row_of i) \<and> memo q = memo (row_of i))
      \<longleftrightarrow> key_taken (table rows) i"
    using fresh by (auto simp: taken image_iff)
  have new: "table (rows @ [row_of i]) = (table rows)(ID i \<mapsto> micro_invoice i)"
    using assms(2) by (auto simp: table_def scan_row_of fun_eq_iff map_add_def split: option.splits)
  have inv': "pg_inv (rows @ [row_of i])" if "texts_ok i" "\<not> key_taken (table rows) i"
    using assms(1) fresh that by (auto simp: pg_inv_def taken texts_ok_def)
  show ?thesis
    using assms(1,3) clash new inv' by (auto simp: sql_insert_def Let_def split: if_splits)
qed

lemma pg_create_law:
  assumes "pg_inv rows" and "table rows (ID i) = None" and "pg_create w rows i = (r, rows')"
  shows "pg_inv rows'
    \<and> (table rows' = table rows \<or> \<not> key_taken (table rows) i \<and> table rows' = (table rows)(ID i \<mapsto> micro_invoice i))
    \<and> (r = None \<longrightarrow> table rows' = (table rows)(ID i \<mapsto> micro_invoice i))
    \<and> (r = Some ErrMemoExists \<longrightarrow> key_taken (table rows) i)"
proof -
  obtain r1 rows1 where e: "exec (fault w) (sql_insert i) rows = (r1, rows1)" by (metis surj_pair)
  obtain r2 rows2 where s: "sql_insert i rows = (r2, rows2)" by (metis surj_pair)
  note law = sql_insert_law [OF assms(1,2) s]
  have res: "rows' = rows1 \<and> r = (case r1 of Inl (SqlState c) \<Rightarrow>
      if c = ''23505'' then Some ErrMemoExists else Some (StoreFailure c)
      | Inl ConnError \<Rightarrow> Some (StoreFailure ''conn'') | Inr _ \<Rightarrow> None)"
    using assms(3) e by (auto simp: pg_create_def split: sum.splits sql_error.splits if_splits)
  show ?thesis
    using e
  proof (cases rule: exec_cases)
    case ok
    then have "r1 = r2" "rows1 = rows2" using s by auto
    then show ?thesis using law res by (auto split: if_splits)
  next
    case lost
    then show ?thesis using res assms(1) by simp
  next
    case unknown
    then show ?thesis using res law s by (auto split: if_splits)
  qed
qed

lemma pg_create_healthy:
  assumes "pg_inv rows" and "table rows (ID i) = None" and "texts_ok i" and "fault w = PgOk"
  shows "fst (pg_create w rows i) = (if key_taken (table rows) i then Some ErrMemoExists else None)"
proof -
  obtain r rows' where s: "sql_insert i rows = (r, rows')" by (metis surj_pair)
  show ?thesis
    using sql_insert_law [OF assms(1,2) s] s assms(3,4) by (auto simp: pg_create_def exec_def)
qed

lemma sql_update_law:
  assumes "pg_inv rows" and f: "\<And>r. col_id (f r) = col_id r \<and> pay_to (f r) = pay_to r \<and> memo (f r) = memo r"
    and g: "\<And>r. scanInvoice (f r) = g (scanInvoice r)"
    and "sql_update ps iid f rows = (r, rows')"
  shows "pg_inv rows'
    \<and> (if \<exists>p \<in> set ps. \<not> nul_free p then r = Inl (SqlState ''22021'') \<and> rows' = rows
       else case table rows iid of
           None \<Rightarrow> r = Inr 0 \<and> table rows' = table rows
         | Some i \<Rightarrow> if pending i then r = Inr 1 \<and> table rows' = (table rows)(iid \<mapsto> g i)
                    else r = Inr 0 \<and> table rows' = table rows)"
proof (cases "\<exists>p \<in> set ps. \<not> nul_free p")
  case True
  then show ?thesis using assms(1,4) by (auto simp: sql_update_def)
next
  case False
  have touch: "(\<lambda>r. if col_id r = iid \<and> status r = ''pending'' then f r else r) = touch iid f"
    by (simp add: touch_def fun_eq_iff)
  have d: "distinct (map col_id rows)" using assms(1) by (simp add: pg_inv_def)
  have "rows' = map (touch iid f) rows"
    "r = Inr (length (filter (\<lambda>r. col_id r = iid \<and> status r = ''pending'') rows))"
    using assms(4) False by (auto simp: sql_update_def Let_def touch)
  then show ?thesis
    using pg_inv_touch [OF assms(1) f] False g f
    by (auto simp: table_touch filter_one_id [OF d] table_find [of rows iid] pg_pending_def
        StatusPending_def split: option.splits)
qed

text \<open>Both updates come back through \<open>affected_one\<close>.\<close>

lemma affected_one_law:
  assumes "pg_inv rows" and f: "\<And>r. col_id (f r) = col_id r \<and> pay_to (f r) = pay_to r \<and> memo (f r) = memo r"
    and g: "\<And>r. scanInvoice (f r) = g (scanInvoice r)" "\<And>i. \<not> pending (g i)"
    and "affected_one (exec flt (sql_update ps iid f) rows) = ((won, e), rows')"
  shows "pg_inv rows'
    \<and> (table rows' = table rows \<or>
       (\<exists>i. table rows iid = Some i \<and> pending i \<and> table rows' = (table rows)(iid \<mapsto> g i)))
    \<and> (won \<longrightarrow> e = None \<and> is_pending (table rows) iid \<and> \<not> is_pending (table rows') iid)
    \<and> (\<not> won \<and> e = None \<longrightarrow> table rows' = table rows \<and> \<not> is_pending (table rows) iid)
    \<and> (flt = PgOk \<and> (\<forall>p \<in> set ps. nul_free p) \<longrightarrow> e = None \<and> (is_pending (table rows) iid \<longrightarrow> won))"
proof -
  obtain r1 rows1 where e: "exec flt (sql_update ps iid f) rows = (r1, rows1)" by (metis surj_pair)
  obtain r2 rows2 where s: "sql_update ps iid f rows = (r2, rows2)" by (metis surj_pair)
  note law = sql_update_law [OF assms(1) f g(1) s]
  have res: "rows' = rows1 \<and> (case r1 of Inl x \<Rightarrow> \<not> won \<and> e \<noteq> None | Inr n \<Rightarrow> won = (n = 1) \<and> e = None)"
    using assms(5) e by (auto simp: affected_one_def split: sum.splits)
  show ?thesis
    using e
  proof (cases rule: exec_cases)
    case ok
    then have "r1 = r2" "rows1 = rows2" using s by auto
    then show ?thesis using law res g(2) by (auto simp: is_pending_def split: if_splits option.splits)
  next
    case lost
    then show ?thesis using res assms(1) by auto
  next
    case unknown
    then show ?thesis using res law s by (auto split: if_splits option.splits)
  qed
qed


lemma scan_order_rows:
  assumes "pg_inv rows" and "pg_sane w rows"
  shows "set (scan_order w) = set rows \<and> distinct (map col_id (scan_order w))"
proof -
  have "mset (map col_id (scan_order w)) = mset (map col_id rows)"
    using assms(2) by (simp add: pg_sane_def)
  then have "distinct (map col_id (scan_order w)) = distinct (map col_id rows)"
    by (rule mset_eq_imp_distinct_iff)
  moreover have "set (scan_order w) = set rows"
    using assms(2) by (metis pg_sane_def set_mset_mset)
  ultimately show ?thesis using assms(1) by (simp add: pg_inv_def)
qed

lemma view_rows:
  assumes "pg_inv rows"
  shows "scanInvoice ` {r \<in> set rows. P (scanInvoice r)} = {i. table rows (ID i) = Some i \<and> P i}"
  using assms by (auto simp: table_Some pg_inv_def)

lemma sorted_take_key: "sorted (map f xs) \<Longrightarrow> sorted (map f (take n xs))"
  by (simp add: sorted_wrt_take take_map [symmetric])

lemma pg_list_pending_spec:
  assumes "pg_inv rows" and "pg_sane w rows"
  shows "distinct (map ID (pg_list_pending w rows)) \<and> sorted (map CreatedAt (pg_list_pending w rows))
    \<and> set (pg_list_pending w rows) \<subseteq> {i. table rows (ID i) = Some i \<and> pending i}
    \<and> (fault w = PgOk \<longrightarrow> set (pg_list_pending w rows) = {i. table rows (ID i) = Some i \<and> pending i})"
proof -
  define xs where "xs = sort_key created_at (filter (\<lambda>r. status r = ''pending'') (scan_order w))"
  note so = scan_order_rows [OF assms]
  have "set xs = {r \<in> set rows. pending (scanInvoice r)}"
    using so by (auto simp: xs_def StatusPending_def)
  then have set: "scanInvoice ` set xs = {i. table rows (ID i) = Some i \<and> pending i}"
    using view_rows [OF assms(1), of pending] by simp
  have "distinct (map col_id xs)"
    using so by (simp add: xs_def distinct_map_sort_key distinct_map_filter del: sort_key_simps)
  then have d: "distinct (map col_id (take n xs))" for n by (simp add: take_map [symmetric])
  have st: "sorted (map created_at (take n xs))" for n
    by (rule sorted_take_key) (simp add: xs_def)
  have ids: "map ID (map scanInvoice ys) = map col_id ys" "map CreatedAt (map scanInvoice ys) = map created_at ys" for ys
    by simp_all
  have sub: "scanInvoice ` set (take n xs) \<subseteq> scanInvoice ` set xs" for n
    by (auto dest: in_set_takeD)
  have "pg_list_pending w rows = scan_rows (sql_query (fault w) xs)"
    by (simp add: pg_list_pending_def xs_def)
  then show ?thesis
    using d [of "length xs"] st [of "length xs"] d st sub set
    by (cases "fault w") (simp_all add: scan_rows_def sql_query_def comp_def)
qed

lemma pg_list_spec:
  assumes "pg_inv rows" and "pg_healthy w rows"
  shows "distinct (map ID (pg_list w rows))
    \<and> sorted_wrt (\<lambda>i j. CreatedAt j \<le> CreatedAt i) (pg_list w rows)
    \<and> set (pg_list w rows) = {i. table rows (ID i) = Some i}"
proof -
  define xs where "xs = sort_key (\<lambda>r. - created_at r) (scan_order w)"
  have so: "set (scan_order w) = set rows \<and> distinct (map col_id (scan_order w))"
    using scan_order_rows assms by (simp add: pg_healthy_def)
  have l: "pg_list w rows = map scanInvoice xs"
    using assms(2) by (simp add: pg_list_def xs_def scan_rows_def sql_query_def pg_healthy_def)
  have "sorted_wrt (\<lambda>r q. created_at q \<le> created_at r) xs"
    using sorted_wrt_sort_key [of "\<lambda>r. - created_at r" "scan_order w"] by (simp add: xs_def)
  moreover have "scanInvoice ` set xs = {i. table rows (ID i) = Some i}"
    using view_rows [OF assms(1), of "\<lambda>_. True"] so by (simp add: xs_def)
  ultimately show ?thesis
    using so by (simp add: l sorted_wrt_map comp_def xs_def distinct_map_sort_key)
qed

lemma card_rows:
  assumes "pg_inv rows"
  shows "length (filter P rows) = card (col_id ` {r \<in> set rows. P r})"
proof -
  have "distinct (map col_id (filter P rows))"
    using assms by (simp add: pg_inv_def distinct_map_filter)
  then have "length (map col_id (filter P rows)) = card (set (map col_id (filter P rows)))"
    by (metis distinct_card)
  then show ?thesis by simp
qed

lemma pg_counts_law:
  assumes "pg_inv rows" and "pg_counts w rows addr = ((n, m), None)"
  shows "n = card (pending_ids (table rows)) \<and> m = card (pending_ids_for (table rows) addr)"
proof -
  have d: "distinct (map col_id rows)" using assms(1) by (simp add: pg_inv_def)
  let ?p = "\<lambda>r. status r = ''pending''"
  have nm: "n = length (filter ?p rows)" "m = length (filter (\<lambda>r. ?p r \<and> pay_to r = addr) rows)"
    using assms(2) by (auto simp: pg_counts_def Let_def conj_commute split: if_splits pg_fault.splits)
  have "col_id ` {r \<in> set rows. ?p r} = pending_ids (table rows)"
    by (auto simp: pending_ids_def is_pending_def table_Some [OF d] StatusPending_def)
  moreover have "col_id ` {r \<in> set rows. ?p r \<and> pay_to r = addr} = pending_ids_for (table rows) addr"
    by (auto simp: pending_ids_for_def table_Some [OF d] StatusPending_def)
  ultimately show ?thesis using nm by (simp add: card_rows [OF assms(1)])
qed

lemma pg_unique_keys:
  assumes "pg_inv rows"
  shows "unique_keys (table rows)"
proof -
  have d: "distinct (map col_id rows)" "inj_on (\<lambda>r. (pay_to r, memo r)) (set rows)"
    using assms by (simp_all add: pg_inv_def distinct_map)
  show ?thesis
    unfolding unique_keys_def same_key_def table_Some [OF d(1)]
    using d(2) by (auto simp: inj_on_def)
qed

lemma pg_pending_nul_free:
  assumes "pg_inv rows" and "is_pending (table rows) iid"
  shows "nul_free iid"
  using assms table_Some [of rows iid] by (auto simp: pg_inv_def is_pending_def)

lemma pg_claim_law:
  assumes "pg_inv rows" and "pg_claim w rows iid tx t = ((won, e), rows')"
  shows "pg_inv rows'
    \<and> (table rows' = table rows \<or>
       (\<exists>i. table rows iid = Some i \<and> pending i \<and> table rows' = (table rows)(iid \<mapsto> settled i tx (micro t))))
    \<and> (won \<longrightarrow> e = None \<and> is_pending (table rows) iid \<and> \<not> is_pending (table rows') iid)
    \<and> (\<not> won \<and> e = None \<longrightarrow> table rows' = table rows \<and> \<not> is_pending (table rows) iid)
    \<and> (pg_healthy w rows \<longrightarrow> (is_pending (table rows) iid \<and> nul_free tx \<longrightarrow> won)
          \<and> (nul_free iid \<and> nul_free tx \<longrightarrow> e = None))"
proof -
  let ?f = "\<lambda>r. r\<lparr>status := ''paid'', tx_hash := tx, paid_at := map_option micro (nt t)\<rparr>"
  have f: "\<And>r. col_id (?f r) = col_id r \<and> pay_to (?f r) = pay_to r \<and> memo (?f r) = memo r"
    by simp
  have g: "\<And>i. \<not> pending (settled i tx (micro t))" by simp
  have a: "affected_one (exec (fault w) (sql_update [iid, tx] iid ?f) rows) = ((won, e), rows')"
    using assms(2) by (simp only: pg_claim_def)
  note law = affected_one_law [of rows ?f, OF assms(1) f scan_settled g a]
  have won: "(pg_healthy w rows \<longrightarrow> (is_pending (table rows) iid \<and> nul_free tx \<longrightarrow> won)
          \<and> (nul_free iid \<and> nul_free tx \<longrightarrow> e = None))"
  proof (intro impI)
    assume h: "pg_healthy w rows"
    have "e = None \<and> (is_pending (table rows) iid \<longrightarrow> won)" if "\<forall>p \<in> set [iid, tx]. nul_free p"
      using law [THEN conjunct2, THEN conjunct2, THEN conjunct2, THEN conjunct2] that h
      unfolding pg_healthy_def by blast
    then show "(is_pending (table rows) iid \<and> nul_free tx \<longrightarrow> won)
          \<and> (nul_free iid \<and> nul_free tx \<longrightarrow> e = None)"
      using pg_pending_nul_free [OF assms(1)] by auto
  qed
  show ?thesis
    by (intro conjI won law [THEN conjunct1] law [THEN conjunct2, THEN conjunct1]
        law [THEN conjunct2, THEN conjunct2, THEN conjunct1]
        law [THEN conjunct2, THEN conjunct2, THEN conjunct2, THEN conjunct1])
qed

lemma pg_expire_law:
  assumes "pg_inv rows" and "pg_expire w rows iid = ((won, e), rows')"
  shows "pg_inv rows'
    \<and> (table rows' = table rows \<or>
       (\<exists>i. table rows iid = Some i \<and> pending i \<and> table rows' = (table rows)(iid \<mapsto> expired i)))
    \<and> (won \<longrightarrow> e = None \<and> is_pending (table rows) iid \<and> \<not> is_pending (table rows') iid)
    \<and> (\<not> won \<and> e = None \<longrightarrow> table rows' = table rows \<and> \<not> is_pending (table rows) iid)
    \<and> (pg_healthy w rows \<longrightarrow> (is_pending (table rows) iid \<longrightarrow> won) \<and> (nul_free iid \<longrightarrow> e = None))"
proof -
  let ?f = "\<lambda>r. r\<lparr>status := ''expired''\<rparr>"
  have f: "\<And>r. col_id (?f r) = col_id r \<and> pay_to (?f r) = pay_to r \<and> memo (?f r) = memo r"
    by simp
  have g: "\<And>i. \<not> pending (expired i)" by simp
  have a: "affected_one (exec (fault w) (sql_update [iid] iid ?f) rows) = ((won, e), rows')"
    using assms(2) by (simp only: pg_expire_def)
  note law = affected_one_law [of rows ?f, OF assms(1) f scan_expired g a]
  have won: "(pg_healthy w rows \<longrightarrow> (is_pending (table rows) iid \<longrightarrow> won) \<and> (nul_free iid \<longrightarrow> e = None))"
  proof (intro impI)
    assume h: "pg_healthy w rows"
    have "e = None \<and> (is_pending (table rows) iid \<longrightarrow> won)" if "\<forall>p \<in> set [iid]. nul_free p"
      using law [THEN conjunct2, THEN conjunct2, THEN conjunct2, THEN conjunct2] that h
      unfolding pg_healthy_def by blast
    then show "(is_pending (table rows) iid \<longrightarrow> won) \<and> (nul_free iid \<longrightarrow> e = None)"
      using pg_pending_nul_free [OF assms(1)] by auto
  qed
  show ?thesis
    by (intro conjI won law [THEN conjunct1] law [THEN conjunct2, THEN conjunct1]
        law [THEN conjunct2, THEN conjunct2, THEN conjunct1]
        law [THEN conjunct2, THEN conjunct2, THEN conjunct2, THEN conjunct1])
qed

interpretation pg: invoice_store postgres_store pg_inv table micro_invoice micro texts_ok
  pg_sane pg_healthy
proof
  show "pg_healthy w rows \<Longrightarrow> pg_sane w rows" for w rows by (simp add: pg_healthy_def)
  show "pg_inv rows \<Longrightarrow> table rows iid = Some i \<Longrightarrow> ID i = iid" for rows iid i
    by (auto simp: pg_inv_def table_Some)
  show "pg_inv rows \<Longrightarrow> unique_keys (table rows)" for rows by (rule pg_unique_keys)
  show "pg_inv rows \<Longrightarrow> finite (dom (table rows))" for rows by (simp add: table_def finite_dom_map_of)
  show "pg_inv rows \<Longrightarrow> GetInvoice postgres_store w rows iid = Some i \<Longrightarrow> table rows iid = Some i" for rows w iid i
    by (auto simp: pg_get_def table_find split: if_splits pg_fault.splits)
  show "GetInvoice postgres_store w rows iid = table rows iid"
    if "pg_inv rows" "pg_healthy w rows" for rows w iid
  proof (cases "nul_free iid")
    case True
    then show ?thesis using that by (simp add: pg_get_def table_find pg_healthy_def)
  next
    case False
    then have "table rows iid = None"
      using that(1) table_Some [of rows iid] by (cases "table rows iid") (auto simp: pg_inv_def)
    then show ?thesis using False by (simp add: pg_get_def)
  qed
  show "pg_inv rows \<Longrightarrow> table rows (ID i) = None \<Longrightarrow> nul_free (PayTo i) \<Longrightarrow>
      CreateInvoice postgres_store w rows i = (r, rows') \<Longrightarrow>
      pg_inv rows' \<and> (table rows' = table rows \<or> \<not> key_taken (table rows) i
          \<and> table rows' = (table rows)(ID i \<mapsto> micro_invoice i))
      \<and> (r = None \<longrightarrow> table rows' = (table rows)(ID i \<mapsto> micro_invoice i))
      \<and> (r = Some ErrMemoExists \<longrightarrow> key_taken (table rows) i)" for rows i w r rows'
    using pg_create_law [of rows i w r rows'] by simp
  show "pg_inv rows \<Longrightarrow> ClaimInvoiceForSettlement postgres_store w rows iid tx t = ((won, e), rows') \<Longrightarrow>
      pg_inv rows' \<and> (table rows' = table rows \<or>
         (\<exists>i. table rows iid = Some i \<and> pending i \<and> table rows' = (table rows)(iid \<mapsto> settled i tx (micro t))))
      \<and> (won \<longrightarrow> e = None \<and> is_pending (table rows) iid \<and> \<not> is_pending (table rows') iid)
      \<and> (\<not> won \<and> e = None \<longrightarrow> table rows' = table rows \<and> \<not> is_pending (table rows) iid)
      \<and> (pg_healthy w rows \<longrightarrow> (is_pending (table rows) iid \<and> nul_free tx \<longrightarrow> won)
          \<and> (nul_free iid \<and> nul_free tx \<longrightarrow> e = None))"
    for rows w iid tx t won e rows'
    unfolding postgres_store_simps by (rule pg_claim_law)
  show "pg_inv rows \<Longrightarrow> ExpireInvoice postgres_store w rows iid = ((won, e), rows') \<Longrightarrow>
      pg_inv rows' \<and> (table rows' = table rows \<or>
         (\<exists>i. table rows iid = Some i \<and> pending i \<and> table rows' = (table rows)(iid \<mapsto> expired i)))
      \<and> (won \<longrightarrow> e = None \<and> is_pending (table rows) iid \<and> \<not> is_pending (table rows') iid)
      \<and> (\<not> won \<and> e = None \<longrightarrow> table rows' = table rows \<and> \<not> is_pending (table rows) iid)
      \<and> (pg_healthy w rows \<longrightarrow> (is_pending (table rows) iid \<longrightarrow> won) \<and> (nul_free iid \<longrightarrow> e = None))" for rows w iid won e rows'
    unfolding postgres_store_simps by (rule pg_expire_law)
  show "pg_inv rows \<Longrightarrow> PendingCounts postgres_store w rows addr = ((n, m), None) \<Longrightarrow>
    n = card (pending_ids (table rows)) \<and> m = card (pending_ids_for (table rows) addr)" for rows w addr n m
    using pg_counts_law by simp
  show "ID (micro_invoice i) = ID i \<and> PayTo (micro_invoice i) = PayTo i \<and> Memo (micro_invoice i) = Memo i
    \<and> AmountNano (micro_invoice i) = AmountNano i \<and> Currency (micro_invoice i) = Currency i
    \<and> Status (micro_invoice i) = Status i \<and> TxHash (micro_invoice i) = TxHash i
    \<and> Metadata (micro_invoice i) = Metadata i" for i
    by (simp add: micro_invoice_def)
qed (auto simp: pg_create_healthy pg_list_spec pg_healthy_def pg_counts_def Let_def
      pg_list_pending_spec [THEN conjunct1] pg_list_pending_spec [THEN conjunct2, THEN conjunct1]
      dest: pg_list_pending_spec [THEN conjunct2, THEN conjunct2])


section \<open>What the schema guarantees\<close>

inductive pg_reach :: "row list \<Rightarrow> row list \<Rightarrow> bool" for rows0 :: "row list" where
  begun: "pg_reach rows0 rows0"
| create: "pg_reach rows0 rows \<Longrightarrow> pg_create w rows i = (r, rows') \<Longrightarrow> pg_reach rows0 rows'"
| claim: "pg_reach rows0 rows \<Longrightarrow> pg_claim w rows iid tx t = (c, rows') \<Longrightarrow> pg_reach rows0 rows'"
| expire: "pg_reach rows0 rows \<Longrightarrow> pg_expire w rows iid = (c, rows') \<Longrightarrow> pg_reach rows0 rows'"


lemma sql_insert_used_id:
  assumes "pg_inv rows" and "table rows (ID i) = Some j"
  shows "snd (sql_insert i rows) = rows \<and> fst (sql_insert i rows) \<noteq> Inr ()"
proof -
  obtain q where "q \<in> set rows" "col_id q = ID i"
    using assms table_Some [of rows "ID i"] by (auto simp: pg_inv_def)
  then show ?thesis by (auto simp: sql_insert_def Let_def row_of_def)
qed

lemma pg_create_used_id:
  assumes "pg_inv rows" and "table rows (ID i) = Some j" and "pg_create w rows i = (r, rows')"
  shows "rows' = rows \<and> r \<noteq> None"
proof -
  obtain r1 rows1 where e: "exec (fault w) (sql_insert i) rows = (r1, rows1)" by (metis surj_pair)
  have "rows1 = rows \<and> r1 \<noteq> Inr ()"
    using e sql_insert_used_id [OF assms(1,2)] by (cases rule: exec_cases) auto
  then show ?thesis
    using assms(3) e by (auto simp: pg_create_def split: sum.splits sql_error.splits if_splits)
qed

lemma pg_create_develops:
  assumes "pg_inv rows" and "pg_create w rows i = (r, rows')"
  shows "pg_inv rows' \<and> ledger_develops (table rows) (table rows')"
proof (cases "table rows (ID i)")
  case None
  then show ?thesis
    using pg_create_law [OF assms(1) None assms(2)]
      ledger_develops_new [of "table rows" "ID i", OF None] by auto
next
  case (Some j)
  then show ?thesis using pg_create_used_id [OF assms(1) Some assms(2)] assms(1) by simp
qed

lemma pg_reach_inv:
  assumes "pg_reach rows0 rows" and "pg_inv rows0"
  shows "pg_inv rows \<and> ledger_develops (table rows0) (table rows)"
  using assms
proof induction
  case begun
  then show ?case by simp
next
  case (create rows w i r rows')
  then show ?case using pg_create_develops by (meson ledger_develops_trans)
next
  case (claim rows w iid tx t c rows')
  then show ?case
    using pg.claim_inv [of rows w iid tx t c rows'] pg.claim_develops [of rows w iid tx t c rows']
    by (auto intro: ledger_develops_trans)
next
  case (expire rows w iid c rows')
  then show ?case
    using pg.expire_inv [of rows w iid c rows'] pg.expire_develops [of rows w iid c rows']
    by (auto intro: ledger_develops_trans)
qed

text \<open>
  The unique indexes hold in every reachable table: starting from an empty one, and
  whatever calls run in whatever order with whatever connection faults, no two rows share an
  id and no two rows share a receiving address and memo, and no row ever disappears or changes
  its payment terms.  Unlike the memory store, an insert under a used id is refused.
\<close>


theorem schema_holds:
  assumes "pg_reach [] rows" and "pg_reach rows rows'"
  shows "distinct (map col_id rows') \<and> distinct (map (\<lambda>r. (pay_to r, memo r)) rows')
    \<and> ledger_develops (table rows) (table rows')
    \<and> (\<forall>i w. table rows' (ID i) \<noteq> None \<longrightarrow>
         fst (pg_create w rows' i) \<noteq> None \<and> snd (pg_create w rows' i) = rows')"
proof -
  have "pg_inv []" by (simp add: pg_inv_def)
  then have i: "pg_inv rows" using pg_reach_inv [OF assms(1)] by blast
  then have i': "pg_inv rows'" and d: "ledger_develops (table rows) (table rows')"
    using pg_reach_inv [OF assms(2)] by auto
  have "fst (pg_create w rows' i) \<noteq> None \<and> snd (pg_create w rows' i) = rows'"
    if used: "table rows' (ID i) \<noteq> None" for i w
  proof -
    obtain j where j: "table rows' (ID i) = Some j" using used by auto
    obtain r rows'' where c: "pg_create w rows' i = (r, rows'')" by (metis surj_pair)
    show ?thesis using pg_create_used_id [OF i' j c] c by simp
  qed
  then show ?thesis using i' d by (auto simp: pg_inv_def)
qed

definition pg_calm :: pg_world where
  "pg_calm = \<lparr>fault = PgOk, scan_order = []\<rparr>"

definition pg_flaky :: pg_world where
  "pg_flaky = \<lparr>fault = PgUnknown, scan_order = []\<rparr>"

definition sample_row_invoice :: invoice where
  "sample_row_invoice = zero_invoice\<lparr>ID := ''inv_1'', PayTo := ''EQ1'', Memo := ''TON-1'',
     AmountNano := 5, Status := StatusPending\<rparr>"

text \<open>The claim takes effect although the answer is lost, and the second insert is refused.\<close>

theorem schema_holds_witness:
  "let r0 = [row_of sample_row_invoice];
       r1 = snd (pg_claim pg_flaky r0 ''inv_1'' ''tx'' 7000) in
   map status r1 = [''paid''] \<and> distinct (map col_id r1) \<and> ledger_develops (table r0) (table r1)
   \<and> fst (pg_create pg_calm r1 sample_row_invoice) \<noteq> None"
proof -
  define r0 where "r0 = [row_of sample_row_invoice]"
  define r1 where "r1 = snd (pg_claim pg_flaky r0 ''inv_1'' ''tx'' 7000)"
  have c: "pg_create pg_calm [] sample_row_invoice = (None, r0)"
    by (simp add: pg_create_def exec_def pg_calm_def sql_insert_def texts_ok_def sample_row_invoice_def
        zero_invoice_def nul_free_def StatusPending_def Let_def r0_def)
  have reach0: "pg_reach [] r0" by (rule pg_reach.create [OF pg_reach.begun c])
  obtain x where "pg_claim pg_flaky r0 ''inv_1'' ''tx'' 7000 = (x, r1)"
    using r1_def by (metis prod.collapse)
  from pg_reach.claim [OF pg_reach.begun this] have reach1: "pg_reach r0 r1" .
  have st: "map status r1 = [''paid'']" "map col_id r1 = [''inv_1'']"
    by (simp_all add: r1_def r0_def pg_claim_def exec_def pg_flaky_def sql_update_def nul_free_def
        affected_one_def row_of_def sample_row_invoice_def StatusPending_def Let_def)
  have "table r1 (ID sample_row_invoice) \<noteq> None"
    using st(2) by (auto simp: table_def sample_row_invoice_def map_eq_Cons_conv)
  then show ?thesis
    using schema_holds [OF reach0 reach1] st(1) by (simp add: Let_def r0_def r1_def)
qed

end
