(* ===== verification/Store_Equivalence.thy ===== *)
theory Store_Equivalence
  imports Memory Postgres
begin

text \<open>
  The comment of internal/store/store.go promises that the service is agnostic to where
  invoices are kept.  Here the promise is a simulation: while nothing fails, the memory store
  and the Postgres store answer every call alike and stay related, up to the microsecond
  resolution of the database.
\<close>

section \<open>Calls and answers\<close>







section \<open>The relation\<close>

lemma micro_fields [simp]:
  "ID (micro_invoice i) = ID i" "PayTo (micro_invoice i) = PayTo i" "Memo (micro_invoice i) = Memo i"
  "Status (micro_invoice i) = Status i"
  by (simp_all add: micro_invoice_def)










section \<open>One call\<close>







end
