(* ===== verification/Postgres_Open.thy ===== *)
theory Postgres_Open
  imports Postgres
begin

text \<open>
  internal/store/postgres.go, \<open>NewPostgres\<close> and \<open>Close\<close>: opening the pool, the ping and the embedded
  schema on whatever an earlier version left in the database.  pgx sends a script without
  arguments as one simple query, which the server runs as one transaction.
\<close>

section \<open>The code\<close>

text \<open>
  What the script can find: the table, when it exists, and the names of the indexes.  A table that
  exists keeps its rows and gets no constraint from \<open>CREATE TABLE IF NOT EXISTS\<close>.
\<close>

record database =
  rows_of :: "row list option"
  indexes :: "string list"

datatype ddl =
    CreateTable
  | CreateIndex string
  | CreateUniqueIndex string "row \<Rightarrow> string \<times> string"

definition contents :: "database \<Rightarrow> row list" where
  "contents d = (case rows_of d of None \<Rightarrow> [] | Some rows \<Rightarrow> rows)"

definition run_ddl :: "ddl \<Rightarrow> database \<Rightarrow> sql_error + database" where
  "run_ddl c d = (case c of
     CreateTable \<Rightarrow> Inr (d\<lparr>rows_of := Some (contents d)\<rparr>)
   | CreateIndex n \<Rightarrow>
       if n \<in> set (indexes d) then Inr d
       else if rows_of d = None then Inl (SqlState ''42P01'')
       else Inr (d\<lparr>indexes := indexes d @ [n]\<rparr>)
   | CreateUniqueIndex n key \<Rightarrow>
       if n \<in> set (indexes d) then Inr d
       else if rows_of d = None then Inl (SqlState ''42P01'')
       else if \<not> distinct (map key (contents d)) then Inl (SqlState ''23505'')
       else Inr (d\<lparr>indexes := indexes d @ [n]\<rparr>))"

fun run_script :: "ddl list \<Rightarrow> database \<Rightarrow> sql_error + database" where
  "run_script [] d = Inr d"
| "run_script (c # cs) d = (case run_ddl c d of Inl e \<Rightarrow> Inl e | Inr d' \<Rightarrow> run_script cs d')"

definition schemaSQL :: "ddl list" where
  "schemaSQL = [CreateTable, CreateIndex ''invoices_status'',
     CreateUniqueIndex ''invoices_payto_memo'' (\<lambda>r. (pay_to r, memo r)),
     CreateIndex ''invoices_pending_payto'']"

text \<open>One simple query: an error undoes the whole script, a lost answer leaves its effect open.\<close>

definition exec_script :: "pg_fault \<Rightarrow> ddl list \<Rightarrow> database \<Rightarrow> sql_error option \<times> database" where
  "exec_script f cs d = (case run_script cs d of
     Inl e \<Rightarrow> (Some (if f = PgOk then e else ConnError), d)
   | Inr d' \<Rightarrow> (case f of PgOk \<Rightarrow> (None, d') | PgLost \<Rightarrow> (Some ConnError, d) | _ \<Rightarrow> (Some ConnError, d')))"

datatype pool = NoPool | PoolOpen | PoolClosed

record open_world =
  url_parses :: bool
  ping_answers :: bool
  script_fault :: pg_fault

definition Close :: "pool \<Rightarrow> pool" where
  "Close p = (if p = PoolOpen then PoolClosed else p)"

definition NewPostgres :: "open_world \<Rightarrow> database \<Rightarrow> (sql_error option \<times> pool) \<times> database" where
  "NewPostgres w d =
     (if \<not> url_parses w then ((Some ConnError, NoPool), d)
      else let p = PoolOpen in
        if \<not> ping_answers w then ((Some ConnError, Close p), d)
        else case exec_script (script_fault w) schemaSQL d of
          (Some e, d') \<Rightarrow> ((Some e, Close p), d')
        | (None, d') \<Rightarrow> ((None, p), d'))"

section \<open>What opening guarantees\<close>

text \<open>
  What PostgreSQL itself keeps: the primary key and the absence of NUL in texts, and the
  unique index where it exists.
\<close>

definition payto_memo :: "row \<Rightarrow> string \<times> string" where
  "payto_memo r = (pay_to r, memo r)"

definition db_ok :: "database \<Rightarrow> bool" where
  "db_ok d \<longleftrightarrow> distinct (map col_id (contents d))
     \<and> (\<forall>r \<in> set (contents d). nul_free (col_id r) \<and> nul_free (pay_to r))
     \<and> (''invoices_payto_memo'' \<in> set (indexes d) \<longrightarrow> distinct (map payto_memo (contents d)))
     \<and> (indexes d \<noteq> [] \<longrightarrow> rows_of d \<noteq> None)"

lemma run_ddl_keeps:
  "run_ddl c d = Inr d' \<Longrightarrow> contents d' = contents d \<and> set (indexes d) \<subseteq> set (indexes d')
     \<and> (rows_of d \<noteq> None \<longrightarrow> rows_of d' \<noteq> None)"
  by (auto simp: run_ddl_def contents_def split: ddl.splits if_splits option.splits)

lemma run_script_keeps:
  "run_script cs d = Inr d' \<Longrightarrow> contents d' = contents d \<and> set (indexes d) \<subseteq> set (indexes d')
     \<and> (rows_of d \<noteq> None \<longrightarrow> rows_of d' \<noteq> None)"
proof (induction cs arbitrary: d)
  case (Cons c cs)
  then obtain e where "run_ddl c d = Inr e" "run_script cs e = Inr d'" by (auto split: sum.splits)
  with Cons.IH [of e] run_ddl_keeps [of c d e] show ?case by auto
qed simp

text \<open>The script succeeds exactly when the unique index is there or can be built.\<close>

lemma schema_applies:
  assumes "db_ok d"
  shows "(\<exists>d'. run_script schemaSQL d = Inr d') \<longleftrightarrow> distinct (map payto_memo (contents d))"
    and "run_script schemaSQL d = Inr d' \<Longrightarrow>
      rows_of d' = Some (contents d) \<and> db_ok d' \<and> ''invoices_payto_memo'' \<in> set (indexes d')"
proof -
  have key: "payto_memo = (\<lambda>r. (pay_to r, memo r))" by (simp add: payto_memo_def fun_eq_iff)
  have c: "contents (d\<lparr>rows_of := Some (contents d)\<rparr>) = contents d"
    "contents (d\<lparr>rows_of := Some (contents d), indexes := ns\<rparr>) = contents d" for ns
    by (simp_all add: contents_def)
  show "(\<exists>d'. run_script schemaSQL d = Inr d') \<longleftrightarrow> distinct (map payto_memo (contents d))"
    using assms by (auto simp: schemaSQL_def run_ddl_def c db_ok_def key split: if_splits)
  show "rows_of d' = Some (contents d) \<and> db_ok d' \<and> ''invoices_payto_memo'' \<in> set (indexes d')"
    if "run_script schemaSQL d = Inr d'"
    using assms that by (auto simp: schemaSQL_def run_ddl_def c db_ok_def key split: if_splits)
qed

lemma db_ok_pg_inv:
  "db_ok d \<Longrightarrow> distinct (map payto_memo (contents d)) \<Longrightarrow> pg_inv (contents d)"
  by (simp add: db_ok_def pg_inv_def payto_memo_def [abs_def])

definition reachable_server :: "open_world \<Rightarrow> bool" where
  "reachable_server w \<longleftrightarrow> url_parses w \<and> ping_answers w \<and> script_fault w = PgOk"

lemma NewPostgres_cases:
  assumes "db_ok d" and "NewPostgres w d = ((e, p), d')"
  obtains (opened) "e = None" and "p = PoolOpen" and "run_script schemaSQL d = Inr d'"
    | (failed) "e \<noteq> None" and "p \<noteq> PoolOpen" and "d' = d \<or> run_script schemaSQL d = Inr d'"
        and "\<not> reachable_server w \<or> \<not> distinct (map payto_memo (contents d))"
  using assms schema_applies(1) [OF assms(1)]
  by (auto simp: NewPostgres_def exec_script_def Close_def reachable_server_def Let_def
      split: if_splits sum.splits pg_fault.splits)

lemma NewPostgres_keeps:
  assumes "db_ok d" and "NewPostgres w d = ((e, p), d')"
  shows "db_ok d' \<and> contents d' = contents d"
  using assms
proof (cases rule: NewPostgres_cases)
  case opened
  then show ?thesis using schema_applies(2) [OF assms(1)] run_script_keeps by blast
next
  case failed
  then show ?thesis using schema_applies(2) [OF assms(1)] run_script_keeps assms(1) by blast
qed

text \<open>
  C30: Opening Postgres establishes what the store's correctness rests on, or fails without a
  trace. On success the table holds exactly the rows that were there, under the primary key
  and the unique index on address and memo, also when an older version had created the table
  without that index. With two rows sharing address and memo it never succeeds; it does
  succeed otherwise, when the server answers. A failure leaves no pool open and no row changed.
\<close>

theorem opening_establishes_the_schema:
  assumes "db_ok d" and "NewPostgres w d = ((e, p), d')"
  shows "contents d' = contents d \<and> (e = None \<longleftrightarrow> p = PoolOpen)
    \<and> (e = None \<longrightarrow> rows_of d' = Some (contents d) \<and> pg_inv (contents d))
    \<and> (reachable_server w \<longrightarrow> (e = None \<longleftrightarrow> distinct (map payto_memo (contents d))))"
  using assms
proof (cases rule: NewPostgres_cases)
  case opened
  then have dis: "distinct (map payto_memo (contents d))" using schema_applies(1) [OF assms(1)] by blast
  then show ?thesis
    using opened NewPostgres_keeps [OF assms] schema_applies(2) [OF assms(1) opened(3)] db_ok_pg_inv [OF assms(1) dis]
    by simp
next
  case failed
  then show ?thesis using NewPostgres_keeps [OF assms] by blast
qed

text \<open>
  C31: A restart on Postgres restores everything. After a successful opening and whatever calls
  with whatever connection faults, opening the database again succeeds when the server answers,
  changes nothing, and finds every invoice that was there at the first opening or created since,
  under its terms and with its final status.
\<close>

theorem reopening_restores_everything:
  assumes "db_ok d" and "NewPostgres w d = ((None, p), d')" and "pg_reach (contents d') rows"
    and "reachable_server w'"
  shows "NewPostgres w' (d'\<lparr>rows_of := Some rows\<rparr>) = ((None, PoolOpen), d'\<lparr>rows_of := Some rows\<rparr>)
    \<and> pg_inv rows \<and> ledger_develops (table (contents d)) (table rows)"
proof -
  from assms(1,2) have script: "run_script schemaSQL d = Inr d'"
    by (cases rule: NewPostgres_cases) auto
  have dis: "distinct (map payto_memo (contents d))" using schema_applies(1) [OF assms(1)] script by blast
  from schema_applies(2) [OF assms(1) script] have c: "contents d' = contents d" by (simp add: contents_def)
  have r: "pg_inv rows \<and> ledger_develops (table (contents d)) (table rows)"
    using pg_reach_inv [OF assms(3)] db_ok_pg_inv [OF assms(1) dis] by (simp add: c)
  have "set [''invoices_status'', ''invoices_payto_memo'', ''invoices_pending_payto''] \<subseteq> set (indexes d')"
    using script by (auto simp: schemaSQL_def run_ddl_def split: if_splits sum.splits)
  then have "run_script schemaSQL (d'\<lparr>rows_of := Some rows\<rparr>) = Inr (d'\<lparr>rows_of := Some rows\<rparr>)"
    by (simp add: schemaSQL_def run_ddl_def contents_def)
  then show ?thesis
    using r assms(4) by (simp add: NewPostgres_def exec_script_def reachable_server_def Let_def)
qed

section \<open>An upgrade\<close>

text \<open>A table of an older version, without its unique index.\<close>

definition old_database :: database where
  "old_database = \<lparr>rows_of = Some [row_of sample_row_invoice], indexes = [''invoices_status'']\<rparr>"

definition good_server :: open_world where
  "good_server = \<lparr>url_parses = True, ping_answers = True, script_fault = PgOk\<rparr>"

lemma old_database_facts:
  "db_ok old_database" "reachable_server good_server"
  "NewPostgres good_server old_database = ((None, PoolOpen), old_database\<lparr>indexes :=
     [''invoices_status'', ''invoices_payto_memo'', ''invoices_pending_payto'']\<rparr>)"
  by (simp_all add: db_ok_def old_database_def contents_def row_of_def sample_row_invoice_def nul_free_def
      reachable_server_def good_server_def NewPostgres_def exec_script_def schemaSQL_def run_ddl_def Let_def)

theorem opening_establishes_the_schema_witness:
  "pg_inv (contents old_database) \<and> length (contents old_database) = 1"
  using opening_establishes_the_schema [OF old_database_facts(1,3)]
  by (simp add: old_database_def contents_def)

theorem reopening_restores_everything_witness:
  "\<exists>d. fst (NewPostgres good_server d) = (None, PoolOpen) \<and> map status (contents d) = [''paid'']
     \<and> ledger_develops (table (contents old_database)) (table (contents d))"
proof -
  define r0 where "r0 = [row_of sample_row_invoice]"
  define r1 where "r1 = snd (pg_claim pg_flaky r0 ''inv_1'' ''tx'' 7000)"
  have c: "contents (old_database\<lparr>indexes := ns\<rparr>) = r0" for ns
    by (simp add: contents_def old_database_def r0_def)
  obtain x where "pg_claim pg_flaky r0 ''inv_1'' ''tx'' 7000 = (x, r1)"
    using r1_def by (metis prod.collapse)
  from pg_reach.claim [OF pg_reach.begun this]
  have reach: "pg_reach (contents (old_database\<lparr>indexes := ns\<rparr>)) r1" for ns by (simp add: c)
  have "map status r1 = [''paid'']"
    by (simp add: r1_def r0_def pg_claim_def exec_def pg_flaky_def sql_update_def nul_free_def
        affected_one_def row_of_def sample_row_invoice_def StatusPending_def Let_def)
  then show ?thesis
    using reopening_restores_everything [OF old_database_facts(1,3) reach old_database_facts(2)]
    by (intro exI [of _ "old_database\<lparr>indexes := [''invoices_status'', ''invoices_payto_memo'',
        ''invoices_pending_payto''], rows_of := Some r1\<rparr>"]) (simp add: contents_def)
qed

end
