(* ===== verification/Go_Strings.thy ===== *)
theory Go_Strings
  imports Prelude
begin

text \<open>
  The parts of Go's \<open>strings\<close>, \<open>strconv\<close> and \<open>encoding/hex\<close> that the service calls:
  prefixes and white-space trimming, decimal formatting and parsing of integers with
  their two errors, and hexadecimal text.  The lemmas are the round trips and the
  fixed points (\<open>TrimSpace\<close> on text without white space) the address and amount
  codecs rest on.
\<close>

section \<open>package strings\<close>

definition code :: "char \<Rightarrow> nat" where
  "code c = of_char c"

definition HasPrefix :: "string \<Rightarrow> string \<Rightarrow> bool" where
  "HasPrefix s p \<longleftrightarrow> take (length p) s = p"

definition TrimPrefix :: "string \<Rightarrow> string \<Rightarrow> string" where
  "TrimPrefix s p = (if HasPrefix s p then drop (length p) s else s)"

lemma HasPrefix_Cons: "HasPrefix s (c # p) \<Longrightarrow> s \<noteq> [] \<and> hd s = c"
  by (cases s) (auto simp: HasPrefix_def)

text \<open>
  White space as \<open>unicode.IsSpace\<close> has it, each rune given by its UTF-8 bytes: the six ASCII
  characters, then U+0085, U+00A0, U+1680, U+2000 to U+200A, U+2028, U+2029, U+202F, U+205F
  and U+3000.  A string starts (ends) with a space rune exactly when one of these byte
  sequences is a prefix (suffix) of it.
\<close>

definition space_runes :: "string list" where
  "space_runes =
     [[CHR 0x09], [CHR 0x0A], [CHR 0x0B], [CHR 0x0C], [CHR 0x0D], [CHR 0x20],
      [CHR 0xC2, CHR 0x85], [CHR 0xC2, CHR 0xA0], [CHR 0xE1, CHR 0x9A, CHR 0x80]]
     @ map (\<lambda>c. [CHR 0xE2, CHR 0x80, c])
         [CHR 0x80, CHR 0x81, CHR 0x82, CHR 0x83, CHR 0x84, CHR 0x85, CHR 0x86, CHR 0x87,
          CHR 0x88, CHR 0x89, CHR 0x8A, CHR 0xA8, CHR 0xA9, CHR 0xAF]
     @ [[CHR 0xE2, CHR 0x81, CHR 0x9F], [CHR 0xE3, CHR 0x80, CHR 0x80]]"

lemma HasPrefix_drop_less: "e \<noteq> [] \<Longrightarrow> HasPrefix s e \<Longrightarrow> length (drop (length e) s) < length s"
  by (cases s; cases e) (auto simp: HasPrefix_def)

text \<open>Drop leading members of \<open>es\<close> for as long as there are any.\<close>

function trim_left :: "string list \<Rightarrow> string \<Rightarrow> string" where
  "trim_left es s =
     (case find (\<lambda>e. e \<noteq> [] \<and> HasPrefix s e) es of
        None \<Rightarrow> s
      | Some e \<Rightarrow> trim_left es (drop (length e) s))"
  by pat_completeness auto
termination
  by (relation "measure (\<lambda>(es, s). length s)")
     (auto simp: find_Some_iff dest: HasPrefix_drop_less)

declare trim_left.simps [simp del]

definition TrimSpace :: "string \<Rightarrow> string" where
  "TrimSpace s = rev (trim_left (map rev space_runes) (rev (trim_left space_runes s)))"

text \<open>\<open>strings.TrimRight(s, c)\<close> for a one-character cutset.\<close>

definition TrimRight :: "string \<Rightarrow> char \<Rightarrow> string" where
  "TrimRight s c = rev (dropWhile ((=) c) (rev s))"

text \<open>Printable, non-blank ASCII: what addresses, memos and numbers are written in.\<close>

definition graphic :: "char \<Rightarrow> bool" where
  "graphic c \<longleftrightarrow> 32 < code c \<and> code c < 127"

lemma trim_left_None:
  "find (\<lambda>e. e \<noteq> [] \<and> HasPrefix s e) es = None \<Longrightarrow> trim_left es s = s"
  by (subst trim_left.simps) simp

lemma trim_left_id:
  assumes "\<And>e. e \<in> set es \<Longrightarrow> e \<noteq> [] \<and> \<not> graphic (hd e)"
    and "\<And>c. c \<in> set s \<Longrightarrow> graphic c"
  shows "trim_left es s = s"
proof (rule trim_left_None)
  have "\<not> HasPrefix s e" if "e \<in> set es" for e
  proof
    assume "HasPrefix s e"
    moreover obtain c p where e: "e = c # p" using assms(1) [OF \<open>e \<in> set es\<close>] by (cases e) auto
    ultimately have "s \<noteq> []" and "hd s = c" using HasPrefix_Cons [of s c p] by auto
    with assms(2) [of c] hd_in_set [of s] have "graphic c" by auto
    with assms(1) [OF \<open>e \<in> set es\<close>] e show False by simp
  qed
  then show "find (\<lambda>e. e \<noteq> [] \<and> HasPrefix s e) es = None"
    by (auto simp: find_None_iff)
qed

lemma trim_left_length:
  "length (trim_left es s) < length s \<or> trim_left es s = s"
proof (induction es s rule: trim_left.induct)
  case (1 es s)
  show ?case
  proof (cases "find (\<lambda>e. e \<noteq> [] \<and> HasPrefix s e) es")
    case None
    then show ?thesis by (simp add: trim_left_None)
  next
    case (Some e)
    then have e: "e \<noteq> []" "HasPrefix s e" by (auto simp: find_Some_iff)
    then have "length (drop (length e) s) < length s" by (rule HasPrefix_drop_less)
    with 1 [OF Some] Some show ?thesis
      by (subst (1) trim_left.simps) auto
  qed
qed

lemma space_runes_graphic:
  "\<forall>e \<in> set space_runes. e \<noteq> [] \<and> \<not> graphic (hd e) \<and> \<not> graphic (last e)"
  by (simp add: space_runes_def graphic_def code_def)

lemma TrimSpace_graphic [simp]:
  assumes "\<And>c. c \<in> set s \<Longrightarrow> graphic c"
  shows "TrimSpace s = s"
proof -
  have "trim_left space_runes s = s"
    using space_runes_graphic assms by (intro trim_left_id) auto
  moreover have "trim_left (map rev space_runes) (rev s) = rev s"
    using space_runes_graphic assms by (intro trim_left_id) (auto simp: hd_rev)
  ultimately show ?thesis by (simp add: TrimSpace_def)
qed

lemma TrimSpace_length: "length (TrimSpace s) < length s \<or> TrimSpace s = s"
  using trim_left_length [of space_runes s]
    trim_left_length [of "map rev space_runes" "rev (trim_left space_runes s)"]
  by (auto simp: TrimSpace_def)

section \<open>package strconv\<close>

definition digit_char :: "nat \<Rightarrow> char" where
  "digit_char n = char_of (48 + n)"

definition digit_val :: "char \<Rightarrow> nat option" where
  "digit_val c = (if 48 \<le> code c \<and> code c \<le> 57 then Some (code c - 48) else None)"

lemma code_digit_char [simp]: "n < 10 \<Longrightarrow> code (digit_char n) = 48 + n"
  by (simp add: code_def digit_char_def)

lemma digit_char_simps [simp]:
  "digit_char 0 = CHR ''0''" "digit_char (Suc 0) = CHR ''1''" "digit_char 1 = CHR ''1''" "digit_char 2 = CHR ''2''"
  "digit_char 3 = CHR ''3''" "digit_char 4 = CHR ''4''" "digit_char 5 = CHR ''5''"
  "digit_char 6 = CHR ''6''" "digit_char 7 = CHR ''7''" "digit_char 8 = CHR ''8''"
  "digit_char 9 = CHR ''9''"
  by code_simp+

lemma digit_val_char [simp]: "n < 10 \<Longrightarrow> digit_val (digit_char n) = Some n"
  by (simp add: digit_val_def)

lemma digit_char_graphic [simp]: "n < 10 \<Longrightarrow> graphic (digit_char n)"
  by (simp add: graphic_def)

fun show_nat :: "nat \<Rightarrow> string" where
  "show_nat n = (if n < 10 then [digit_char n] else show_nat (n div 10) @ [digit_char (n mod 10)])"

declare show_nat.simps [simp del]

definition FormatInt :: "int \<Rightarrow> string" where
  "FormatInt i = (if i < 0 then CHR ''-'' # show_nat (nat (- i)) else show_nat (nat i))"

lemma show_nat_digits: "c \<in> set (show_nat n) \<Longrightarrow> \<exists>d < 10. c = digit_char d"
proof (induction n rule: show_nat.induct)
  case (1 n)
  show ?case
  proof (cases "n < 10")
    case True
    with "1.prems" have "c = digit_char n" by (simp add: show_nat.simps [of n])
    with True show ?thesis by blast
  next
    case False
    with "1.prems" have "c \<in> set (show_nat (n div 10)) \<or> c = digit_char (n mod 10)"
      by (auto simp: show_nat.simps [of n])
    moreover have "n mod 10 < 10" by simp
    ultimately show ?thesis using "1.IH" [OF False] by blast
  qed
qed

lemma show_nat_nonempty [simp]: "show_nat n \<noteq> []"
  by (subst show_nat.simps) simp

text \<open>
  \<open>ParseUint(s, 10, bits)\<close>: the value is checked against \<open>2^bits - 1\<close> after every digit,
  so a number that is already too large is \<open>ErrRange\<close> whatever follows it.
\<close>

datatype num_error = ErrSyntax | ErrRange

fun parse_uint :: "nat \<Rightarrow> nat \<Rightarrow> string \<Rightarrow> num_error + nat" where
  "parse_uint mx acc [] = Inr acc"
| "parse_uint mx acc (c # cs) =
     (case digit_val c of
        None \<Rightarrow> Inl ErrSyntax
      | Some d \<Rightarrow> (if mx < 10 * acc + d then Inl ErrRange else parse_uint mx (10 * acc + d) cs))"

text \<open>
  \<open>ParseInt(s, 10, bits)\<close> returns a value also when it fails: 0 for a syntax error, the
  nearest representable value for a range error.  \<open>Atoi\<close> is \<open>ParseInt(s, 10, 64)\<close>.
\<close>

definition ParseInt :: "nat \<Rightarrow> string \<Rightarrow> int \<times> num_error option" where
  "ParseInt bits s =
     (let neg = (s \<noteq> [] \<and> hd s = CHR ''-'');
          ds = (if s \<noteq> [] \<and> (hd s = CHR ''-'' \<or> hd s = CHR ''+'') then tl s else s);
          cutoff = 2 ^ (bits - 1) :: int
      in if ds = [] then (0, Some ErrSyntax)
         else case parse_uint (2 ^ bits - 1) 0 ds of
             Inl ErrSyntax \<Rightarrow> (0, Some ErrSyntax)
           | Inl ErrRange \<Rightarrow> (if neg then - cutoff else cutoff - 1, Some ErrRange)
           | Inr n \<Rightarrow>
               (if \<not> neg \<and> cutoff \<le> int n then (cutoff - 1, Some ErrRange)
                else if neg \<and> cutoff < int n then (- cutoff, Some ErrRange)
                else (if neg then - int n else int n, None)))"

definition Atoi :: "string \<Rightarrow> int \<times> num_error option" where
  "Atoi s = ParseInt 64 s"

lemma parse_uint_append:
  "parse_uint mx acc (xs @ ys) =
     (case parse_uint mx acc xs of Inl e \<Rightarrow> Inl e | Inr n \<Rightarrow> parse_uint mx n ys)"
  by (induction xs arbitrary: acc) (auto split: option.splits)

lemma parse_uint_show_nat: "n \<le> mx \<Longrightarrow> parse_uint mx 0 (show_nat n) = Inr n"
proof (induction n rule: show_nat.induct)
  case (1 n)
  show ?case
  proof (cases "n < 10")
    case True
    with 1 show ?thesis by (subst show_nat.simps) simp
  next
    case False
    with 1 have "parse_uint mx 0 (show_nat (n div 10)) = Inr (n div 10)" by simp
    with False 1 show ?thesis by (subst show_nat.simps) (simp add: parse_uint_append)
  qed
qed

lemma show_nat_hd: "hd (show_nat n) \<noteq> CHR ''-'' \<and> hd (show_nat n) \<noteq> CHR ''+''"
proof -
  from show_nat_digits [of "hd (show_nat n)" n] obtain d where "d < 10" "hd (show_nat n) = digit_char d"
    by (auto simp: hd_in_set)
  then have "code (hd (show_nat n)) \<ge> 48" by simp
  then show ?thesis by (auto simp: code_def)
qed

lemma ParseInt_neg:
  "parse_uint (2 ^ bits - 1) 0 s = Inr n \<Longrightarrow> s \<noteq> [] \<Longrightarrow> int n \<le> 2 ^ (bits - 1) \<Longrightarrow>
   ParseInt bits (CHR ''-'' # s) = (- int n, None)"
  by (simp add: ParseInt_def)

lemma ParseInt_nonneg:
  "parse_uint (2 ^ bits - 1) 0 s = Inr n \<Longrightarrow> s \<noteq> [] \<Longrightarrow> hd s \<noteq> CHR ''-'' \<and> hd s \<noteq> CHR ''+'' \<Longrightarrow>
   int n < 2 ^ (bits - 1) \<Longrightarrow> ParseInt bits s = (int n, None)"
  by (simp add: ParseInt_def)

lemma ParseInt_FormatInt:
  assumes "0 < bits" and "- (2 ^ (bits - 1)) \<le> i" and "i < 2 ^ (bits - 1)"
  shows "ParseInt bits (FormatInt i) = (i, None)"
proof -
  from assms(1) obtain k where k: "bits = Suc k" by (cases bits) auto
  have abs: "int (nat \<bar>i\<bar>) \<le> 2 ^ k" using assms(2,3) k by auto
  then have "nat \<bar>i\<bar> \<le> 2 ^ k" by (simp add: nat_le_iff)
  moreover have "(1 :: nat) \<le> 2 ^ k" by simp
  ultimately have "nat \<bar>i\<bar> \<le> 2 ^ bits - 1" unfolding k power_Suc by linarith
  note parsed = parse_uint_show_nat [OF this]
  show ?thesis
  proof (cases "i < 0")
    case True
    then have "nat \<bar>i\<bar> = nat (- i)" and "FormatInt i = CHR ''-'' # show_nat (nat (- i))"
      by (simp_all add: FormatInt_def)
    with parsed abs k True show ?thesis by (simp add: ParseInt_neg)
  next
    case False
    then have "nat \<bar>i\<bar> = nat i" and "FormatInt i = show_nat (nat i)" by (simp_all add: FormatInt_def)
    with parsed False assms(3) show ?thesis by (simp add: ParseInt_nonneg show_nat_hd)
  qed
qed

lemma show_nat_graphic: "c \<in> set (show_nat n) \<Longrightarrow> graphic c \<and> c \<noteq> CHR '':''"
proof -
  assume "c \<in> set (show_nat n)"
  then obtain d where "d < 10" "c = digit_char d" using show_nat_digits by blast
  then have "code c = 48 + d" "d < 10" by simp_all
  moreover have "code CHR '':'' = 58" by (simp add: code_def)
  ultimately show ?thesis by (auto simp: graphic_def)
qed

lemma FormatInt_graphic: "c \<in> set (FormatInt i) \<Longrightarrow> graphic c \<and> c \<noteq> CHR '':''"
proof -
  assume "c \<in> set (FormatInt i)"
  moreover have "graphic CHR ''-''" by (simp add: graphic_def code_def)
  ultimately show ?thesis by (auto simp: FormatInt_def dest: show_nat_graphic split: if_splits)
qed

lemma FormatInt_inj: "FormatInt i = FormatInt j \<Longrightarrow> i = j"
proof -
  assume eq: "FormatInt i = FormatInt j"
  define n where "n = nat (\<bar>i\<bar> + \<bar>j\<bar>)"
  have "int n < int (2 ^ n)" using less_exp [of n] by (simp only: of_nat_less_iff)
  then have lim: "\<bar>i\<bar> + \<bar>j\<bar> < 2 ^ n" by (simp add: n_def)
  have "ParseInt (Suc n) (FormatInt k) = (k, None)" if "\<bar>k\<bar> \<le> \<bar>i\<bar> + \<bar>j\<bar>" for k
  proof (rule ParseInt_FormatInt)
    from that lim have "k < 2 ^ n" and "- (2 ^ n) \<le> k" by linarith+
    then show "k < 2 ^ (Suc n - 1)" and "- (2 ^ (Suc n - 1)) \<le> k" by (simp_all only: diff_Suc_1)
  qed simp
  then have "fst (ParseInt (Suc n) (FormatInt i)) = i" and "fst (ParseInt (Suc n) (FormatInt j)) = j"
    by (metis abs_ge_zero fst_conv le_add_same_cancel1, metis abs_ge_zero fst_conv le_add_same_cancel2)
  with eq show "i = j" by metis
qed

section \<open>package encoding/hex\<close>

definition hex_digits :: string where "hex_digits = ''0123456789abcdef''"
definition hex_digits_upper :: string where "hex_digits_upper = ''0123456789ABCDEF''"

definition hex_val :: "char \<Rightarrow> nat option" where
  "hex_val c = (case index_of hex_digits c of Some n \<Rightarrow> Some n | None \<Rightarrow> index_of hex_digits_upper c)"

definition hex_byte :: "byte \<Rightarrow> string" where
  "hex_byte b = [hex_digits ! (unat b div 16), hex_digits ! (unat b mod 16)]"

definition HexEncode :: "byte list \<Rightarrow> string" where
  "HexEncode bs = concat (map hex_byte bs)"

fun HexDecode :: "string \<Rightarrow> byte list option" where
  "HexDecode [] = Some []"
| "HexDecode [c] = None"
| "HexDecode (c # d # s) =
     (case (hex_val c, hex_val d, HexDecode s) of
        (Some x, Some y, Some bs) \<Rightarrow> Some (of_nat (16 * x + y) # bs)
      | _ \<Rightarrow> None)"

lemma hex_val_nth: "n < 16 \<Longrightarrow> hex_val (hex_digits ! n) = Some n"
proof -
  assume n: "n < 16"
  have "distinct hex_digits" and "length hex_digits = 16" by (simp_all add: hex_digits_def)
  with n show ?thesis by (simp add: hex_val_def index_of_nth)
qed

lemma hex_digits_graphic: "n < 16 \<Longrightarrow> graphic (hex_digits ! n) \<and> hex_digits ! n \<noteq> CHR '':''"
proof -
  assume "n < 16"
  moreover have "list_all (\<lambda>c. graphic c \<and> c \<noteq> CHR '':'') hex_digits" by code_simp
  moreover have "length hex_digits = 16" by (simp add: hex_digits_def)
  ultimately show ?thesis by (auto simp: list_all_length)
qed

lemma unat_byte_bound: "unat (b :: byte) < 256"
  using unsigned_less [of b, where 'a = nat] by simp

lemma HexDecode_Encode [simp]: "HexDecode (HexEncode bs) = Some bs"
proof (induction bs)
  case Nil
  then show ?case by (simp add: HexEncode_def)
next
  case (Cons b bs)
  have "unat b div 16 < 16" using unat_byte_bound [of b] by linarith
  then have "hex_val (hex_digits ! (unat b div 16)) = Some (unat b div 16)"
    and "hex_val (hex_digits ! (unat b mod 16)) = Some (unat b mod 16)"
    by (auto intro: hex_val_nth)
  moreover have "16 * (unat b div 16) + unat b mod 16 = unat b" by simp
  ultimately show ?case
    using Cons by (simp add: HexEncode_def hex_byte_def del: of_nat_add of_nat_mult)
qed

lemma length_HexEncode [simp]: "length (HexEncode bs) = 2 * length bs"
  by (induction bs) (simp_all add: HexEncode_def hex_byte_def)

lemma HexEncode_inj: "HexEncode xs = HexEncode ys \<Longrightarrow> xs = ys"
  by (metis HexDecode_Encode option.inject)

lemma HexEncode_chars: "c \<in> set (HexEncode bs) \<Longrightarrow> graphic c \<and> c \<noteq> CHR '':''"
proof -
  assume "c \<in> set (HexEncode bs)"
  then obtain b where "c = hex_digits ! (unat b div 16) \<or> c = hex_digits ! (unat (b :: byte) mod 16)"
    by (auto simp: HexEncode_def hex_byte_def)
  moreover have "unat b div 16 < 16" using unat_byte_bound [of b] by linarith
  ultimately show ?thesis using hex_digits_graphic by (metis mod_less_divisor zero_less_numeral)
qed

lemma HexDecode_length: "HexDecode s = Some bs \<Longrightarrow> length s = 2 * length bs"
  by (induction s arbitrary: bs rule: HexDecode.induct) (auto split: option.splits)

end
