(* ===== verification/Money.thy ===== *)
theory Money
  imports Go_Strings
begin

text \<open>
  internal/money/money.go: amounts as integer nanoTON and their decimal text.  The arithmetic
  is Go's \<open>int64\<close> arithmetic, so the negation of the least integer wraps.  \<open>TONToNano\<close> works on
  \<open>float64\<close> and is in \<open>Float64\<close>.
\<close>

section \<open>The code\<close>

definition Nano :: int64 where [go_defs]: "Nano = 1000000000"

text \<open>\<open>%09d\<close>.\<close>

definition pad09 :: "int \<Rightarrow> string" where
  "pad09 i =
     (let sign = (if i < 0 then ''-'' else []); ds = show_nat (nat \<bar>i\<bar>)
      in sign @ replicate (9 - length sign - length ds) (CHR ''0'') @ ds)"

definition NanoToTONString :: "int64 \<Rightarrow> string" where
  "NanoToTONString n0 =
     (let neg = (n0 < 0);
          n = (if neg then wrap64 (- n0) else n0);
          whole = go_div n Nano;
          frac = go_mod n Nano;
          s = (if frac = 0 then FormatInt whole
               else TrimRight (TrimRight (FormatInt whole @ CHR ''.'' # pad09 frac) (CHR ''0'')) (CHR ''.''))
      in if neg then CHR ''-'' # s else s)"

section \<open>Reading a decimal amount\<close>

text \<open>
  The reference: a sign, digits, and optionally a point with up to nine further digits, read as
  a number of nanoTON.
\<close>

definition dec_val :: "string \<Rightarrow> nat" where
  "dec_val s = foldl (\<lambda>a c. 10 * a + (code c - 48)) 0 s"

definition read_unsigned :: "string \<Rightarrow> int" where
  "read_unsigned s =
     (let w = takeWhile (\<lambda>c. c \<noteq> CHR ''.'') s; f = drop (Suc (length w)) s
      in int (dec_val w) * Nano + int (dec_val (f @ replicate (9 - length f) (CHR ''0''))))"

definition read_amount :: "string \<Rightarrow> int" where
  "read_amount s = (if s \<noteq> [] \<and> hd s = CHR ''-'' then - read_unsigned (tl s) else read_unsigned s)"

text \<open>No superfluous zero or point at the end.\<close>

definition trimmed :: "string \<Rightarrow> bool" where
  "trimmed s \<longleftrightarrow> (CHR ''.'' \<in> set s \<longrightarrow> last s \<noteq> CHR ''0'' \<and> last s \<noteq> CHR ''.'')"

lemma dec_val_append: "dec_val (xs @ ys) = dec_val xs * 10 ^ length ys + dec_val ys"
proof (induction ys rule: rev_induct)
  case Nil
  then show ?case by (simp add: dec_val_def)
next
  case (snoc y ys)
  have "dec_val (zs @ [y]) = 10 * dec_val zs + (code y - 48)" for zs by (simp add: dec_val_def)
  then have "dec_val ((xs @ ys) @ [y]) = 10 * dec_val (xs @ ys) + (code y - 48)"
    and "dec_val (ys @ [y]) = 10 * dec_val ys + (code y - 48)" by blast+
  with snoc show ?case by (simp add: algebra_simps)
qed

lemma dec_val_digit: "d < 10 \<Longrightarrow> dec_val [digit_char d] = d"
  by (simp add: dec_val_def)

lemma dec_val_show_nat [simp]: "dec_val (show_nat n) = n"
proof (induction n rule: show_nat.induct)
  case (1 n)
  then show ?case
    by (cases "n < 10") (simp_all add: show_nat.simps [of n] dec_val_append dec_val_digit)
qed

lemma dec_val_zeros [simp]: "dec_val (replicate k (CHR ''0'')) = 0"
proof (induction k)
  case (Suc k)
  have "dec_val [CHR ''0''] = 0" by (simp add: dec_val_def code_def)
  with Suc show ?case using dec_val_append [of "[CHR ''0'']" "replicate k (CHR ''0'')"] by simp
qed (simp add: dec_val_def)

lemma length_show_nat: "n < 10 ^ Suc k \<Longrightarrow> length (show_nat n) \<le> Suc k"
proof (induction k arbitrary: n)
  case 0
  then show ?case by (simp add: show_nat.simps)
next
  case (Suc k)
  have "n div 10 < 10 ^ Suc k" using Suc.prems by simp
  from Suc.IH [OF this] show ?case by (subst show_nat.simps) simp
qed

lemma digit_char_not_point: "d < 10 \<Longrightarrow> digit_char d \<noteq> CHR ''.'' \<and> digit_char d \<noteq> CHR ''-''"
proof -
  assume "d < 10"
  then have "code (digit_char d) \<ge> 48" by simp
  then show ?thesis by (auto simp: code_def)
qed

lemma show_nat_no_point: "c \<in> set (show_nat n) \<Longrightarrow> c \<noteq> CHR ''.'' \<and> c \<noteq> CHR ''-''"
  by (drule show_nat_digits) (auto simp: digit_char_not_point)

text \<open>A nine-digit fraction without its trailing zeros.\<close>

lemma strip_zeros:
  assumes "dec_val s \<noteq> 0"
  obtains t k where "s = t @ replicate k (CHR ''0'')" and "t \<noteq> []" and "last t \<noteq> CHR ''0''"
proof -
  define k where "k = length (takeWhile ((=) (CHR ''0'')) (rev s))"
  define t where "t = TrimRight s (CHR ''0'')"
  have tw: "takeWhile ((=) (CHR ''0'')) (rev s) = replicate k (CHR ''0'')"
    unfolding k_def by (rule replicate_eqI) (auto dest: set_takeWhileD)
  have "rev s = replicate k (CHR ''0'') @ rev t"
    unfolding t_def TrimRight_def rev_rev_ident by (simp flip: tw)
  then have s: "s = t @ replicate k (CHR ''0'')" by (metis rev_append rev_replicate rev_rev_ident)
  with assms have "t \<noteq> []" by (intro notI) simp
  moreover have "last t \<noteq> CHR ''0''"
    using \<open>t \<noteq> []\<close> hd_dropWhile [of "(=) (CHR ''0'')" "rev s"]
    by (auto simp: t_def TrimRight_def last_rev)
  ultimately show ?thesis using s that by blast
qed

lemma TrimRight_replicate:
  "t \<noteq> [] \<Longrightarrow> last t \<noteq> c \<Longrightarrow> TrimRight (t @ replicate k c) c = t"
proof -
  assume "t \<noteq> []" "last t \<noteq> c"
  then have "dropWhile ((=) c) (rev t) = rev t" by (cases t rule: rev_cases) auto
  moreover have "dropWhile ((=) c) (replicate k c @ xs) = dropWhile ((=) c) xs" for xs
    by (induction k) simp_all
  ultimately show ?thesis by (simp add: TrimRight_def)
qed

lemma pad09_frac:
  assumes "0 < f" and "f < Nano"
  shows "length (pad09 f) = 9" and "dec_val (pad09 f) = nat f"
    and "c \<in> set (pad09 f) \<Longrightarrow> c \<noteq> CHR ''.''"
proof -
  have "nat f < 10 ^ Suc 8" using assms by (simp add: go_defs nat_less_iff)
  from length_show_nat [OF this] show "length (pad09 f) = 9" using assms by (simp add: pad09_def Let_def)
  show "dec_val (pad09 f) = nat f" using assms by (simp add: pad09_def Let_def dec_val_append)
  show "c \<in> set (pad09 f) \<Longrightarrow> c \<noteq> CHR ''.''"
    using assms show_nat_no_point by (auto simp: pad09_def Let_def)
qed

lemma read_whole: "0 \<le> w \<Longrightarrow> read_unsigned (FormatInt w) = w * Nano"
proof -
  assume "0 \<le> w"
  have "takeWhile (\<lambda>c. c \<noteq> CHR ''.'') (show_nat (nat w)) = show_nat (nat w)"
    using show_nat_no_point by (auto simp: takeWhile_eq_all_conv)
  note tw = this
  from \<open>0 \<le> w\<close> have "FormatInt w = show_nat (nat w)" by (simp add: FormatInt_def)
  then show ?thesis using \<open>0 \<le> w\<close>
    by (simp add: read_unsigned_def Let_def tw del: takeWhile_eq_all_conv)
qed

lemma read_fraction:
  assumes "0 \<le> w" and "0 < f" and "f < Nano"
  defines "s \<equiv> TrimRight (TrimRight (FormatInt w @ CHR ''.'' # pad09 f) (CHR ''0'')) (CHR ''.'')"
  shows "read_unsigned s = w * Nano + f" and "trimmed s" and "s \<noteq> [] \<and> hd s \<noteq> CHR ''-''"
proof -
  let ?W = "show_nat (nat w)"
  have "dec_val (pad09 f) \<noteq> 0" using pad09_frac(2) [OF assms(2,3)] assms(2) by simp
  then obtain t k where t: "pad09 f = t @ replicate k (CHR ''0'')" "t \<noteq> []" "last t \<noteq> CHR ''0''"
    by (rule strip_zeros)
  have np: "last t \<noteq> CHR ''.''" using pad09_frac(3) [OF assms(2,3)] t(1,2) by auto
  have "TrimRight (FormatInt w @ CHR ''.'' # pad09 f) (CHR ''0'') = ?W @ CHR ''.'' # t"
    using TrimRight_replicate [of "?W @ CHR ''.'' # t" "CHR ''0''" k] t assms(1)
    by (simp add: FormatInt_def)
  then have s: "s = ?W @ CHR ''.'' # t"
    using TrimRight_replicate [of "?W @ CHR ''.'' # t" "CHR ''.''" 0] t np by (simp add: s_def)
  have "takeWhile (\<lambda>c. c \<noteq> CHR ''.'') s = ?W"
    unfolding s using show_nat_no_point by (auto simp: takeWhile_append2)
  moreover have "t @ replicate (9 - length t) (CHR ''0'') = pad09 f"
    using t(1) pad09_frac(1) [OF assms(2,3)] by simp
  ultimately show "read_unsigned s = w * Nano + f"
    using pad09_frac(2) [OF assms(2,3)] assms(1,2) by (simp add: read_unsigned_def s Let_def)
  show "trimmed s" using t np by (simp add: trimmed_def s)
  show "s \<noteq> [] \<and> hd s \<noteq> CHR ''-''" using show_nat_hd by (simp add: s)
qed

lemma NanoToTONString_nonneg:
  assumes "0 \<le> n"
  shows "read_unsigned (NanoToTONString n) = n \<and> trimmed (NanoToTONString n)
    \<and> NanoToTONString n \<noteq> [] \<and> hd (NanoToTONString n) \<noteq> CHR ''-''"
proof -
  have N: "0 < Nano" by (simp add: go_defs)
  have dm: "go_div n Nano = n div Nano" "go_mod n Nano = n mod Nano" and w: "0 \<le> n div Nano"
    using assms N by (simp_all add: go_div_nonneg go_mod_nonneg pos_imp_zdiv_nonneg_iff)
  show ?thesis
  proof (cases "n mod Nano = 0")
    case True
    with assms dm have "NanoToTONString n = FormatInt (n div Nano)" by (simp add: NanoToTONString_def)
    moreover have "n div Nano * Nano = n" using True by auto
    moreover have "trimmed (FormatInt (n div Nano))"
      using w show_nat_no_point by (auto simp: trimmed_def FormatInt_def)
    ultimately show ?thesis using w read_whole [OF w] show_nat_hd by (simp add: FormatInt_def)
  next
    case False
    then have "0 < n mod Nano" "n mod Nano < Nano"
      using N pos_mod_sign [OF N, of n] pos_mod_bound [OF N, of n] by linarith+
    note r = read_fraction [OF w this]
    from assms dm False have "NanoToTONString n = TrimRight (TrimRight
        (FormatInt (n div Nano) @ CHR ''.'' # pad09 (n mod Nano)) (CHR ''0'')) (CHR ''.'')"
      by (simp add: NanoToTONString_def Let_def)
    with r show ?thesis by simp
  qed
qed

section \<open>Properties\<close>

lemma amount_reads_back:
  assumes "in_int64 n" and "n \<noteq> MinInt64"
  shows "read_amount (NanoToTONString n) = n \<and> trimmed (NanoToTONString n)"
proof (cases "n < 0")
  case True
  with assms have "in_int64 (- n)" by (simp add: in_int64_def go_defs)
  with True have "NanoToTONString n = CHR ''-'' # NanoToTONString (- n)"
    by (simp add: NanoToTONString_def Let_def)
  with NanoToTONString_nonneg [of "- n"] True show ?thesis by (simp add: read_amount_def trimmed_def)
next
  case False
  with NanoToTONString_nonneg [of n] show ?thesis by (simp add: read_amount_def)
qed

text \<open>Exact amounts. For every \<open>int64\<close> but the least one, the decimal text reads back as the
  same number of nanoTON (nothing is rounded), and it carries no superfluous zero or point.\<close>

theorem NanoToTONString_exact:
  assumes "in_int64 n" and "n \<noteq> MinInt64"
  shows "read_amount (NanoToTONString n) = n \<and> trimmed (NanoToTONString n)"
  by (rule amount_reads_back [OF assms])

theorem NanoToTONString_exact_witness:
  "read_amount (NanoToTONString (-2500000000)) = -2500000000 \<and> trimmed (NanoToTONString (-2500000000))"
  by (rule NanoToTONString_exact) (simp_all add: in_int64_def go_defs)

text \<open>The least \<open>int64\<close>. Its negation wraps to itself, so both parts print with their own
  sign and the text is malformed.\<close>

lemma NanoToTONString_MinInt64:
  "NanoToTONString MinInt64 = ''--9223372036.-854775808''"
proof -
  have "wrap64 (- MinInt64) = MinInt64" by (simp add: wrap64_def go_defs)
  moreover have "go_div MinInt64 Nano = -9223372036" by (simp add: go_div_def go_defs)
  moreover from this have "go_mod MinInt64 Nano = -854775808" by (simp add: go_mod_def go_defs)
  moreover have "FormatInt (-9223372036) = ''-9223372036''"
    by (simp add: FormatInt_def show_nat.simps)
  moreover have "pad09 (-854775808) = ''-854775808''"
    by (simp add: pad09_def show_nat.simps)
  ultimately show ?thesis
    by (simp add: NanoToTONString_def TrimRight_def MinInt64_def)
qed

end
