(* ===== verification/Float64.thy ===== *)
theory Float64
  imports Money Complex_Main
begin

text \<open>
  internal/money/money.go, \<open>TONToNano\<close>: the conversion of a decimal amount held in a \<open>float64\<close>.
  A finite double is \<open>m * 2^e\<close> with integers, so multiplication and rounding are integer
  arithmetic: the exact product is cut to 53 significant bits, to the nearest and on a tie to the
  even neighbour, as IEEE 754 prescribes.
\<close>

section \<open>The code\<close>

datatype float64 = NaN | Infinite bool | Finite int int

text \<open>The significant bits of a magnitude, and division to the nearest, ties to even.\<close>

fun bit_length :: "nat \<Rightarrow> nat" where
  "bit_length n = (if n = 0 then 0 else Suc (bit_length (n div 2)))"

declare bit_length.simps [simp del]

definition div_even :: "nat \<Rightarrow> nat \<Rightarrow> nat" where
  "div_even n d = (let q = n div d; r = n mod d in
     if 2 * r < d then q else if 2 * r > d then q + 1 else if even q then q else q + 1)"

text \<open>
  The double nearest to \<open>m * 2^e\<close>, for \<open>e\<close> at least \<open>-1074\<close>, the exponent of the smallest
  double, which a product of a double with an integer always has.
\<close>

definition round_to_double :: "int \<Rightarrow> int \<Rightarrow> float64" where
  "round_to_double m e =
     (let k = bit_length (nat \<bar>m\<bar>) - 53;
          q = int (div_even (nat \<bar>m\<bar>) (2 ^ k));
          f = e + int k
      in if m = 0 then Finite 0 0
         else if int (bit_length (nat q)) + f > 1024 then Infinite (m < 0)
         else Finite (sgn m * q) f)"

definition times_int :: "float64 \<Rightarrow> int \<Rightarrow> float64" where
  "times_int t n = (case t of
     NaN \<Rightarrow> NaN
   | Infinite s \<Rightarrow> (if n = 0 then NaN else Infinite (s \<noteq> (n < 0)))
   | Finite m e \<Rightarrow> round_to_double (m * n) e)"

text \<open>\<open>math.Round\<close>, halves away from zero; and the integer a finite double is then.\<close>

definition round_away :: "int \<Rightarrow> int \<Rightarrow> int" where
  "round_away m e = (if 0 \<le> e then m * 2 ^ nat e
     else sgn m * ((2 * \<bar>m\<bar> + 2 ^ nat (- e)) div (2 * 2 ^ nat (- e))))"

text \<open>
  The conversion to \<open>int64\<close> of a value that does not fit is left to the implementation by Go's
  specification, hence the parameter.
\<close>

definition TONToNano :: "(float64 \<Rightarrow> int64) \<Rightarrow> float64 \<Rightarrow> int64" where
  "TONToNano unfit t = (let p = times_int t Nano in case p of
     Finite m e \<Rightarrow> (let n = round_away m e in if in_int64 n then n else unfit p)
   | _ \<Rightarrow> unfit p)"

text \<open>A double: 53 bits and the exponents of the format.\<close>

fun double :: "float64 \<Rightarrow> bool" where
  "double (Finite m e) \<longleftrightarrow> \<bar>m\<bar> < 2 ^ 53 \<and> - 1074 \<le> e \<and> e \<le> 971"
| "double _ \<longleftrightarrow> True"

fun float_val :: "float64 \<Rightarrow> real" where
  "float_val (Finite m e) = of_int m * 2 powi e"
| "float_val _ = 0"

section \<open>Rounding\<close>

lemma bit_length_bounds: "0 < n \<Longrightarrow> 2 ^ (bit_length n - 1) \<le> n \<and> n < 2 ^ bit_length n"
proof (induction n rule: bit_length.induct)
  case (1 n)
  show ?case
  proof (cases "n div 2 = 0")
    case True
    then have "n = 1" using "1.prems" by linarith
    then show ?thesis by (simp add: bit_length.simps)
  next
    case False
    have "bit_length (n div 2) \<noteq> 0" using False by (subst bit_length.simps) simp
    then obtain k where k: "bit_length (n div 2) = Suc k" by (cases "bit_length (n div 2)") auto
    have "2 ^ k \<le> n div 2 \<and> n div 2 < 2 ^ Suc k" using "1.IH" "1.prems" False k by simp
    moreover have "bit_length n = Suc (Suc k)" using "1.prems" k by (subst bit_length.simps) simp
    ultimately show ?thesis by auto
  qed
qed

lemma div_even_error:
  assumes "0 < d"
  shows "2 * \<bar>int (div_even n d) * int d - int n\<bar> \<le> int d"
proof -
  have n: "int n = int (n div d) * int d + int (n mod d)" by (metis div_mult_mod_eq of_nat_add of_nat_mult)
  have "n mod d < d" using assms by simp
  then show ?thesis unfolding n by (auto simp: div_even_def Let_def algebra_simps)
qed

lemma div_even_1 [simp]: "div_even n (Suc 0) = n"
  by (simp add: div_even_def)

text \<open>A rounded magnitude is within half a unit of the last of its 53 places.\<close>

lemma rounded_error:
  fixes M :: nat
  defines "k \<equiv> bit_length M - 53"
  shows "\<bar>real (div_even M (2 ^ k)) * 2 ^ k - real M\<bar> \<le> real M / 2 ^ 53"
proof (cases "k = 0")
  case False
  then have "0 < M" by (metis bit_length.simps diff_0_eq_0 gr0I k_def)
  then have b: "2 ^ (bit_length M - 1) \<le> M" using bit_length_bounds by blast
  have "bit_length M - 1 = k + 52" using False unfolding k_def by linarith
  with b have "2 ^ k * 2 ^ 52 \<le> M" by (simp add: power_add)
  then have "real (2 ^ k * 2 ^ 52) \<le> real M" by (simp only: of_nat_le_iff)
  then have m: "2 ^ k \<le> real M / 2 ^ 52" by (simp add: field_simps)
  have "2 * \<bar>int (div_even M (2 ^ k)) * int (2 ^ k) - int M\<bar> \<le> int (2 ^ k)" by (rule div_even_error) simp
  then have "real_of_int (2 * \<bar>int (div_even M (2 ^ k)) * int (2 ^ k) - int M\<bar>) \<le> real_of_int (int (2 ^ k))"
    by (simp only: of_int_le_iff)
  then have "2 * \<bar>real (div_even M (2 ^ k)) * 2 ^ k - real M\<bar> \<le> 2 ^ k" by simp
  with m show ?thesis by simp
qed simp

lemma round_away_near:
  assumes "\<bar>float_val (Finite m e) - of_int n\<bar> < 1 / 2"
  shows "round_away m e = n"
proof (cases "0 \<le> e")
  case True
  then have "float_val (Finite m e) = of_int (m * 2 ^ nat e)" by (simp add: power_int_def)
  with assms have "\<bar>real_of_int (m * 2 ^ nat e) - of_int n\<bar> < 1 / 2" by argo
  then have "m * 2 ^ nat e = n" by linarith
  then show ?thesis using True by (simp add: round_away_def)
next
  case False
  define D :: int where "D = 2 ^ nat (- e)"
  have D: "0 < D" by (simp add: D_def)
  have v: "float_val (Finite m e) = of_int m / of_int D"
  proof -
    have "(2 :: real) powi e = 1 / 2 ^ nat (- e)" using False by (simp add: power_int_def power_one_over)
    then show ?thesis by (simp add: D_def)
  qed
  have fl: "(2 * \<bar>m\<bar> + D) div (2 * D) = \<lfloor>\<bar>float_val (Finite m e)\<bar> + 1 / 2\<rfloor>"
  proof -
    have "\<bar>float_val (Finite m e)\<bar> + 1 / 2 = real_of_int (2 * \<bar>m\<bar> + D) / real_of_int (2 * D)"
      using D unfolding v by (simp add: field_simps abs_divide)
    then show ?thesis by (simp only: floor_divide_of_int_eq)
  qed
  have "\<bar>float_val (Finite m e)\<bar> + 1 / 2 \<ge> of_int \<bar>n\<bar>" "\<bar>float_val (Finite m e)\<bar> + 1 / 2 < of_int \<bar>n\<bar> + 1"
    using assms by (auto simp: abs_if split: if_splits)
  then have f: "\<lfloor>\<bar>float_val (Finite m e)\<bar> + 1 / 2\<rfloor> = \<bar>n\<bar>" by (simp add: floor_eq_iff)
  have "sgn m * \<bar>n\<bar> = n"
  proof (cases "n = 0")
    case n: False
    have "sgn (float_val (Finite m e)) = sgn (of_int n)"
    proof (cases "0 < n")
      case True
      then have "1 \<le> real_of_int n" by simp
      then have "0 < float_val (Finite m e)" using assms by linarith
      then show ?thesis using True by simp
    next
      case neg: False
      with n have "real_of_int n \<le> - 1" by linarith
      then have "float_val (Finite m e) < 0" using assms by linarith
      then show ?thesis using neg n by simp
    qed
    moreover have "sgn (float_val (Finite m e)) = of_int (sgn m)" using D unfolding v by (simp add: sgn_if zero_less_divide_iff)
    ultimately have "real_of_int (sgn m) = sgn (real_of_int n)" by metis
    then have "sgn m = sgn n" by (auto simp: sgn_if split: if_splits)
    then show ?thesis by (simp add: sgn_mult_abs)
  qed simp
  then show ?thesis using False fl f by (simp add: round_away_def D_def)
qed

section \<open>The nearest double\<close>

definition nearest_double :: "float64 \<Rightarrow> real \<Rightarrow> bool" where
  "nearest_double t x \<longleftrightarrow> double t \<and> (\<exists>m e. t = Finite m e)
     \<and> (\<forall>m e. double (Finite m e) \<longrightarrow> \<bar>float_val t - x\<bar> \<le> \<bar>float_val (Finite m e) - x\<bar>)"

text \<open>In the normal range some double is within a relative error of \<open>2^-53\<close>.\<close>

lemma double_near_pos:
  assumes "1 / 2 ^ 100 \<le> x" and "x < 2 ^ 100"
  shows "\<exists>m e. double (Finite m e) \<and> \<bar>float_val (Finite m e) - x\<bar> \<le> x / 2 ^ 53"
proof -
  have x: "0 < x" using assms(1) by (rule less_le_trans [rotated]) simp
  define k where "k = \<lfloor>log 2 x\<rfloor>"
  have k: "2 powi k \<le> x" "x < 2 powi (k + 1)"
  proof -
    have p: "(2 :: real) powr of_int j = 2 powi j" for j by (rule powr_real_of_int') simp_all
    have "2 powr of_int k \<le> x \<and> x < 2 powr (of_int k + 1)"
      using floor_log_eq_powr_iff [of x 2 k] x by (simp add: k_def)
    moreover have "real_of_int k + 1 = of_int (k + 1)" by simp
    ultimately show "2 powi k \<le> x" "x < 2 powi (k + 1)" by (simp_all only: p)
  qed
  have "2 powi (-100) = 1 / (2 :: real) ^ 100" by (simp add: power_int_def power_one_over)
  then have "2 powi (-100) < (2 :: real) powi (k + 1)" using assms(1) k(2) by linarith
  then have lo: "-101 < k" using power_int_increasing [of "k + 1" "-100" "2 :: real"] by force
  have "2 powi k < (2 :: real) powi 100" using assms(2) k(1) by simp
  then have hi: "k < 100" using power_int_increasing [of 100 k "2 :: real"] by force
  define u :: real where "u = 2 powi (k - 52)"
  have u: "0 < u" "2 powi k = 2 ^ 52 * u" "2 powi (k + 1) = 2 ^ 53 * u"
    by (simp_all add: u_def power_int_diff power_int_add)
  define y where "y = x / u"
  have y: "2 ^ 52 \<le> y" "y < 2 ^ 53" using k u by (simp_all add: y_def field_simps)
  define m where "m = round y"
  have near: "\<bar>of_int m - y\<bar> \<le> 1 / 2" unfolding m_def by (rule of_int_round_abs_le)
  then have "of_int m - y \<le> 1 / 2" "y - of_int m \<le> 1 / 2" by (auto simp only: abs_le_iff)
  with y have "real_of_int (2 ^ 52 - 1) < of_int m" "of_int m < real_of_int (2 ^ 53 + 1)" by simp_all
  then have m: "2 ^ 52 \<le> m" "m \<le> 2 ^ 53" by (simp_all only: of_int_less_iff)
  have "of_int m * u - x = (of_int m - y) * u" using u(1) by (simp add: y_def field_simps)
  then have "\<bar>of_int m * u - x\<bar> = \<bar>of_int m - y\<bar> * u" using u(1) by (simp add: abs_mult)
  also have "\<dots> \<le> 1 / 2 * u" using near u(1) by (intro mult_right_mono) auto
  also have "\<dots> \<le> x / 2 ^ 53" using k(1) u(2) by simp
  finally have err: "\<bar>of_int m * u - x\<bar> \<le> x / 2 ^ 53" .
  show ?thesis
  proof (cases "m = 2 ^ 53")
    case False
    then have "double (Finite m (k - 52))" using m lo hi by simp
    moreover have "float_val (Finite m (k - 52)) = of_int m * u" by (simp add: u_def)
    ultimately show ?thesis using err by metis
  next
    case True
    have "double (Finite (2 ^ 52) (k - 51))" using lo hi by simp
    moreover have "float_val (Finite (2 ^ 52) (k - 51)) = of_int m * u"
      using power_int_add [of "2 :: real" "k - 52" 1] by (simp add: True u_def)
    ultimately show ?thesis using err by metis
  qed
qed

text \<open>The product's rounding.\<close>

lemma round_to_double_error:
  assumes "\<bar>float_val (Finite m e)\<bar> < 2 ^ 100"
  shows "\<exists>q f. round_to_double m e = Finite q f
    \<and> \<bar>float_val (Finite q f) - float_val (Finite m e)\<bar> \<le> \<bar>float_val (Finite m e)\<bar> / 2 ^ 53"
proof (cases "m = 0")
  case False
  define M where "M = nat \<bar>m\<bar>"
  define k where "k = bit_length M - 53"
  define q where "q = div_even M (2 ^ k)"
  define u :: real where "u = 2 powi e"
  have u: "0 < u" by (simp add: u_def)
  have m: "real_of_int m = of_int (sgn m) * real M" by (simp add: M_def sgn_if)
  have v: "\<bar>float_val (Finite m e)\<bar> = real M * u" using u by (simp add: u_def abs_mult M_def)
  have err: "\<bar>real q * 2 ^ k - real M\<bar> \<le> real M / 2 ^ 53"
    unfolding q_def k_def by (rule rounded_error)
  then have "real q * 2 ^ k - real M \<le> real M / 2 ^ 53" by (simp only: abs_le_iff)
  then have twice: "real q * 2 ^ k \<le> 2 * real M" by simp
  have up: "2 powi (e + int k) = u * 2 ^ k" by (simp add: u_def power_int_add)
  have "int (bit_length q) + (e + int k) \<le> 1024"
  proof (cases "q = 0")
    case True
    have "0 < real M" using False by (simp add: M_def)
    then show ?thesis using err True by simp
  next
    case q: False
    then have b: "2 ^ (bit_length q - 1) \<le> q" and "bit_length q \<noteq> 0"
      using bit_length_bounds [of q] by (auto simp: bit_length.simps [of q])
    have "2 powi (int (bit_length q - 1) + (e + int k)) = 2 ^ (bit_length q - 1) * (u * 2 ^ k)"
      by (simp add: power_int_add up [symmetric])
    also have "\<dots> \<le> real q * (u * 2 ^ k)"
      using b u by (intro mult_right_mono) (auto simp flip: of_nat_power simp: of_nat_le_iff [symmetric])
    also have "\<dots> = real q * 2 ^ k * u" by simp
    also have "\<dots> \<le> 2 * real M * u" using twice u by (intro mult_right_mono) auto
    also have "\<dots> < 2 powi 101" using assms v by (simp add: mult.commute)
    finally have "int (bit_length q - 1) + (e + int k) < 101"
      by (rule power_int_le_imp_less_exp [rotated]) simp_all
    then show ?thesis using \<open>bit_length q \<noteq> 0\<close> by linarith
  qed
  then have r: "round_to_double m e = Finite (sgn m * int q) (e + int k)"
    using False by (simp add: round_to_double_def Let_def M_def [symmetric] k_def [symmetric] q_def [symmetric])
  have "float_val (Finite (sgn m * int q) (e + int k)) - float_val (Finite m e)
      = of_int (sgn m) * (real q * 2 ^ k - real M) * u"
    by (simp add: up m u_def [symmetric] algebra_simps)
  then have "\<bar>float_val (Finite (sgn m * int q) (e + int k)) - float_val (Finite m e)\<bar>
      = \<bar>real q * 2 ^ k - real M\<bar> * u"
    using False u by (simp add: abs_mult sgn_if)
  also have "\<dots> \<le> real M / 2 ^ 53 * u" using err u by (intro mult_right_mono) auto
  finally show ?thesis using r v by (intro exI conjI) (assumption, simp)
qed (simp add: round_to_double_def)

lemma double_near:
  assumes "x = 0 \<or> 1 / 2 ^ 100 \<le> \<bar>x\<bar> \<and> \<bar>x\<bar> < 2 ^ 100"
  shows "\<exists>m e. double (Finite m e) \<and> \<bar>float_val (Finite m e) - x\<bar> \<le> \<bar>x\<bar> / 2 ^ 53"
proof (cases "x = 0")
  case True
  then show ?thesis by (intro exI [of _ 0]) simp
next
  case False
  with assms double_near_pos [of "\<bar>x\<bar>"] obtain m e
    where d: "double (Finite m e)" "\<bar>float_val (Finite m e) - \<bar>x\<bar>\<bar> \<le> \<bar>x\<bar> / 2 ^ 53" by blast
  show ?thesis
  proof (cases "0 \<le> x")
    case True
    with d show ?thesis by auto
  next
    case neg: False
    then have "float_val (Finite (- m) e) - x = - (float_val (Finite m e) - \<bar>x\<bar>)" by simp
    then have "\<bar>float_val (Finite (- m) e) - x\<bar> \<le> \<bar>x\<bar> / 2 ^ 53" using d(2) by (simp only: abs_minus_cancel)
    moreover have "double (Finite (- m) e)" using d(1) by simp
    ultimately show ?thesis by blast
  qed
qed

lemma TONToNano_near:
  assumes "\<bar>float_val (Finite m e) * 1000000000 - of_int n\<bar> \<le> of_int \<bar>n\<bar> / 2 ^ 53" and "\<bar>n\<bar> < 2 ^ 51"
  shows "TONToNano unfit (Finite m e) = n"
proof -
  let ?y = "float_val (Finite (m * 1000000000) e)"
  have y: "\<bar>?y - of_int n\<bar> \<le> of_int \<bar>n\<bar> / 2 ^ 53" using assms(1) by (simp add: mult_ac)
  have n: "of_int \<bar>n\<bar> \<le> (2 :: real) ^ 51 - 1"
  proof -
    have "\<bar>n\<bar> \<le> 2 ^ 51 - 1" using assms(2) by simp
    then have "real_of_int \<bar>n\<bar> \<le> of_int (2 ^ 51 - 1)" by (simp only: of_int_le_iff)
    then show ?thesis by simp
  qed
  define N where "N = real_of_int \<bar>n\<bar>"
  have abs_y: "\<bar>?y\<bar> \<le> N + N / 2 ^ 53" using y by (simp only: N_def of_int_abs)
  have small: "\<bar>?y\<bar> < 2 ^ 100" by (rule le_less_trans [OF abs_y]) (use n in \<open>simp add: N_def\<close>)
  from round_to_double_error [OF small] obtain q f where q: "round_to_double (m * 1000000000) e = Finite q f"
    "\<bar>float_val (Finite q f) - ?y\<bar> \<le> \<bar>?y\<bar> / 2 ^ 53" by blast
  have "\<bar>?y\<bar> / 2 ^ 53 \<le> (N + N / 2 ^ 53) / 2 ^ 53" using abs_y by (rule divide_right_mono) simp
  then have "\<bar>float_val (Finite q f) - of_int n\<bar> \<le> (N + N / 2 ^ 53) / 2 ^ 53 + N / 2 ^ 53"
    using q(2) y abs_triangle_ineq [of "float_val (Finite q f) - ?y" "?y - of_int n"]
    unfolding N_def by (simp only: diff_add_cancel add_diff_eq)
  also have "\<dots> < 1 / 2" using n unfolding N_def [symmetric] by simp
  finally have "round_away q f = n" by (rule round_away_near)
  moreover have "in_int64 n" using assms(2) by (auto simp: in_int64_def go_defs abs_less_iff)
  ultimately show ?thesis by (simp add: TONToNano_def times_int_def go_defs q(1))
qed

text \<open>
  C40: Converting a decimal amount is exact below two million TON. When the amount of \<open>n\<close> nanoTON,
  fewer than \<open>2^51\<close> in magnitude, is held in the double nearest to it, as a decimal literal or
  parsed text is, then multiplying, rounding and converting gives back exactly \<open>n\<close>, although the
  double and the product are both inexact; and rendering it prints the amount that was meant.
\<close>

theorem TONToNano_recovers:
  assumes "nearest_double t (of_int n / 1000000000)" and "\<bar>n\<bar> < 2 ^ 51"
  shows "TONToNano unfit t = n \<and> read_amount (NanoToTONString (TONToNano unfit t)) = n"
proof -
  from assms(1) obtain m e where t: "t = Finite m e" by (auto simp: nearest_double_def)
  let ?x = "real_of_int n / 1000000000"
  have range: "?x = 0 \<or> 1 / 2 ^ 100 \<le> \<bar>?x\<bar> \<and> \<bar>?x\<bar> < 2 ^ 100"
  proof (cases "n = 0")
    case False
    then have "1 \<le> \<bar>n\<bar>" by linarith
    then have "1 \<le> real_of_int \<bar>n\<bar>" by simp
    moreover have "real_of_int \<bar>n\<bar> < of_int (2 ^ 51)" using assms(2) by (simp only: of_int_less_iff)
    ultimately show ?thesis by (simp add: abs_divide)
  qed simp
  from double_near [OF range] obtain m' e' where
    d: "double (Finite m' e')" "\<bar>float_val (Finite m' e') - ?x\<bar> \<le> \<bar>?x\<bar> / 2 ^ 53" by blast
  have "\<bar>float_val t - ?x\<bar> \<le> \<bar>?x\<bar> / 2 ^ 53"
    using assms(1) d unfolding nearest_double_def by (meson order_trans)
  then have "\<bar>float_val t - ?x\<bar> * 1000000000 \<le> \<bar>?x\<bar> / 2 ^ 53 * 1000000000" by (intro mult_right_mono) simp_all
  moreover have "\<bar>float_val t * 1000000000 - of_int n\<bar> = \<bar>float_val t - ?x\<bar> * 1000000000"
  proof -
    have "float_val t * 1000000000 - of_int n = (float_val t - ?x) * 1000000000" by (simp add: left_diff_distrib)
    then show ?thesis by (simp only: abs_mult abs_numeral)
  qed
  ultimately have "\<bar>float_val (Finite m e) * 1000000000 - of_int n\<bar> \<le> of_int \<bar>n\<bar> / 2 ^ 53"
    by (simp add: t abs_divide)
  from TONToNano_near [OF this assms(2)] have r: "TONToNano unfit t = n" by (simp add: t)
  moreover have "read_amount (NanoToTONString n) = n"
    using assms(2) amount_reads_back [of n] by (auto simp: in_int64_def go_defs abs_less_iff)
  ultimately show ?thesis by simp
qed

text \<open>
  The test of the repository, and an amount above the bound: the product is rounded to a half and
  then away from it, one nanoTON more than the nearest to the exact product.
\<close>

lemma TONToNano_samples:
  "TONToNano unfit (Finite 5 (-1)) = 2500000000"
  "TONToNano unfit (Finite (-5) (-1)) = -2500000000"
  "TONToNano unfit (Finite 1 (-10)) = 976563"
  by (simp_all add: TONToNano_def times_int_def round_to_double_def round_away_def go_defs bit_length.simps
      in_int64_def div_even_def Let_def)

lemma TONToNano_rounds_twice:
  "round_away (4503730832554314 * 1000000000) (-30) = 4194426194349596"
  "TONToNano unfit (Finite 4503730832554314 (-30)) = 4194426194349597"
  by (simp_all add: TONToNano_def times_int_def round_to_double_def round_away_def go_defs bit_length.simps
      in_int64_def div_even_def Let_def)

theorem TONToNano_recovers_witness:
  "TONToNano (\<lambda>_. 0) (Finite 5 (-1)) = 2500000000"
proof -
  have "nearest_double (Finite 5 (-1)) (of_int 2500000000 / 1000000000)"
    by (auto simp: nearest_double_def power_int_def)
  from TONToNano_recovers [OF this] show ?thesis by simp
qed

end
