(* ===== verification/Config.thy ===== *)
theory Config
  imports Go_Strings
begin

text \<open>
  internal/config/config.go: the configuration read from environment variables.  The environment
  is a function from names to values, empty for a variable that is not set, as \<open>os.Getenv\<close>
  has it.  Numbers of seconds become durations by a 64-bit multiplication, which can wrap.
\<close>

section \<open>More of strings and strconv\<close>

text \<open>\<open>strings.Split\<close> at one character.\<close>

fun split_at :: "char \<Rightarrow> string \<Rightarrow> string list" where
  "split_at c [] = [[]]"
| "split_at c (x # xs) = (if x = c then [] # split_at c xs
     else (case split_at c xs of y # ys \<Rightarrow> (x # y) # ys | [] \<Rightarrow> [[x]]))"

definition lower :: "char \<Rightarrow> char" where
  "lower c = (if 65 \<le> code c \<and> code c \<le> 90 then char_of (code c + 32) else c)"

text \<open>
  \<open>strings.EqualFold\<close> with an ASCII text on the right.  Two letters have a non-ASCII folding
  partner: the long s (U+017F) and the Kelvin sign (U+212A), given here by their UTF-8 bytes.
\<close>

fun EqualFold :: "string \<Rightarrow> string \<Rightarrow> bool" where
  "EqualFold [] t = (t = [])"
| "EqualFold (c # s) [] = False"
| "EqualFold (c # s) (d # t) =
     (if lower c = lower d then EqualFold s t
      else case (c # s) of
          CHR 0xC5 # CHR 0xBF # rest \<Rightarrow> lower d = CHR ''s'' \<and> EqualFold rest t
        | CHR 0xE2 # CHR 0x84 # CHR 0xAA # rest \<Rightarrow> lower d = CHR ''k'' \<and> EqualFold rest t
        | _ \<Rightarrow> False)"

definition ParseBool :: "string \<Rightarrow> bool option" where
  "ParseBool s =
     (if s \<in> {''1'', ''t'', ''T'', ''TRUE'', ''true'', ''True''} then Some True
      else if s \<in> {''0'', ''f'', ''F'', ''FALSE'', ''false'', ''False''} then Some False
      else None)"

section \<open>The configuration\<close>

record Config =
  Addr :: string
  Env :: string
  AllowedOrigins :: "string list"
  DatabaseURL :: string
  DataDir :: string
  TrustProxy :: bool
  TONReceiving :: string
  TONAPIBase :: string
  TONAPIKey :: string
  Network :: string
  DefaultTTL :: duration
  CreateAPIKey :: string
  CfgMaxTTL :: duration
  MaxPending :: int
  MaxPendingPerAddr :: int
  PollEnabled :: bool
  PollInterval :: duration
  PollConcurrency :: int
  WebhookURL :: string
  WebhookSecret :: string

type_synonym environment = "string \<Rightarrow> string"

definition IsProd :: "Config \<Rightarrow> bool" where
  "IsProd c \<longleftrightarrow> Env c = ''prod'' \<or> Env c = ''production''"

definition IsTestnet :: "Config \<Rightarrow> bool" where
  "IsTestnet c = EqualFold (Network c) ''testnet''"

definition getenv :: "environment \<Rightarrow> string \<Rightarrow> string \<Rightarrow> string" where
  "getenv e k dflt = (if e k \<noteq> [] then e k else dflt)"

fun firstNonEmpty :: "string list \<Rightarrow> string" where
  "firstNonEmpty [] = []"
| "firstNonEmpty (x # xs) = (if x \<noteq> [] then x else firstNonEmpty xs)"

definition portAddr :: "string \<Rightarrow> string" where
  "portAddr p = (if p = [] then [] else if HasPrefix p '':'' then p else '':'' @ p)"

definition atoiDef :: "string \<Rightarrow> int \<Rightarrow> int" where
  "atoiDef s dflt = (if s = [] then dflt
     else case Atoi s of (n, None) \<Rightarrow> n | (_, Some _) \<Rightarrow> dflt)"

definition boolDef :: "string \<Rightarrow> bool \<Rightarrow> bool" where
  "boolDef s dflt = (if s = [] then dflt
     else case ParseBool s of Some b \<Rightarrow> b | None \<Rightarrow> dflt)"

definition splitTrim :: "string \<Rightarrow> string list" where
  "splitTrim s = filter (\<lambda>p. p \<noteq> []) (map TrimSpace (split_at CHR '','' s))"

text \<open>\<open>time.Duration(n) * time.Second\<close>.\<close>

definition seconds :: "int \<Rightarrow> duration" where
  "seconds n = wrap64 (n * Second)"

definition Load :: "environment \<Rightarrow> Config" where
  "Load e = \<lparr>
     Addr = firstNonEmpty [e ''TON_HTTP_ADDR'', portAddr (e ''PORT''), '':8080''],
     Env = getenv e ''TON_ENV'' ''dev'',
     AllowedOrigins = splitTrim (getenv e ''TON_ALLOWED_ORIGINS'' ''http://localhost:5173,http://localhost:4173''),
     DatabaseURL = e ''TON_DATABASE_URL'',
     DataDir = getenv e ''TON_DATA_DIR'' ''data'',
     TrustProxy = boolDef (e ''TON_TRUST_PROXY'') False,
     TONReceiving = e ''TON_RECEIVING_ADDRESS'',
     TONAPIBase = getenv e ''TON_API_BASE'' ''https://toncenter.com/api/v2'',
     TONAPIKey = e ''TON_API_KEY'',
     Network = getenv e ''TON_NETWORK'' ''mainnet'',
     DefaultTTL = seconds (atoiDef (e ''TON_DEFAULT_TTL_SECONDS'') 900),
     CreateAPIKey = e ''TON_CREATE_API_KEY'',
     CfgMaxTTL = seconds (atoiDef (e ''TON_MAX_TTL_SECONDS'') 86400),
     MaxPending = atoiDef (e ''TON_MAX_PENDING'') 10000,
     MaxPendingPerAddr = atoiDef (e ''TON_MAX_PENDING_PER_ADDRESS'') 200,
     PollEnabled = boolDef (e ''TON_POLL_ENABLED'') True,
     PollInterval = seconds (atoiDef (e ''TON_POLL_INTERVAL_SECONDS'') 10),
     PollConcurrency = atoiDef (e ''TON_POLL_CONCURRENCY'') 4,
     WebhookURL = e ''TON_WEBHOOK_URL'',
     WebhookSecret = e ''TON_WEBHOOK_SECRET''\<rparr>"

section \<open>Lemmas\<close>

lemma split_at_nonempty [simp]: "split_at c s \<noteq> []"
  by (induction s) (auto split: list.splits)

lemma split_at_pieces: "p \<in> set (split_at c s) \<Longrightarrow> c \<notin> set p"
  by (induction s arbitrary: p) (auto split: list.splits if_splits)

lemma split_at_join: "c \<notin> set p \<Longrightarrow> split_at c (p @ c # s) = p # split_at c s"
  by (induction p) auto

lemma split_at_single: "c \<notin> set p \<Longrightarrow> split_at c p = [p]"
  by (induction p) auto

lemma seconds_id: "in_int64 (n * Second) \<Longrightarrow> seconds n = n * Second"
  by (simp add: seconds_def)

lemma ParseInt_range: "in_int64 (fst (ParseInt 64 s))"
  by (auto simp: ParseInt_def in_int64_def go_defs Let_def split: sum.splits num_error.splits)

lemma atoiDef_range: "in_int64 d \<Longrightarrow> in_int64 (atoiDef s d)"
  using ParseInt_range [of s] by (auto simp: atoiDef_def Atoi_def split: prod.splits option.splits)

lemma Load_empty: "Load (\<lambda>_. []) = \<lparr>Addr = '':8080'', Env = ''dev'',
    AllowedOrigins = [''http://localhost:5173'', ''http://localhost:4173''], DatabaseURL = [], DataDir = ''data'',
    TrustProxy = False, TONReceiving = [], TONAPIBase = ''https://toncenter.com/api/v2'', TONAPIKey = [],
    Network = ''mainnet'', DefaultTTL = 15 * Minute, CreateAPIKey = [], CfgMaxTTL = 24 * Hour, MaxPending = 10000,
    MaxPendingPerAddr = 200, PollEnabled = True, PollInterval = 10 * Second, PollConcurrency = 4,
    WebhookURL = [], WebhookSecret = []\<rparr>"
proof -
  have "splitTrim ''http://localhost:5173,http://localhost:4173''
      = [''http://localhost:5173'', ''http://localhost:4173'']" by code_simp
  then show ?thesis
    by (simp add: Load_def getenv_def portAddr_def atoiDef_def boolDef_def seconds_def in_int64_def go_defs)
qed

end
