(* ===== verification/Json_Text.thy ===== *)
theory Json_Text
  imports Go_Strings
begin

text \<open>
  The text level of \<open>encoding/json\<close> (Go 1.26): UTF-8 as \<open>unicode/utf8\<close> reads and writes it,
  string literals as \<open>Marshal\<close> quotes them, as the scanner delimits them and as
  \<open>unquote\<close> reads them back.  The lemmas: what is quoted is delimited and reads back as the
  string with its invalid bytes replaced (so unchanged when it is valid UTF-8), every literal the
  scanner accepts can be unquoted, and what unquoting yields is valid UTF-8.
\<close>

section \<open>UTF-8\<close>

definition cont_byte :: "char \<Rightarrow> bool" where
  "cont_byte c \<longleftrightarrow> 0x80 \<le> code c \<and> code c \<le> 0xBF"

text \<open>By the first byte: the length of the encoding and the range of its second byte.\<close>

definition rune_shape :: "char \<Rightarrow> (nat \<times> nat \<times> nat) option" where
  "rune_shape c =
     (let b = code c in
      if b < 0x80 then Some (1, 0, 0)
      else if b < 0xC2 then None
      else if b < 0xE0 then Some (2, 0x80, 0xBF)
      else if b = 0xE0 then Some (3, 0xA0, 0xBF)
      else if b = 0xED then Some (3, 0x80, 0x9F)
      else if b < 0xF0 then Some (3, 0x80, 0xBF)
      else if b = 0xF0 then Some (4, 0x90, 0xBF)
      else if b < 0xF4 then Some (4, 0x80, 0xBF)
      else if b = 0xF4 then Some (4, 0x80, 0x8F)
      else None)"

text \<open>The length of the valid encoding a string starts with, 0 if there is none.\<close>

definition rune_len :: "string \<Rightarrow> nat" where
  "rune_len s =
     (case s of [] \<Rightarrow> 0
      | c # cs \<Rightarrow>
          (case rune_shape c of
             None \<Rightarrow> 0
           | Some (n, lo, hi) \<Rightarrow>
               if n = 1 then 1
               else if n - 1 \<le> length cs \<and> lo \<le> code (hd cs) \<and> code (hd cs) \<le> hi
                 \<and> list_all cont_byte (take (n - 1) cs) then n
               else 0))"

text \<open>
  The units a \<open>range\<close> loop over a string visits: the valid encodings, and single bytes where
  there is none.
\<close>

definition unit_len :: "string \<Rightarrow> nat" where
  "unit_len s = max 1 (rune_len s)"

function runes :: "string \<Rightarrow> string list" where
  "runes s = (if s = [] then [] else take (unit_len s) s # runes (drop (unit_len s) s))"
  by pat_completeness auto
termination by (relation "measure length") (auto simp: unit_len_def)

declare runes.simps [simp del]

definition invalid_unit :: "string \<Rightarrow> bool" where
  "invalid_unit u \<longleftrightarrow> (case u of [c] \<Rightarrow> 0x80 \<le> code c | _ \<Rightarrow> False)"

definition valid_utf8 :: "string \<Rightarrow> bool" where
  "valid_utf8 s \<longleftrightarrow> list_all (\<lambda>u. \<not> invalid_unit u) (runes s)"

text \<open>U+FFFD stands in for an invalid byte.\<close>

definition replacement :: string where
  "replacement = [CHR 0xEF, CHR 0xBF, CHR 0xBD]"

definition fix_unit :: "string \<Rightarrow> string" where
  "fix_unit u = (if invalid_unit u then replacement else u)"

definition ToValidUTF8 :: "string \<Rightarrow> string" where
  "ToValidUTF8 s = concat (map fix_unit (runes s))"

definition EncodeRune :: "nat \<Rightarrow> string" where
  "EncodeRune r =
     (if r < 0x80 then [char_of r]
      else if r < 0x800 then [char_of (0xC0 + r div 64), char_of (0x80 + r mod 64)]
      else if r < 0xD800 \<or> 0xE000 \<le> r \<and> r < 0x10000 then
        [char_of (0xE0 + r div 4096), char_of (0x80 + r div 64 mod 64), char_of (0x80 + r mod 64)]
      else if 0x10000 \<le> r \<and> r < 0x110000 then
        [char_of (0xF0 + r div 262144), char_of (0x80 + r div 4096 mod 64),
         char_of (0x80 + r div 64 mod 64), char_of (0x80 + r mod 64)]
      else replacement)"

subsection \<open>Units\<close>

lemma code_inj: "code c = code d \<Longrightarrow> c = d"
  by (simp add: code_def)

lemma code_less [simp]: "code c < 256"
  by (simp add: code_def)

lemma code_char_of [simp]: "n < 256 \<Longrightarrow> code (char_of n) = n"
  by (simp add: code_def)

lemma rune_shape_len: "rune_shape c = Some (n, lo, hi) \<Longrightarrow> (n = 1 \<longleftrightarrow> code c < 0x80) \<and> 1 \<le> n"
  by (auto simp: rune_shape_def Let_def split: if_splits)

lemma rune_len_le: "rune_len s \<le> length s"
  by (auto simp: rune_len_def split: list.splits option.splits)

lemma rune_len_append: "0 < rune_len s \<Longrightarrow> rune_len (s @ t) = rune_len s"
proof (cases s)
  case (Cons c cs)
  assume pos: "0 < rune_len s"
  with Cons obtain n lo hi where sh: "rune_shape c = Some (n, lo, hi)"
    by (auto simp: rune_len_def split: option.splits)
  show ?thesis
  proof (cases "n = 1")
    case False
    with pos Cons sh have "n - 1 \<le> length cs" by (auto simp: rune_len_def split: if_splits)
    moreover have "cs \<noteq> []" using calculation False rune_shape_len [OF sh] by auto
    ultimately show ?thesis using Cons sh False by (simp add: rune_len_def)
  qed (use Cons sh in \<open>simp add: rune_len_def\<close>)
qed (simp add: rune_len_def)

lemma rune_len_take: "rune_len (take (rune_len s) s) = rune_len s"
proof (cases s)
  case (Cons c cs)
  show ?thesis
  proof (cases "rune_len s = 0")
    case False
    with Cons obtain n lo hi where sh: "rune_shape c = Some (n, lo, hi)"
      by (auto simp: rune_len_def split: option.splits)
    with False Cons have n: "rune_len s = n" by (auto simp: rune_len_def split: if_splits)
    then obtain k where k: "n = Suc k" using rune_shape_len [OF sh] by (cases n) auto
    show ?thesis
    proof (cases "n = 1")
      case False
      then obtain j where j: "k = Suc j" using k by (cases k) auto
      from False n \<open>rune_len s \<noteq> 0\<close> Cons sh have "k \<le> length cs" "lo \<le> code (hd cs)" "code (hd cs) \<le> hi"
        "list_all cont_byte (take k cs)" by (auto simp: rune_len_def k split: if_splits)
      then show ?thesis using n Cons sh False k j by (simp add: rune_len_def hd_take)
    qed (use n Cons sh in \<open>simp add: rune_len_def\<close>)
  qed (simp add: rune_len_def)
qed (simp add: rune_len_def)

text \<open>What one step over a non-empty string consumes: a well-formed encoding, or an invalid byte.\<close>

definition unit_ok :: "string \<Rightarrow> bool" where
  "unit_ok u \<longleftrightarrow> u \<noteq> [] \<and> (rune_len u = length u \<or> invalid_unit u)"

lemma runes_Nil [simp]: "runes [] = []"
  by (simp add: runes.simps)

lemma rune_len_ascii: "code c < 0x80 \<Longrightarrow> rune_len (c # cs) = 1"
  by (simp add: rune_len_def rune_shape_def)

lemma unit_ok_head: "s \<noteq> [] \<Longrightarrow> unit_ok (take (unit_len s) s)"
proof (cases s)
  case (Cons c cs)
  show ?thesis
  proof (cases "rune_len s = 0")
    case True
    then have "\<not> code c < 0x80" using Cons rune_len_ascii [of c cs] by auto
    with True Cons show ?thesis by (simp add: unit_ok_def unit_len_def invalid_unit_def)
  next
    case False
    then have "unit_len s = rune_len s" by (simp add: unit_len_def)
    then show ?thesis using False rune_len_take [of s] rune_len_le [of s] Cons
      by (auto simp: unit_ok_def)
  qed
qed simp

lemma runes_unit_ok: "u \<in> set (runes s) \<Longrightarrow> unit_ok u"
  by (induction s rule: runes.induct) (metis empty_iff list.set(1) runes.simps set_ConsD unit_ok_head)

lemma concat_runes [simp]: "concat (runes s) = s"
  by (induction s rule: runes.induct) (subst runes.simps, simp)

lemma ToValidUTF8_valid: "valid_utf8 s \<Longrightarrow> ToValidUTF8 s = s"
proof -
  assume "valid_utf8 s"
  then have "map fix_unit (runes s) = runes s"
    by (intro map_idI) (auto simp: valid_utf8_def fix_unit_def list_all_iff)
  then show ?thesis by (simp add: ToValidUTF8_def)
qed

lemma valid_unit_append:
  assumes "unit_ok u" and "\<not> invalid_unit u"
  shows "runes (u @ t) = u # runes t"
proof -
  from assms have u: "u \<noteq> []" "rune_len u = length u" by (auto simp: unit_ok_def)
  then have "unit_len (u @ t) = length u" using rune_len_append [of u t] by (cases u) (simp_all add: unit_len_def)
  with u show ?thesis by (subst runes.simps) simp
qed

lemma runes_concat:
  "(\<And>u. u \<in> set us \<Longrightarrow> unit_ok u \<and> \<not> invalid_unit u) \<Longrightarrow> runes (concat us @ t) = us @ runes t"
  by (induction us) (simp_all add: valid_unit_append)

lemma valid_utf8_Nil [simp]: "valid_utf8 []"
  by (simp add: valid_utf8_def)

lemma valid_utf8_append: "valid_utf8 s \<Longrightarrow> valid_utf8 t \<Longrightarrow> valid_utf8 (s @ t)"
proof -
  assume s: "valid_utf8 s" and t: "valid_utf8 t"
  have "runes (concat (runes s) @ t) = runes s @ runes t"
    using s runes_unit_ok by (intro runes_concat) (auto simp: valid_utf8_def list_all_iff)
  with s t show ?thesis by (simp add: valid_utf8_def)
qed

lemma valid_utf8_unit: "unit_ok u \<Longrightarrow> \<not> invalid_unit u \<Longrightarrow> valid_utf8 u"
  using valid_unit_append [of u "[]"] by (simp add: valid_utf8_def)

lemma replacement_ok: "unit_ok replacement \<and> \<not> invalid_unit replacement"
  by (simp add: unit_ok_def replacement_def invalid_unit_def rune_len_def rune_shape_def code_def cont_byte_def)

lemma fix_unit_valid: "unit_ok u \<Longrightarrow> valid_utf8 (fix_unit u)"
  using replacement_ok by (auto simp: fix_unit_def valid_utf8_unit)

lemma valid_ascii: "list_all (\<lambda>c. code c < 0x80) s \<Longrightarrow> valid_utf8 s"
proof (induction s)
  case (Cons c s)
  then have "unit_ok [c]" "\<not> invalid_unit [c]"
    by (simp_all add: unit_ok_def invalid_unit_def rune_len_ascii)
  then have "valid_utf8 [c]" by (rule valid_utf8_unit)
  with Cons show ?case using valid_utf8_append [of "[c]" s] by simp
qed simp

lemma valid_graphic: "(\<And>c. c \<in> set s \<Longrightarrow> graphic c) \<Longrightarrow> valid_utf8 s"
  by (rule valid_ascii) (fastforce simp: list_all_iff graphic_def)

lemma two_bytes:
  fixes a b :: nat
  assumes "2 \<le> a" and "a < 32" and "b < 64"
  shows "unit_ok [char_of (0xC0 + a), char_of (0x80 + b)]"
proof -
  have "rune_shape (char_of (0xC0 + a)) = Some (2, 0x80, 0xBF)" using assms by (simp add: rune_shape_def Let_def)
  with assms show ?thesis by (simp add: unit_ok_def rune_len_def cont_byte_def)
qed

lemma three_bytes:
  fixes a b c :: nat
  assumes "a < 16" and "b < 64" and "c < 64" and "a = 0 \<Longrightarrow> 32 \<le> b" and "a = 13 \<Longrightarrow> b < 32"
  shows "unit_ok [char_of (0xE0 + a), char_of (0x80 + b), char_of (0x80 + c)]"
proof -
  obtain lo hi where "rune_shape (char_of (0xE0 + a)) = Some (3, lo, hi)" "lo \<le> 0x80 + b" "0x80 + b \<le> hi"
  proof (cases "a = 0 \<or> a = 13")
    case True
    then show ?thesis using assms that by (auto simp: rune_shape_def)
  next
    case False
    then show ?thesis using assms that [of "0x80" "0xBF"] by (simp add: rune_shape_def Let_def)
  qed
  with assms show ?thesis by (simp add: unit_ok_def rune_len_def cont_byte_def)
qed

lemma four_bytes:
  fixes a b c d :: nat
  assumes "a < 5" and "b < 64" and "c < 64" and "d < 64" and "a = 0 \<Longrightarrow> 16 \<le> b" and "a = 4 \<Longrightarrow> b < 16"
  shows "unit_ok [char_of (0xF0 + a), char_of (0x80 + b), char_of (0x80 + c), char_of (0x80 + d)]"
proof -
  obtain lo hi where "rune_shape (char_of (0xF0 + a)) = Some (4, lo, hi)" "lo \<le> 0x80 + b" "0x80 + b \<le> hi"
  proof (cases "a = 0 \<or> a = 4")
    case True
    then show ?thesis using assms that by (auto simp: rune_shape_def)
  next
    case False
    then show ?thesis using assms that [of "0x80" "0xBF"] by (simp add: rune_shape_def Let_def)
  qed
  with assms show ?thesis by (simp add: unit_ok_def rune_len_def cont_byte_def)
qed

lemma EncodeRune_valid: "valid_utf8 (EncodeRune r)"
proof (rule valid_utf8_unit)
  have d: "r div 64 = 64 * (r div 4096) + r div 64 mod 64" "r div 4096 = 64 * (r div 262144) + r div 4096 mod 64"
    using div_mult_mod_eq [of "r div 64" 64] div_mult_mod_eq [of "r div 4096" 64]
    by (simp_all add: div_mult2_eq [symmetric])
  consider "r < 0x80" | "0x80 \<le> r" "r < 0x800" | "0x800 \<le> r" "r < 0xD800 \<or> 0xE000 \<le> r \<and> r < 0x10000"
    | "0x10000 \<le> r" "r < 0x110000" | "0xD800 \<le> r" "r < 0xE000" | "0x110000 \<le> r" by linarith
  then have "unit_ok (EncodeRune r) \<and> \<not> invalid_unit (EncodeRune r)"
  proof cases
    case 1
    then show ?thesis by (simp add: EncodeRune_def unit_ok_def invalid_unit_def rune_len_def rune_shape_def)
  next
    case 2
    then have "2 \<le> r div 64" "r div 64 < 32" "r mod 64 < 64" by auto
    then have "unit_ok [char_of (0xC0 + r div 64), char_of (0x80 + r mod 64)]" by (rule two_bytes)
    with 2 show ?thesis by (simp add: EncodeRune_def invalid_unit_def)
  next
    case 3
    then have "r div 4096 < 16" "r div 64 mod 64 < 64" "r mod 64 < 64" by auto
    moreover have "32 \<le> r div 64 mod 64" if "r div 4096 = 0"
      using div_le_mono [OF 3(1), of 64] that d(1) by linarith
    moreover have "r div 64 mod 64 < 32" if "r div 4096 = 13"
    proof -
      have "r < 0xD800" using 3(2) that div_le_mono [of "0xE000" r 4096] by linarith
      then have "r div 64 < 0xD800 div 64" by (intro less_mult_imp_div_less) simp
      with that d(1) show ?thesis by simp
    qed
    ultimately have "unit_ok [char_of (0xE0 + r div 4096), char_of (0x80 + r div 64 mod 64), char_of (0x80 + r mod 64)]"
      by (rule three_bytes)
    with 3 show ?thesis by (auto simp: EncodeRune_def invalid_unit_def)
  next
    case 4
    then have "r div 262144 < 5" "r div 4096 mod 64 < 64" "r div 64 mod 64 < 64" "r mod 64 < 64" by auto
    moreover have "16 \<le> r div 4096 mod 64" if "r div 262144 = 0"
      using div_le_mono [OF 4(1), of 4096] that d(2) by linarith
    moreover have "r div 4096 mod 64 < 16" if "r div 262144 = 4"
    proof -
      have "r div 4096 < 272" using 4(2) by (intro less_mult_imp_div_less) simp
      with that d(2) show ?thesis by simp
    qed
    ultimately have "unit_ok [char_of (0xF0 + r div 262144), char_of (0x80 + r div 4096 mod 64),
        char_of (0x80 + r div 64 mod 64), char_of (0x80 + r mod 64)]"
      by (rule four_bytes)
    with 4 show ?thesis by (simp add: EncodeRune_def invalid_unit_def)
  qed (use replacement_ok in \<open>simp_all add: EncodeRune_def\<close>)
  then show "unit_ok (EncodeRune r)" and "\<not> invalid_unit (EncodeRune r)" by blast+
qed

section \<open>String literals\<close>

abbreviation dquote :: char where "dquote \<equiv> CHR 0x22"
abbreviation bslash :: char where "bslash \<equiv> CHR 0x5C"

text \<open>\<open>appendString\<close> with HTML escaping, the default: per unit of the string.\<close>

definition quote_unit :: "string \<Rightarrow> string" where
  "quote_unit u =
     (case u of
        [c] \<Rightarrow>
          (if 0x80 \<le> code c then bslash # ''ufffd''
           else if c = dquote \<or> c = bslash then [bslash, c]
           else if code c = 8 then [bslash, CHR ''b'']
           else if code c = 9 then [bslash, CHR ''t'']
           else if code c = 10 then [bslash, CHR ''n'']
           else if code c = 12 then [bslash, CHR ''f'']
           else if code c = 13 then [bslash, CHR ''r'']
           else if code c < 32 \<or> c = CHR ''<'' \<or> c = CHR ''>'' \<or> c = CHR ''&''
             then bslash # ''u00'' @ [hex_digits ! (code c div 16), hex_digits ! (code c mod 16)]
           else [c])
      | _ \<Rightarrow>
          (if u = [CHR 0xE2, CHR 0x80, CHR 0xA8] then bslash # ''u2028''
           else if u = [CHR 0xE2, CHR 0x80, CHR 0xA9] then bslash # ''u2029''
           else u))"

definition quote :: "string \<Rightarrow> string" where
  "quote s = concat (map quote_unit (runes s))"

text \<open>\<open>unquote\<close>: the four digits of an escape, one step, and the loop.\<close>

definition hex4 :: "string \<Rightarrow> nat option" where
  "hex4 s =
     (case s of
        a # b # c # d # t \<Rightarrow>
          (case (hex_val a, hex_val b, hex_val c, hex_val d) of
             (Some w, Some x, Some y, Some z) \<Rightarrow> Some (4096 * w + 256 * x + 16 * y + z)
           | _ \<Rightarrow> None)
      | _ \<Rightarrow> None)"

definition unescape_u :: "string \<Rightarrow> (string \<times> nat) option" where
  "unescape_u r =
     (case hex4 r of
        None \<Rightarrow> None
      | Some x \<Rightarrow>
          if 0xD800 \<le> x \<and> x < 0xE000 then
            (case hex4 (drop 6 r) of
               Some y \<Rightarrow>
                 if take 2 (drop 4 r) = [bslash, CHR ''u''] \<and> x < 0xDC00 \<and> 0xDC00 \<le> y \<and> y < 0xE000
                 then Some (EncodeRune (0x10000 + (x - 0xD800) * 1024 + (y - 0xDC00)), 12)
                 else Some (replacement, 6)
             | None \<Rightarrow> Some (replacement, 6))
          else Some (EncodeRune x, 6))"

definition unquote_step :: "string \<Rightarrow> (string \<times> nat) option" where
  "unquote_step s =
     (case s of
        [] \<Rightarrow> None
      | c # cs \<Rightarrow>
          if c = bslash then
            (case cs of
               [] \<Rightarrow> None
             | e # r \<Rightarrow>
                 if e = dquote \<or> e = bslash \<or> e = CHR ''/'' \<or> e = CHR 0x27 then Some ([e], 2)
                 else if e = CHR ''b'' then Some ([CHR 0x08], 2)
                 else if e = CHR ''f'' then Some ([CHR 0x0C], 2)
                 else if e = CHR ''n'' then Some ([CHR 0x0A], 2)
                 else if e = CHR ''r'' then Some ([CHR 0x0D], 2)
                 else if e = CHR ''t'' then Some ([CHR 0x09], 2)
                 else if e = CHR ''u'' then unescape_u r
                 else None)
          else if c = dquote \<or> code c < 32 then None
          else Some (fix_unit (take (unit_len s) s), unit_len s))"

function unquote :: "string \<Rightarrow> string option" where
  "unquote s =
     (if s = [] then Some []
      else case unquote_step s of
          None \<Rightarrow> None
        | Some (out, n) \<Rightarrow> map_option ((@) out) (unquote (drop (max 1 n) s)))"
  by pat_completeness auto
termination by (relation "measure length") auto

declare unquote.simps [simp del]

text \<open>
  The scanner inside a literal: the bytes up to the closing quote, and what follows it.
\<close>

definition is_hex :: "char \<Rightarrow> bool" where
  "is_hex c \<longleftrightarrow> hex_val c \<noteq> None"

function scan_string :: "string \<Rightarrow> (string \<times> string) option" where
  "scan_string [] = None"
| "scan_string (c # cs) =
     (if c = dquote then Some ([], cs)
      else if c = bslash then
        (case cs of
           [] \<Rightarrow> None
         | e # r \<Rightarrow>
             if e = CHR ''u'' then
               (if 4 \<le> length r \<and> list_all is_hex (take 4 r)
                then map_option (apfst ((@) (c # e # take 4 r))) (scan_string (drop 4 r)) else None)
             else if e \<in> set (''bfnrt/'' @ [bslash, dquote])
             then map_option (apfst ((@) [c, e])) (scan_string r)
             else None)
      else if code c < 32 then None
      else map_option (apfst ((@) [c])) (scan_string cs))"
  by pat_completeness auto
termination by (relation "measure length") auto

declare scan_string.simps(2) [simp del]

subsection \<open>What is quoted reads back\<close>

lemma unquote_Nil [simp]: "unquote [] = Some []"
  by (simp add: unquote.simps)

lemma char_of_code [simp]: "char_of (code c) = c"
  by (simp add: code_def)

lemma multi_byte:
  assumes "unit_ok u" and "\<nexists>c. u = [c]"
  shows "rune_len u = length u \<and> 2 \<le> length u \<and> list_all (\<lambda>c. 0x80 \<le> code c) u \<and> \<not> invalid_unit u"
proof -
  from assms have i: "\<not> invalid_unit u" by (auto simp: invalid_unit_def split: list.splits)
  with assms(1) have l: "rune_len u = length u" and "u \<noteq> []" by (auto simp: unit_ok_def)
  then obtain c cs where u: "u = c # cs" by (cases u) auto
  with assms(2) have cs: "cs \<noteq> []" by auto
  from l u obtain n lo hi where sh: "rune_shape c = Some (n, lo, hi)"
    by (auto simp: rune_len_def split: option.splits)
  with l u cs have n: "n \<noteq> 1" by (auto simp: rune_len_def)
  from l u sh n have "n = length u" "list_all cont_byte (take (n - 1) cs)"
    by (auto simp: rune_len_def split: if_splits)
  with u have "list_all cont_byte cs" by simp
  moreover have "\<not> code c < 0x80" using rune_shape_len [OF sh] n by simp
  moreover have "2 \<le> length u" using u cs by (cases cs) auto
  ultimately show ?thesis using l i u by (auto simp: list_all_iff cont_byte_def)
qed

lemma unit_len_append: "unit_ok u \<Longrightarrow> \<not> invalid_unit u \<Longrightarrow> unit_len (u @ t) = length u"
  using rune_len_append [of u t] by (cases u) (auto simp: unit_ok_def unit_len_def)

lemma hex_val_zero [simp]: "hex_val (CHR ''0'') = Some 0"
  by code_simp

lemma hex4_ascii:
  "code c < 0x80 \<Longrightarrow> hex4 (CHR ''0'' # CHR ''0'' # hex_digits ! (code c div 16) # hex_digits ! (code c mod 16) # t) = Some (code c)"
proof -
  assume "code c < 0x80"
  then have "hex_val (hex_digits ! (code c div 16)) = Some (code c div 16)"
    "hex_val (hex_digits ! (code c mod 16)) = Some (code c mod 16)" by (simp_all add: hex_val_nth)
  then show ?thesis by (simp add: hex4_def)
qed

lemma hex4_literals [simp]:
  "hex4 (CHR ''f'' # CHR ''f'' # CHR ''f'' # CHR ''d'' # t) = Some 0xFFFD"
  "hex4 (CHR ''2'' # CHR ''0'' # CHR ''2'' # CHR ''8'' # t) = Some 0x2028"
  "hex4 (CHR ''2'' # CHR ''0'' # CHR ''2'' # CHR ''9'' # t) = Some 0x2029"
  by (simp_all add: hex4_def hex_val_def hex_digits_def)

lemma char_literals:
  "char_of (239 :: nat) = CHR 0xEF" "char_of (191 :: nat) = CHR 0xBF" "char_of (189 :: nat) = CHR 0xBD"
  "char_of (226 :: nat) = CHR 0xE2" "char_of (128 :: nat) = CHR 0x80" "char_of (168 :: nat) = CHR 0xA8"
  "char_of (169 :: nat) = CHR 0xA9"
  by (rule code_inj, simp add: code_def)+

lemma EncodeRune_literals [simp]:
  "EncodeRune 0xFFFD = replacement" "EncodeRune 0x2028 = [CHR 0xE2, CHR 0x80, CHR 0xA8]"
  "EncodeRune 0x2029 = [CHR 0xE2, CHR 0x80, CHR 0xA9]"
  by (simp_all add: EncodeRune_def replacement_def char_literals)

lemma control_chars:
  "char_of (8 :: nat) = CHR 0x08" "char_of (9 :: nat) = CHR 0x09" "char_of (10 :: nat) = CHR 0x0A"
  "char_of (12 :: nat) = CHR 0x0C" "char_of (13 :: nat) = CHR 0x0D"
  by code_simp+

lemma lit_codes:
  "code dquote = 34" "code bslash = 92" "code CHR 0x08 = 8" "code CHR 0x09 = 9" "code CHR 0x0A = 10"
  "code CHR 0x0C = 12" "code CHR 0x0D = 13"
  by (simp_all add: code_def)

lemma unquote_step_quote:
  assumes "unit_ok u"
  shows "unquote_step (quote_unit u @ t) = Some (fix_unit u, length (quote_unit u))"
proof (cases "\<exists>c. u = [c]")
  case True
  then obtain c where u: "u = [c]" by blast
  show ?thesis
  proof (cases "0x80 \<le> code c")
    case True
    then show ?thesis using u
      by (simp add: quote_unit_def unquote_step_def unescape_u_def fix_unit_def invalid_unit_def)
  next
    case False
    then have f: "fix_unit u = [c]" and ok: "\<not> invalid_unit u" by (simp_all add: u fix_unit_def invalid_unit_def)
    have plainc: "unquote_step ([c] @ t) = Some ([c], 1)" if "c \<noteq> bslash" "c \<noteq> dquote" "\<not> code c < 32"
      using that unit_len_append [OF assms ok, of t] f u by (simp add: unquote_step_def)
    have hesc: "unescape_u (CHR ''0'' # CHR ''0'' # hex_digits ! (code c div 16) # hex_digits ! (code c mod 16) # t)
      = Some ([c], 6)" using hex4_ascii [of c t] False by (simp add: unescape_u_def EncodeRune_def)
    consider (lit) "c \<in> {dquote, bslash, CHR 0x08, CHR 0x09, CHR 0x0A, CHR 0x0C, CHR 0x0D}"
      | (esc) "quote_unit [c] = bslash # ''u00'' @ [hex_digits ! (code c div 16), hex_digits ! (code c mod 16)]"
      | (plain) "quote_unit [c] = [c]" "c \<noteq> bslash" "c \<noteq> dquote" "\<not> code c < 32"
    proof (cases "c \<in> {dquote, bslash, CHR 0x08, CHR 0x09, CHR 0x0A, CHR 0x0C, CHR 0x0D}")
      case True
      then show ?thesis using that(1) by blast
    next
      case no: False
      have "code c \<noteq> k" if "c \<noteq> char_of k" for k using that char_of_code [of c] by metis
      from this [of 8] this [of 9] this [of 10] this [of 12] this [of 13] no
      have "code c \<noteq> 8" "code c \<noteq> 9" "code c \<noteq> 10" "code c \<noteq> 12" "code c \<noteq> 13"
        by (simp_all add: control_chars)
      then show ?thesis using no False that(2,3)
        by (cases "code c < 32 \<or> c = CHR ''<'' \<or> c = CHR ''>'' \<or> c = CHR ''&''") (auto simp: quote_unit_def)
    qed
    then show ?thesis
    proof cases
      case lit
      then show ?thesis unfolding f unfolding u
        by (elim insertE emptyE) (simp_all add: lit_codes quote_unit_def unquote_step_def)
    next
      case esc
      then show ?thesis using hesc unfolding f unfolding u by (simp add: unquote_step_def)
    next
      case plain
      then show ?thesis using plainc unfolding f unfolding u by simp
    qed
  qed
next
  case False
  note m = multi_byte [OF assms this]
  then obtain c d cs where u: "u = c # d # cs" by (cases u; cases "tl u") auto
  from m u have "0x80 \<le> code c" by simp
  then have c: "c \<noteq> bslash" "c \<noteq> dquote" "\<not> code c < 32" by (auto simp: code_def)
  have "unquote_step (u @ t) = Some (u, length u)"
    using c unit_len_append [OF assms, of t] m by (simp add: unquote_step_def u fix_unit_def)
  note plain = this
  have f: "fix_unit u = u" using m by (simp add: fix_unit_def)
  have "quote_unit u = u" if "u \<noteq> [CHR 0xE2, CHR 0x80, CHR 0xA8]" "u \<noteq> [CHR 0xE2, CHR 0x80, CHR 0xA9]"
    using that by (simp add: quote_unit_def u)
  then consider "u = [CHR 0xE2, CHR 0x80, CHR 0xA8]" | "u = [CHR 0xE2, CHR 0x80, CHR 0xA9]" | "quote_unit u = u"
    by blast
  then show ?thesis
  proof cases
    case 1
    then show ?thesis unfolding f by (simp add: quote_unit_def unquote_step_def unescape_u_def)
  next
    case 2
    then show ?thesis unfolding f by (simp add: quote_unit_def unquote_step_def unescape_u_def)
  next
    case 3
    then show ?thesis unfolding f using plain by simp
  qed
qed

lemma quote_unit_nonempty: "unit_ok u \<Longrightarrow> quote_unit u \<noteq> []"
  by (auto simp: quote_unit_def unit_ok_def split: list.splits)

lemma unquote_concat:
  "(\<And>u. u \<in> set us \<Longrightarrow> unit_ok u) \<Longrightarrow> unquote (concat (map quote_unit us)) = Some (concat (map fix_unit us))"
proof (induction us)
  case (Cons u us)
  then have "unit_ok u" by simp
  from unquote_step_quote [OF this] quote_unit_nonempty [OF this] Cons show ?case
    by (subst unquote.simps) (cases "quote_unit u", auto simp: max_def)
qed simp

lemma unquote_quote: "unquote (quote s) = Some (ToValidUTF8 s)"
  unfolding quote_def ToValidUTF8_def by (rule unquote_concat) (rule runes_unit_ok)

subsection \<open>What the scanner delimits\<close>

definition plain_char :: "char \<Rightarrow> bool" where
  "plain_char c \<longleftrightarrow> c \<noteq> dquote \<and> c \<noteq> bslash \<and> 32 \<le> code c"

text \<open>The content of a JSON string literal, as the grammar has it.\<close>

inductive literal :: "string \<Rightarrow> bool" where
  lit_end: "literal []"
| lit_plain: "plain_char c \<Longrightarrow> literal r \<Longrightarrow> literal (c # r)"
| lit_escape: "e \<in> set (''bfnrt/'' @ [bslash, dquote]) \<Longrightarrow> literal r \<Longrightarrow> literal (bslash # e # r)"
| lit_u: "length h = 4 \<Longrightarrow> list_all is_hex h \<Longrightarrow> literal r \<Longrightarrow> literal (bslash # CHR ''u'' # h @ r)"

lemma scan_literal: "literal raw \<Longrightarrow> scan_string (raw @ dquote # t) = Some (raw, t)"
proof (induction rule: literal.induct)
  case (lit_plain c r)
  then show ?case by (subst append_Cons, subst scan_string.simps(2)) (auto simp: plain_char_def)
next
  case (lit_escape e r)
  then have "e \<noteq> CHR ''u''" by auto
  with lit_escape show ?case by (simp add: scan_string.simps(2))
qed (simp_all add: scan_string.simps(2))

lemma scan_string_literal: "scan_string s = Some (raw, t) \<Longrightarrow> literal raw \<and> s = raw @ dquote # t"
proof (induction s arbitrary: raw rule: scan_string.induct)
  case (2 c cs)
  show ?case
  proof (cases "c = bslash")
    case False
    show ?thesis
    proof (cases "c = dquote")
      case True
      with "2.prems" show ?thesis by (simp add: scan_string.simps(2) lit_end)
    next
      case no: False
      with "2.prems" False obtain raw' where c: "\<not> code c < 32" and sc: "scan_string cs = Some (raw', t)"
        and raw: "raw = c # raw'" by (auto simp: scan_string.simps(2) split: if_splits)
      have "literal raw' \<and> cs = raw' @ dquote # t" using "2.IH" False no c sc by blast
      then show ?thesis using raw no False c by (simp add: lit_plain plain_char_def)
    qed
  next
    case True
    with "2.prems" obtain e r where cs: "cs = e # r" by (cases cs) (auto simp: scan_string.simps(2))
    show ?thesis
    proof (cases "e = CHR ''u''")
      case True
      with "2.prems" \<open>c = bslash\<close> cs obtain raw' where l: "4 \<le> length r" "list_all is_hex (take 4 r)"
        and sc: "scan_string (drop 4 r) = Some (raw', t)" and raw: "raw = c # e # take 4 r @ raw'"
        by (auto simp: scan_string.simps(2) split: if_splits)
      have "literal raw' \<and> drop 4 r = raw' @ dquote # t" using "2.IH" \<open>c = bslash\<close> cs True l sc by fastforce
      then have "literal raw" "r = take 4 r @ raw' @ dquote # t"
        using lit_u [of "take 4 r" raw'] l raw \<open>c = bslash\<close> True append_take_drop_id [of 4 r] by simp_all
      then show ?thesis using cs raw by simp
    next
      case no: False
      with "2.prems" \<open>c = bslash\<close> cs obtain raw' where e: "e \<in> set (''bfnrt/'' @ [bslash, dquote])"
        and sc: "scan_string r = Some (raw', t)" and raw: "raw = c # e # raw'"
        by (auto simp: scan_string.simps(2) split: if_splits)
      have "literal raw' \<and> r = raw' @ dquote # t" using "2.IH" \<open>c = bslash\<close> cs no e sc by fastforce
      then show ?thesis using lit_escape [OF e, of raw'] raw \<open>c = bslash\<close> cs by simp
    qed
  qed
qed simp

lemma literal_append: "literal a \<Longrightarrow> literal b \<Longrightarrow> literal (a @ b)"
  by (induction rule: literal.induct) (auto intro: literal.intros)

lemma literal_plain: "list_all plain_char s \<Longrightarrow> literal s"
  by (induction s) (auto intro: literal.intros)

lemma is_hex_digit [simp]: "n < 16 \<Longrightarrow> is_hex (hex_digits ! n)"
  by (simp add: is_hex_def hex_val_nth)

lemma is_hex_literals [simp]:
  "is_hex (CHR ''0'')" "is_hex (CHR ''2'')" "is_hex (CHR ''8'')" "is_hex (CHR ''9'')" "is_hex (CHR ''d'')" "is_hex (CHR ''f'')"
  by code_simp+

lemma literal_u: "length h = 4 \<Longrightarrow> list_all is_hex h \<Longrightarrow> literal (bslash # CHR ''u'' # h)"
  using lit_u [OF _ _ lit_end, of h] by simp

lemma literal_quote_unit:
  assumes "unit_ok u"
  shows "literal (quote_unit u)"
proof (cases "\<exists>c. u = [c]")
  case True
  then obtain c where u: "u = [c]" by blast
  have e: "literal [bslash, x]" if "x \<in> set (''bfnrt/'' @ [bslash, dquote])" for x
    using lit_escape [OF that lit_end] .
  have p: "literal [c]" if "c \<noteq> dquote" "c \<noteq> bslash" "\<not> code c < 32"
    using that by (intro lit_plain lit_end) (simp add: plain_char_def)
  have h: "literal (bslash # CHR ''u'' # CHR ''0'' # CHR ''0'' # [hex_digits ! (code c div 16), hex_digits ! (code c mod 16)])"
    if "code c < 0x80" using that by (intro literal_u) simp_all
  show ?thesis unfolding u
    using p e h by (auto simp: quote_unit_def literal_u)
next
  case False
  note m = multi_byte [OF assms this]
  then have "list_all plain_char u" by (auto simp: list_all_iff plain_char_def code_def)
  then have "literal u" by (rule literal_plain)
  with m show ?thesis by (auto simp: quote_unit_def literal_u split: list.splits)
qed

lemma literal_quote: "literal (quote s)"
proof -
  have "literal (concat (map quote_unit us))" if "\<And>u. u \<in> set us \<Longrightarrow> unit_ok u" for us
    using that by (induction us) (auto intro: literal.lit_end literal_append literal_quote_unit)
  then show ?thesis unfolding quote_def using runes_unit_ok by blast
qed

lemma scan_quote [simp]: "scan_string (quote s @ dquote # t) = Some (quote s, t)"
  by (rule scan_literal [OF literal_quote])

subsection \<open>What is delimited can be unquoted\<close>

inductive_cases literal_ConsE: "literal (c # r)"

lemma bslash_not_plain [simp]: "\<not> plain_char bslash" and dquote_not_plain [simp]: "\<not> plain_char dquote"
  by (simp_all add: plain_char_def)

lemma literal_drop: "list_all plain_char (take n s) \<Longrightarrow> literal s \<Longrightarrow> literal (drop n s)"
proof (induction n arbitrary: s)
  case (Suc n)
  show ?case
  proof (cases s)
    case (Cons c r)
    with Suc.prems have "plain_char c" "literal (c # r)" by simp_all
    then have "literal r" by (auto elim: literal_ConsE)
    with Suc Cons show ?thesis by simp
  qed (use Suc.prems in simp)
qed simp

lemma hex4_Some: "length h = 4 \<Longrightarrow> list_all is_hex h \<Longrightarrow> \<exists>x. \<forall>t. hex4 (h @ t) = Some x"
proof -
  assume "length h = 4" and x: "list_all is_hex h"
  then obtain a b c d where h: "h = [a, b, c, d]"
    by (auto simp: numeral_eq_Suc length_Suc_conv)
  with x obtain w x y z where "hex_val a = Some w" "hex_val b = Some x" "hex_val c = Some y" "hex_val d = Some z"
    by (auto simp: is_hex_def)
  with h show ?thesis by (simp add: hex4_def)
qed

lemma replacement_valid [simp]: "valid_utf8 replacement"
  using replacement_ok by (simp add: valid_utf8_unit)

lemma unescape_u_literal:
  assumes "length h = 4" and "list_all is_hex h" and "literal r"
  shows "\<exists>out n. unescape_u (h @ r) = Some (out, Suc (Suc n)) \<and> valid_utf8 out \<and> literal (drop n (h @ r))"
proof -
  obtain x where x: "hex4 (h @ r) = Some x" using hex4_Some [OF assms(1,2)] by blast
  have four: "drop 4 (h @ r) = r" using assms(1) by simp
  have six: "drop 6 (h @ r) = drop 2 r" using assms(1) by simp
  have short: "\<exists>out n. Some (o', 6) = Some (out, Suc (Suc n)) \<and> valid_utf8 out \<and> literal (drop n (h @ r))"
    if "valid_utf8 o'" for o' using that assms(3) four by (intro exI [of _ "o'"] exI [of _ 4]) simp
  consider (single) "\<exists>o'. unescape_u (h @ r) = Some (o', 6) \<and> valid_utf8 o'"
    | (pair) y where "hex4 (drop 2 r) = Some y" "take 2 r = [bslash, CHR ''u'']"
      "\<exists>k. unescape_u (h @ r) = Some (EncodeRune k, 12)"
  proof (cases "0xD800 \<le> x \<and> x < 0xE000")
    case True
    show ?thesis
    proof (cases "\<exists>y. hex4 (drop 2 r) = Some y \<and> take 2 r = [bslash, CHR ''u''] \<and> x < 0xDC00 \<and> 0xDC00 \<le> y \<and> y < 0xE000")
      case True
      then obtain y where y: "hex4 (drop 2 r) = Some y" "take 2 r = [bslash, CHR ''u'']" "x < 0xDC00" "0xDC00 \<le> y" "y < 0xE000"
        by blast
      show ?thesis
      proof (rule that(2))
        show "hex4 (drop 2 r) = Some y" "take 2 r = [bslash, CHR ''u'']" by (fact y)+
        have "unescape_u (h @ r) = Some (EncodeRune (0x10000 + (x - 0xD800) * 1024 + (y - 0xDC00)), 12)"
          using \<open>0xD800 \<le> x \<and> x < 0xE000\<close> x y unfolding unescape_u_def four six by simp
        then show "\<exists>k. unescape_u (h @ r) = Some (EncodeRune k, 12)" by blast
      qed
    next
      case False
      then have "unescape_u (h @ r) = Some (replacement, 6)"
        using \<open>0xD800 \<le> x \<and> x < 0xE000\<close> x unfolding unescape_u_def four six by (auto split: option.splits)
      then show ?thesis using that(1) by simp
    qed
  next
    case False
    with x have "unescape_u (h @ r) = Some (EncodeRune x, 6)" by (auto simp: unescape_u_def)
    then show ?thesis using that(1) EncodeRune_valid by blast
  qed
  then show ?thesis
  proof cases
    case single
    then show ?thesis using short by auto
  next
    case pair
    then obtain r' where r: "r = bslash # CHR ''u'' # r'" by (cases r; cases "tl r") auto
    with assms(3) obtain h' r'' where "r' = h' @ r''" "length h' = 4" "literal r''"
      by (auto elim!: literal_ConsE)
    with r assms(1) have "literal (drop 10 (h @ r))" by simp
    moreover from pair obtain k where "unescape_u (h @ r) = Some (EncodeRune k, Suc (Suc 10))" by auto
    ultimately show ?thesis using EncodeRune_valid by blast
  qed
qed

lemma unquote_step_literal:
  assumes "literal s" and "s \<noteq> []"
  shows "\<exists>out n. unquote_step s = Some (out, n) \<and> 0 < n \<and> valid_utf8 out \<and> literal (drop n s)"
  using assms(1)
proof (cases rule: literal.cases)
  case lit_end
  with assms(2) show ?thesis by simp
next
  case (lit_plain c r)
  define n where "n = unit_len s"
  have "unquote_step s = Some (fix_unit (take n s), n)"
    using lit_plain by (auto simp: unquote_step_def plain_char_def n_def)
  moreover have "valid_utf8 (fix_unit (take n s))"
    using unit_ok_head [OF assms(2)] fix_unit_valid unfolding n_def by blast
  moreover have "list_all plain_char (take n s)"
  proof (cases "\<exists>c. take n s = [c]")
    case True
    then show ?thesis using lit_plain by (cases n) auto
  next
    case False
    have "unit_ok (take n s)" unfolding n_def by (rule unit_ok_head [OF assms(2)])
    from multi_byte [OF this False] show ?thesis by (auto simp: list_all_iff plain_char_def code_def)
  qed
  then have "literal (drop n s)" by (rule literal_drop [OF _ assms(1)])
  moreover have "0 < n" by (simp add: n_def unit_len_def)
  ultimately show ?thesis by blast
next
  case (lit_escape e r)
  then have s: "drop 2 s = r" by simp
  have v: "valid_utf8 [x]" if "code x < 0x80" for x using that by (intro valid_ascii) simp
  have "unquote_step s = Some ([e], 2) \<or> (\<exists>x. unquote_step s = Some ([x], 2) \<and> code x < 0x80)"
    using lit_escape by (auto simp: unquote_step_def code_def)
  moreover have "code e < 0x80" using lit_escape by (auto simp: code_def)
  ultimately obtain x where "unquote_step s = Some ([x], 2)" "code x < 0x80" by blast
  with v [of x] lit_escape(3) s show ?thesis by (intro exI [of _ "[x]"] exI [of _ 2]) simp
next
  case (lit_u h r)
  from unescape_u_literal [OF lit_u(2-4)] obtain out n where "unescape_u (h @ r) = Some (out, Suc (Suc n))"
    "valid_utf8 out" "literal (drop n (h @ r))" by blast
  then show ?thesis unfolding lit_u(1) by (intro exI [of _ out] exI [of _ "Suc (Suc n)"]) (simp add: unquote_step_def)
qed

lemma literal_unquote: "literal s \<Longrightarrow> \<exists>v. unquote s = Some v \<and> valid_utf8 v"
proof (induction s rule: length_induct)
  case (1 s)
  show ?case
  proof (cases "s = []")
    case False
    from unquote_step_literal [OF 1(2) this] obtain out n where st: "unquote_step s = Some (out, n)" "0 < n"
      "valid_utf8 out" "literal (drop n s)" by blast
    then have "length (drop n s) < length s" using False by simp
    with 1(1) st(4) obtain v where "unquote (drop n s) = Some v" "valid_utf8 v" by blast
    with st False show ?thesis
      by (subst unquote.simps) (simp add: max_def valid_utf8_append)
  qed simp
qed

end
