(* ===== verification/Json.thy ===== *)
theory Json
  imports Json_Text
begin

text \<open>
  JSON documents as \<open>encoding/json\<close> scans and prints them: a datatype of values (string literals
  and numbers by their text, as the Go decoder keeps them until it knows the target type), the
  scanner's grammar with its nesting limit as a recursive-descent parser, and the printer with
  the white space of \<open>Marshal\<close> or \<open>MarshalIndent\<close>.  The parser is fuelled; a fuel linear in the
  input is enough, and no further fuel changes the result.  What is printed parses back to the
  same value, whatever follows it.
\<close>

section \<open>Values and lexemes\<close>

datatype json =
    JNull
  | JBool bool
  | JNum string
  | JStr string
  | JArr "json list"
  | JObj "(string \<times> json) list"

definition is_ws :: "char \<Rightarrow> bool" where
  "is_ws c \<longleftrightarrow> c = CHR '' '' \<or> c = CHR 0x09 \<or> c = CHR 0x0A \<or> c = CHR 0x0D"

definition skip_ws :: "string \<Rightarrow> string" where
  "skip_ws s = dropWhile is_ws s"

text \<open>The rest after white space and one given character.\<close>

definition expect :: "char \<Rightarrow> string \<Rightarrow> string option" where
  "expect c s = (case skip_ws s of [] \<Rightarrow> None | x # r \<Rightarrow> if x = c then Some r else None)"

definition strip :: "string \<Rightarrow> string \<Rightarrow> string option" where
  "strip p s = (if HasPrefix s p then Some (drop (length p) s) else None)"

definition is_digit :: "char \<Rightarrow> bool" where
  "is_digit c \<longleftrightarrow> digit_val c \<noteq> None"

text \<open>A number: integer part without superfluous zeros, fraction, exponent.\<close>

definition scan_int :: "string \<Rightarrow> (string \<times> string) option" where
  "scan_int s =
     (case s of
        [] \<Rightarrow> None
      | c # r \<Rightarrow>
          if c = CHR ''0'' then Some ([c], r)
          else if is_digit c then Some (takeWhile is_digit s, dropWhile is_digit s)
          else None)"

definition scan_digits :: "string \<Rightarrow> (string \<times> string) option" where
  "scan_digits s = (if takeWhile is_digit s = [] then None else Some (takeWhile is_digit s, dropWhile is_digit s))"

definition scan_frac :: "string \<Rightarrow> (string \<times> string) option" where
  "scan_frac s =
     (case s of
        [] \<Rightarrow> Some ([], [])
      | c # r \<Rightarrow> if c = CHR ''.'' then map_option (apfst (Cons c)) (scan_digits r) else Some ([], s))"

definition scan_exp :: "string \<Rightarrow> (string \<times> string) option" where
  "scan_exp s =
     (case s of
        [] \<Rightarrow> Some ([], [])
      | c # r \<Rightarrow>
          if c = CHR ''e'' \<or> c = CHR ''E'' then
            (case r of
               [] \<Rightarrow> None
             | g # r' \<Rightarrow>
                 if g = CHR ''+'' \<or> g = CHR ''-'' then map_option (apfst (\<lambda>x. c # g # x)) (scan_digits r')
                 else map_option (apfst (Cons c)) (scan_digits r))
          else Some ([], s))"

definition scan_number :: "string \<Rightarrow> (string \<times> string) option" where
  "scan_number s =
     (let sg = (if s \<noteq> [] \<and> hd s = CHR ''-'' then ''-'' else []) in
      case scan_int (drop (length sg) s) of
        None \<Rightarrow> None
      | Some (ip, s1) \<Rightarrow>
          (case scan_frac s1 of
             None \<Rightarrow> None
           | Some (fp, s2) \<Rightarrow>
               (case scan_exp s2 of
                  None \<Rightarrow> None
                | Some (ep, s3) \<Rightarrow> Some (sg @ ip @ fp @ ep, s3))))"

section \<open>The parser\<close>

text \<open>\<open>d\<close> is how much deeper arrays and objects may nest; \<open>n\<close> is the fuel.\<close>

fun jvalue :: "nat \<Rightarrow> int \<Rightarrow> string \<Rightarrow> (json \<times> string) option"
  and jelems :: "nat \<Rightarrow> int \<Rightarrow> string \<Rightarrow> (json list \<times> string) option"
  and jmembers :: "nat \<Rightarrow> int \<Rightarrow> string \<Rightarrow> ((string \<times> json) list \<times> string) option"
where
  "jvalue 0 d s = None"
| "jvalue (Suc n) d s =
     (case skip_ws s of
        [] \<Rightarrow> None
      | c # r \<Rightarrow>
          if c = dquote then map_option (apfst JStr) (scan_string r)
          else if c = CHR ''['' then
            (if d \<le> 0 then None
             else case expect (CHR '']'') r of
                 Some r' \<Rightarrow> Some (JArr [], r')
               | None \<Rightarrow> map_option (apfst JArr) (jelems n (d - 1) r))
          else if c = CHR ''{'' then
            (if d \<le> 0 then None
             else case expect (CHR ''}'') r of
                 Some r' \<Rightarrow> Some (JObj [], r')
               | None \<Rightarrow> map_option (apfst JObj) (jmembers n (d - 1) r))
          else if c = CHR ''t'' then map_option (Pair (JBool True)) (strip ''rue'' r)
          else if c = CHR ''f'' then map_option (Pair (JBool False)) (strip ''alse'' r)
          else if c = CHR ''n'' then map_option (Pair JNull) (strip ''ull'' r)
          else map_option (apfst JNum) (scan_number (c # r)))"
| "jelems 0 d s = None"
| "jelems (Suc n) d s =
     (case jvalue n d s of
        None \<Rightarrow> None
      | Some (v, r) \<Rightarrow>
          (case expect (CHR '','') r of
             Some r' \<Rightarrow> map_option (apfst (Cons v)) (jelems n d r')
           | None \<Rightarrow>
               (case expect (CHR '']'') r of
                  Some r' \<Rightarrow> Some ([v], r')
                | None \<Rightarrow> None)))"
| "jmembers 0 d s = None"
| "jmembers (Suc n) d s =
     (case expect dquote s of
        None \<Rightarrow> None
      | Some r \<Rightarrow>
          (case scan_string r of
             None \<Rightarrow> None
           | Some (k, r1) \<Rightarrow>
               (case expect (CHR '':'') r1 of
                  None \<Rightarrow> None
                | Some r2 \<Rightarrow>
                    (case jvalue n d r2 of
                       None \<Rightarrow> None
                     | Some (v, r3) \<Rightarrow>
                         (case expect (CHR '','') r3 of
                            Some r4 \<Rightarrow> map_option (apfst (Cons (k, v))) (jmembers n d r4)
                          | None \<Rightarrow>
                              (case expect (CHR ''}'') r3 of
                                 Some r4 \<Rightarrow> Some ([(k, v)], r4)
                               | None \<Rightarrow> None))))))"

text \<open>\<open>maxNestingDepth\<close>; the next value of an input; an input that is one value.\<close>

definition max_nesting :: int where "max_nesting = 10000"

definition next_value :: "string \<Rightarrow> (json \<times> string) option" where
  "next_value s = jvalue (2 * length s + 1) max_nesting s"

definition parse_document :: "string \<Rightarrow> json option" where
  "parse_document s =
     (case next_value s of
        None \<Rightarrow> None
      | Some (v, r) \<Rightarrow> if skip_ws r = [] then Some v else None)"

section \<open>The printer\<close>

text \<open>\<open>nl d\<close> is the line break before something at depth \<open>d\<close>, \<open>sp\<close> the space after a colon.\<close>

fun jprint :: "(nat \<Rightarrow> string) \<Rightarrow> string \<Rightarrow> nat \<Rightarrow> json \<Rightarrow> string"
  and print_elems :: "(nat \<Rightarrow> string) \<Rightarrow> string \<Rightarrow> nat \<Rightarrow> json list \<Rightarrow> string"
  and print_members :: "(nat \<Rightarrow> string) \<Rightarrow> string \<Rightarrow> nat \<Rightarrow> (string \<times> json) list \<Rightarrow> string"
where
  "jprint nl sp d JNull = ''null''"
| "jprint nl sp d (JBool b) = (if b then ''true'' else ''false'')"
| "jprint nl sp d (JNum x) = x"
| "jprint nl sp d (JStr x) = dquote # x @ [dquote]"
| "jprint nl sp d (JArr vs) =
     (if vs = [] then ''[]'' else CHR ''['' # nl (Suc d) @ print_elems nl sp (Suc d) vs @ nl d @ '']'')"
| "jprint nl sp d (JObj ms) =
     (if ms = [] then ''{}'' else CHR ''{'' # nl (Suc d) @ print_members nl sp (Suc d) ms @ nl d @ ''}'')"
| "print_elems nl sp d [] = []"
| "print_elems nl sp d (v # vs) =
     jprint nl sp d v @ (if vs = [] then [] else CHR '','' # nl d @ print_elems nl sp d vs)"
| "print_members nl sp d [] = []"
| "print_members nl sp d ((k, v) # ms) =
     dquote # k @ dquote # CHR '':'' # sp @ jprint nl sp d v
       @ (if ms = [] then [] else CHR '','' # nl d @ print_members nl sp d ms)"

definition compact :: "json \<Rightarrow> string" where
  "compact v = jprint (\<lambda>_. []) [] 0 v"

definition indented :: "json \<Rightarrow> string" where
  "indented v = jprint (\<lambda>d. CHR 0x0A # replicate (2 * d) (CHR '' '')) '' '' 0 v"

section \<open>Fuel\<close>

lemma skip_ws_length: "length (skip_ws s) \<le> length s"
  by (simp add: skip_ws_def length_dropWhile_le)

lemma expect_length: "expect c s = Some r \<Longrightarrow> length r < length s"
  using skip_ws_length [of s] by (auto simp: expect_def split: list.splits if_splits)

lemma scan_string_length: "scan_string s = Some (x, r) \<Longrightarrow> length r < length s"
  by (drule scan_string_literal) simp

lemma strip_length: "strip p s = Some r \<Longrightarrow> length r \<le> length s"
  by (auto simp: strip_def split: if_splits)

lemma scan_digits_length: "scan_digits s = Some (x, r) \<Longrightarrow> length r \<le> length s"
  by (auto simp: scan_digits_def length_dropWhile_le split: if_splits)

lemma scan_int_length: "scan_int s = Some (x, r) \<Longrightarrow> length r < length s"
  using length_dropWhile_le [of is_digit "tl s"]
  by (cases s) (auto simp: scan_int_def split: if_splits)

lemma scan_frac_length: "scan_frac s = Some (x, r) \<Longrightarrow> length r \<le> length s"
  by (auto simp: scan_frac_def dest: scan_digits_length split: list.splits if_splits)

lemma scan_exp_length: "scan_exp s = Some (x, r) \<Longrightarrow> length r \<le> length s"
  by (auto simp: scan_exp_def dest!: scan_digits_length split: list.splits if_splits)

lemma scan_number_length: "scan_number s = Some (x, r) \<Longrightarrow> length r < length s"
  by (fastforce simp: scan_number_def Let_def dest!: scan_int_length scan_frac_length scan_exp_length
      split: option.splits if_splits)

lemmas scan_lengths = expect_length scan_string_length strip_length scan_number_length

lemma parser_consumes:
  "jvalue n d s = Some (v, r) \<Longrightarrow> length r < length s"
  "jelems n d s = Some (vs, r) \<Longrightarrow> length r < length s"
  "jmembers n d s = Some (ms, r) \<Longrightarrow> length r < length s"
proof (induction n d s and n d s and n d s arbitrary: v r and vs r and ms r rule: jvalue_jelems_jmembers.induct)
  case (2 n d s)
  then obtain c t where s: "skip_ws s = c # t" by (cases "skip_ws s") auto
  have l: "Suc (length t) \<le> length s" using skip_ws_length [of s] s by simp
  have el: "length r < length t" if "jelems n (d - 1) t = Some (vs, r)" "c = CHR ''[''" "\<not> d \<le> 0"
    "expect (CHR '']'') t = None" for vs r using that "2.IH"(1) [OF s] by auto
  have ml: "length r < length t" if "jmembers n (d - 1) t = Some (ms, r)" "c = CHR ''{''" "\<not> d \<le> 0"
    "expect (CHR ''}'') t = None" for ms r using that "2.IH"(2) [OF s] by auto
  note prems = "2.prems" [unfolded jvalue.simps s list.case]
  consider "c = dquote" | "c = CHR ''[''" | "c = CHR ''{''" | "c = CHR ''t''" | "c = CHR ''f''" | "c = CHR ''n''"
    | "c \<notin> {dquote, CHR ''['', CHR ''{'', CHR ''t'', CHR ''f'', CHR ''n''}" by blast
  then have "length r < Suc (length t)"
  proof cases
    case 1
    with prems show ?thesis by (auto dest: scan_string_length)
  next
    case 2
    with prems have d: "\<not> d \<le> 0" by (simp split: if_splits)
    show ?thesis
    proof (cases "expect (CHR '']'') t")
      case None
      with prems 2 d obtain xs where "jelems n (d - 1) t = Some (xs, r)" by auto
      from el [OF this 2 d None] show ?thesis by simp
    next
      case (Some r')
      with prems 2 d expect_length [OF Some] show ?thesis by simp
    qed
  next
    case 3
    with prems have d: "\<not> d \<le> 0" by (simp split: if_splits)
    show ?thesis
    proof (cases "expect (CHR ''}'') t")
      case None
      with prems 3 d obtain xs where "jmembers n (d - 1) t = Some (xs, r)" by auto
      from ml [OF this 3 d None] show ?thesis by simp
    next
      case (Some r')
      with prems 3 d expect_length [OF Some] show ?thesis by simp
    qed
  next
    case 7
    with prems show ?thesis by (auto dest!: scan_number_length)
  qed (use prems in \<open>auto dest: strip_length\<close>)
  with l show ?case by simp
next
  case (4 n d s)
  then obtain v t where v: "jvalue n d s = Some (v, t)" by (auto split: option.splits)
  note lt = "4.IH"(1) [OF v]
  show ?case
  proof (cases "expect (CHR '','') t")
    case None
    with "4.prems" v lt show ?thesis by (auto dest!: expect_length split: option.splits)
  next
    case (Some t')
    with "4.prems" v obtain vs' where "jelems n d t' = Some (vs', r)" by auto
    from "4.IH"(2) [OF v refl Some this] expect_length [OF Some] lt show ?thesis by linarith
  qed
next
  case (6 n d s)
  then obtain r0 k r1 r2 v r3 where a: "expect dquote s = Some r0" "scan_string r0 = Some (k, r1)"
    "expect (CHR '':'') r1 = Some r2" "jvalue n d r2 = Some (v, r3)"
    by (auto split: option.splits)
  have lt: "length r3 < length s"
    using "6.IH"(1) [OF a(1,2) refl a(3,4)] expect_length [OF a(1)] scan_string_length [OF a(2)] expect_length [OF a(3)]
    by linarith
  show ?case
  proof (cases "expect (CHR '','') r3")
    case None
    with "6.prems" a lt show ?thesis by (auto dest!: expect_length split: option.splits)
  next
    case (Some r4)
    with "6.prems" a obtain ms' where "jmembers n d r4 = Some (ms', r)" by auto
    from "6.IH"(2) [OF a(1,2) refl a(3,4) refl Some this] expect_length [OF Some] lt show ?thesis by linarith
  qed
qed simp_all

text \<open>From \<open>2 * length s + 1\<close> on, fuel does not matter.\<close>

lemma fuel_enough:
  "2 * length s < n \<Longrightarrow> 2 * length s < m \<Longrightarrow> jvalue n d s = jvalue m d s"
  "2 * length s + 1 < n \<Longrightarrow> 2 * length s + 1 < m \<Longrightarrow> jelems n d s = jelems m d s"
  "2 * length s < n \<Longrightarrow> 2 * length s < m \<Longrightarrow> jmembers n d s = jmembers m d s"
proof (induction n d s and n d s and n d s arbitrary: m and m and m rule: jvalue_jelems_jmembers.induct)
  case (2 n d s)
  from "2.prems" obtain m' where m: "m = Suc m'" by (cases m) auto
  show ?case
  proof (cases "skip_ws s")
    case (Cons c t)
    have l: "Suc (length t) \<le> length s" using skip_ws_length [of s] Cons by simp
    have el: "jelems n (d - 1) t = jelems m' (d - 1) t" if "c = CHR ''[''" "\<not> d \<le> 0" "expect (CHR '']'') t = None"
      using "2.IH"(1) [OF Cons] that l "2.prems" m by simp
    have ml: "jmembers n (d - 1) t = jmembers m' (d - 1) t" if "c = CHR ''{''" "\<not> d \<le> 0" "expect (CHR ''}'') t = None"
      using "2.IH"(2) [OF Cons] that l "2.prems" m by simp
    show ?thesis using el ml m Cons by (auto split: option.splits)
  qed (simp add: m)
next
  case (4 n d s)
  from "4.prems" obtain m' where m: "m = Suc m'" by (cases m) auto
  have "2 * length s < n" "2 * length s < m'" using "4.prems" unfolding m by linarith+
  then have v: "jvalue n d s = jvalue m' d s"
    by (rule "4.IH"(1))
  have r: "jelems n d r' = jelems m' d r'" if "jvalue n d s = Some (v, r)" "expect (CHR '','') r = Some r'" for v r r'
  proof -
    from parser_consumes(1) [OF that(1)] expect_length [OF that(2)]
    have "2 * length r' + 1 < n" "2 * length r' + 1 < m'" using "4.prems" m by linarith+
    then show ?thesis using "4.IH"(2) [OF that(1) refl that(2)] by blast
  qed
  show ?case unfolding m jelems.simps v [symmetric] using r by (auto split: option.splits)
next
  case (6 n d s)
  from "6.prems" obtain m' where m: "m = Suc m'" by (cases m) auto
  have v: "jvalue n d r2 = jvalue m' d r2"
    if "expect dquote s = Some r" "scan_string r = Some (k, r1)" "expect (CHR '':'') r1 = Some r2" for r k r1 r2
  proof -
    from expect_length [OF that(1)] scan_string_length [OF that(2)] expect_length [OF that(3)]
    have "2 * length r2 < n" "2 * length r2 < m'" using "6.prems" m by linarith+
    then show ?thesis using "6.IH"(1) [OF that(1,2) refl that(3)] by blast
  qed
  have r: "jmembers n d r4 = jmembers m' d r4"
    if "expect dquote s = Some r" "scan_string r = Some (k, r1)" "expect (CHR '':'') r1 = Some r2"
      "jvalue n d r2 = Some (x, r3)" "expect (CHR '','') r3 = Some r4" for r k r1 r2 x r3 r4
  proof -
    from expect_length [OF that(1)] scan_string_length [OF that(2)] expect_length [OF that(3)]
      parser_consumes(1) [OF that(4)] expect_length [OF that(5)]
    have "2 * length r4 < n" "2 * length r4 < m'" using "6.prems" m by linarith+
    then show ?thesis using "6.IH"(2) [OF that(1,2) refl that(3,4) refl that(5)] by blast
  qed
  show ?case unfolding m jmembers.simps using v r by (auto split: option.splits)
qed simp_all

section \<open>What is printed parses back\<close>

text \<open>What may follow a number without continuing it.\<close>

definition delim :: "string \<Rightarrow> bool" where
  "delim t \<longleftrightarrow> (case t of [] \<Rightarrow> True | c # _ \<Rightarrow> \<not> is_digit c \<and> c \<notin> {CHR ''.'', CHR ''e'', CHR ''E''})"

definition number_ok :: "string \<Rightarrow> bool" where
  "number_ok x \<longleftrightarrow> x \<noteq> [] \<and> (is_digit (hd x) \<or> hd x = CHR ''-'')
     \<and> (\<forall>t. delim t \<longrightarrow> scan_number (x @ t) = Some (x, t))"

definition ends :: "json \<Rightarrow> string \<Rightarrow> bool" where
  "ends v t \<longleftrightarrow> (case v of JNum _ \<Rightarrow> delim t | _ \<Rightarrow> True)"

fun wf_json :: "json \<Rightarrow> bool" where
  "wf_json (JNum x) \<longleftrightarrow> number_ok x"
| "wf_json (JStr x) \<longleftrightarrow> literal x"
| "wf_json (JArr vs) \<longleftrightarrow> (\<forall>v \<in> set vs. wf_json v)"
| "wf_json (JObj ms) \<longleftrightarrow> (\<forall>m \<in> set ms. literal (fst m) \<and> wf_json (snd m))"
| "wf_json _ \<longleftrightarrow> True"

fun nesting :: "json \<Rightarrow> int" where
  "nesting (JArr vs) = 1 + fold max (map nesting vs) 0"
| "nesting (JObj ms) = 1 + fold max (map (\<lambda>m. nesting (snd m)) ms) 0"
| "nesting _ = 0"

definition blank :: "string \<Rightarrow> bool" where
  "blank w \<longleftrightarrow> list_all is_ws w"

lemma fold_max_ge: "x \<in> set xs \<Longrightarrow> x \<le> fold max xs (b :: int)" and fold_max_base: "b \<le> fold max xs b"
proof -
  have *: "b \<le> fold max xs b" for b :: int and xs
  proof (induction xs arbitrary: b)
    case (Cons a xs)
    from order_trans [OF max.cobounded2 Cons [of "max a b"]] show ?case by simp
  qed simp
  then show "b \<le> fold max xs b" .
  show "x \<in> set xs \<Longrightarrow> x \<le> fold max xs b"
  proof (induction xs arbitrary: b)
    case (Cons a xs)
    have "a \<le> fold max xs (max a b)" using order_trans [OF max.cobounded1 [of a b] * [of "max a b" xs]] .
    with Cons show ?case by auto
  qed simp
qed

lemma nesting_nonneg: "0 \<le> nesting v"
proof (cases v)
  case (JArr vs)
  then show ?thesis using fold_max_base [of 0 "map nesting vs"] by simp
next
  case (JObj ms)
  then show ?thesis using fold_max_base [of 0 "map (\<lambda>m. nesting (snd m)) ms"] by simp
qed simp_all

lemma skip_ws_blank [simp]: "blank w \<Longrightarrow> skip_ws (w @ s) = skip_ws s"
  by (induction w) (simp_all add: blank_def skip_ws_def)

lemma skip_ws_solid [simp]: "\<not> is_ws c \<Longrightarrow> skip_ws (c # s) = c # s"
  by (simp add: skip_ws_def)

lemma solid_chars [simp]:
  "\<not> is_ws dquote" "\<not> is_ws (CHR ''['')" "\<not> is_ws (CHR '']'')" "\<not> is_ws (CHR ''{'')" "\<not> is_ws (CHR ''}'')"
  "\<not> is_ws (CHR '','')" "\<not> is_ws (CHR '':'')" "\<not> is_ws (CHR ''n'')" "\<not> is_ws (CHR ''t'')" "\<not> is_ws (CHR ''f'')"
  by (simp_all add: is_ws_def)

lemma expect_blank [simp]: "blank w \<Longrightarrow> expect c (w @ s) = expect c s"
  by (simp add: expect_def)

lemma expect_solid: "\<not> is_ws x \<Longrightarrow> expect c (x # s) = (if x = c then Some s else None)"
  by (simp add: expect_def)

lemma digit_chars: "is_digit c \<Longrightarrow> \<not> is_ws c \<and> c \<notin> {dquote, CHR ''['', CHR '']'', CHR ''{'', CHR ''}'', CHR ''t'',
    CHR ''f'', CHR ''n'', CHR '','', CHR '':''}"
  by (auto simp: is_digit_def digit_val_def is_ws_def code_def split: if_splits)

lemma delim_solid [simp]:
  "delim []" "delim (CHR '','' # t)" "delim (CHR '']'' # t)" "delim (CHR ''}'' # t)"
  by (simp_all add: delim_def is_digit_def digit_val_def code_def)

lemma delim_ends: "delim t \<Longrightarrow> ends v t"
  by (cases v) (simp_all add: ends_def)

lemma delim_blank [simp]: "blank w \<Longrightarrow> delim t \<Longrightarrow> delim (w @ t)"
  by (cases w) (auto simp: blank_def delim_def is_digit_def digit_val_def code_def is_ws_def)

text \<open>The first character of a printed value.\<close>

lemma jprint_head:
  assumes "wf_json v"
  obtains c s where "jprint nl sp d v = c # s" and "\<not> is_ws c" and "c \<notin> {CHR '']'', CHR ''}'', CHR '','', CHR '':''}"
proof (cases v)
  case (JNum x)
  with assms have "x \<noteq> []" and "is_digit (hd x) \<or> hd x = CHR ''-''" by (simp_all add: number_ok_def)
  then show ?thesis using that [of "hd x" "tl x"] JNum digit_chars [of "hd x"] by (auto simp: is_ws_def)
next
  case (JBool b)
  then show ?thesis using that by (cases b) simp_all
next
  case (JArr vs)
  then show ?thesis using that by (cases "vs = []") (simp_all add: is_ws_def)
next
  case (JObj ms)
  then show ?thesis using that by (cases "ms = []") (simp_all add: is_ws_def)
qed (use that in \<open>simp_all add: is_ws_def\<close>)

lemma expect_jprint:
  assumes "wf_json v" and "blank w" and "c \<in> {CHR '']'', CHR ''}''}"
  shows "expect c (w @ jprint nl sp d v @ t) = None"
proof -
  obtain x s where "jprint nl sp d v = x # s" "\<not> is_ws x" "x \<notin> {CHR '']'', CHR ''}'', CHR '','', CHR '':''}"
    by (rule jprint_head [OF assms(1)])
  with assms(2,3) show ?thesis by (auto simp: expect_solid)
qed

text \<open>What a printer contributes in white space.\<close>

definition layout :: "(nat \<Rightarrow> string) \<Rightarrow> string \<Rightarrow> bool" where
  "layout nl sp \<longleftrightarrow> (\<forall>d. blank (nl d)) \<and> blank sp"

lemma layout_compact: "layout (\<lambda>_. []) []"
  by (simp add: layout_def blank_def)

lemma layout_indented: "layout (\<lambda>d. CHR 0x0A # replicate (2 * d) (CHR '' '')) '' ''"
  by (auto simp: layout_def blank_def is_ws_def list_all_iff)

text \<open>White space before a value does not matter.\<close>

lemma jvalue_blank: "blank w \<Longrightarrow> jvalue n d (w @ s) = jvalue n d s"
  by (cases n) simp_all

lemma jmembers_blank: "blank w \<Longrightarrow> jmembers n d (w @ s) = jmembers n d s"
  by (cases n) simp_all

lemma jelems_blank: "blank w \<Longrightarrow> jelems n d (w @ s) = jelems n d s"
  by (cases n) (simp_all add: jvalue_blank)

lemma jvalue_number:
  assumes "number_ok x" and "delim t"
  shows "jvalue (Suc n) d (x @ t) = Some (JNum x, t)"
proof -
  from assms(1) obtain c r where x: "x = c # r" and c: "is_digit c \<or> c = CHR ''-''"
    by (cases x) (auto simp: number_ok_def)
  from c have "\<not> is_ws c \<and> c \<notin> {dquote, CHR ''['', CHR ''{'', CHR ''t'', CHR ''f'', CHR ''n''}"
  proof
    assume "is_digit c"
    then show ?thesis using digit_chars [of c] by blast
  qed (simp add: is_ws_def)
  moreover have "scan_number (x @ t) = Some (x, t)" using assms by (simp add: number_ok_def)
  ultimately show ?thesis by (simp add: x)
qed

lemma jvalue_keyword:
  "jvalue (Suc n) d (''null'' @ t) = Some (JNull, t)"
  "jvalue (Suc n) d (''true'' @ t) = Some (JBool True, t)"
  "jvalue (Suc n) d (''false'' @ t) = Some (JBool False, t)"
  by (simp_all add: strip_def HasPrefix_def)

lemma jvalue_string:
  "literal x \<Longrightarrow> jvalue (Suc n) d (dquote # x @ dquote # t) = Some (JStr x, t)"
  by (simp add: scan_literal)

lemma parse_printed:
  "layout nl sp \<Longrightarrow> wf_json v \<Longrightarrow> nesting v \<le> d \<Longrightarrow> ends v t \<Longrightarrow> size v < n \<Longrightarrow>
     jvalue n d (jprint nl sp k v @ t) = Some (v, t)"
  "layout nl sp \<Longrightarrow> (\<forall>v \<in> set vs. wf_json v \<and> nesting v \<le> d) \<Longrightarrow> vs \<noteq> [] \<Longrightarrow> size_list size vs < n \<Longrightarrow>
     blank w \<Longrightarrow> jelems n d (print_elems nl sp k vs @ w @ CHR '']'' # t) = Some (vs, t)"
  "layout nl sp \<Longrightarrow> (\<forall>m \<in> set ms. literal (fst m) \<and> wf_json (snd m) \<and> nesting (snd m) \<le> d) \<Longrightarrow> ms \<noteq> [] \<Longrightarrow>
     size_list (size_prod (\<lambda>_. 0) size) ms < n \<Longrightarrow>
     blank w \<Longrightarrow> jmembers n d (print_members nl sp k ms @ w @ CHR ''}'' # t) = Some (ms, t)"
proof (induction nl sp k v and nl sp k vs and nl sp k ms arbitrary: d n t and d n t w and d n t w
    rule: jprint_print_elems_print_members.induct)
  case (1 nl sp k)
  then show ?case using jvalue_keyword(1) [of "n - 1" d t] by (cases n) simp_all
next
  case (2 nl sp k b)
  then show ?case using jvalue_keyword(2,3) [of "n - 1" d t] by (cases n) simp_all
next
  case (3 nl sp k x)
  then show ?case using jvalue_number [of x t "n - 1" d] by (cases n) (simp_all add: ends_def)
next
  case (4 nl sp k x)
  then show ?case using jvalue_string [of x "n - 1" d t] by (cases n) simp_all
next
  case (5 nl sp k vs)
  from "5.prems" obtain m where n: "n = Suc m" by (cases n) auto
  have b: "blank (nl j)" for j using "5.prems" by (simp add: layout_def)
  have d: "0 < d" using "5.prems" fold_max_base [of 0 "map nesting vs"] by simp
  show ?case
  proof (cases vs)
    case Nil
    with d n show ?thesis by (simp add: expect_def)
  next
    case (Cons v us)
    have all: "\<forall>v \<in> set vs. wf_json v \<and> nesting v \<le> d - 1"
      using "5.prems" fold_max_ge [of _ "map nesting vs" 0] by force
    have e: "expect (CHR '']'') (nl (Suc k) @ print_elems nl sp (Suc k) vs @ nl k @ '']'' @ t) = None"
      using expect_jprint [of v "nl (Suc k)"] all b by (simp add: Cons)
    have "jelems m (d - 1) (print_elems nl sp (Suc k) vs @ nl k @ CHR '']'' # t) = Some (vs, t)"
      using "5.IH" [of "d - 1" m "nl k" t] all b "5.prems" Cons n by simp
    with e d b Cons show ?thesis by (simp add: n jelems_blank)
  qed
next
  case (6 nl sp k ms)
  from "6.prems" obtain m where n: "n = Suc m" by (cases n) auto
  have b: "blank (nl j)" for j using "6.prems" by (simp add: layout_def)
  have d: "0 < d" using "6.prems" fold_max_base [of 0 "map (\<lambda>m. nesting (snd m)) ms"] by simp
  show ?case
  proof (cases ms)
    case Nil
    with d n show ?thesis by (simp add: expect_def)
  next
    case (Cons kv us)
    have all: "\<forall>m \<in> set ms. literal (fst m) \<and> wf_json (snd m) \<and> nesting (snd m) \<le> d - 1"
      using "6.prems" fold_max_ge [of _ "map (\<lambda>m. nesting (snd m)) ms" 0] by force
    have e: "expect (CHR ''}'') (nl (Suc k) @ print_members nl sp (Suc k) ms @ nl k @ ''}'' @ t) = None"
      using b by (cases kv) (simp add: Cons expect_solid)
    have "jmembers m (d - 1) (print_members nl sp (Suc k) ms @ nl k @ CHR ''}'' # t) = Some (ms, t)"
      using "6.IH" [of "d - 1" m "nl k" t] all b "6.prems" Cons n by simp
    with e d b Cons show ?thesis by (simp add: n jmembers_blank)
  qed
next
  case (7 nl sp k)
  then show ?case by simp
next
  case (8 nl sp k v vs)
  from "8.prems" obtain m where n: "n = Suc m" by (cases n) auto
  have b: "blank (nl j)" for j using "8.prems" by (simp add: layout_def)
  let ?rest = "(if vs = [] then [] else CHR '','' # nl k @ print_elems nl sp k vs) @ w @ CHR '']'' # t"
  have "jvalue m d (jprint nl sp k v @ ?rest) = Some (v, ?rest)"
    using "8.prems" n by (intro "8.IH"(1) delim_ends) simp_all
  moreover have "jelems m d (print_elems nl sp k vs @ w @ CHR '']'' # t) = Some (vs, t)" if "vs \<noteq> []"
    using "8.prems" n that by (intro "8.IH"(2)) simp_all
  ultimately show ?case using b "8.prems" by (auto simp: n expect_solid jelems_blank)
next
  case (9 nl sp k)
  then show ?case by simp
next
  case (10 nl sp k key v ms)
  from "10.prems" obtain m where n: "n = Suc m" by (cases n) auto
  have b: "blank (nl j)" and sp: "blank sp" for j using "10.prems" by (simp_all add: layout_def)
  let ?rest = "(if ms = [] then [] else CHR '','' # nl k @ print_members nl sp k ms) @ w @ CHR ''}'' # t"
  have v: "jvalue m d (jprint nl sp k v @ ?rest) = Some (v, ?rest)"
    using "10.prems" n by (intro "10.IH"(1) delim_ends) simp_all
  have "jmembers m d (print_members nl sp k ms @ w @ CHR ''}'' # t) = Some (ms, t)" if "ms \<noteq> []"
    using "10.prems" n that by (intro "10.IH"(2)) simp_all
  with v show ?case using b sp "10.prems"
    by (auto simp: n expect_solid jmembers_blank jvalue_blank scan_literal)
qed

theorem next_value_printed:
  assumes "layout nl sp" and "wf_json v" and "nesting v \<le> max_nesting" and "ends v t"
  shows "next_value (jprint nl sp k v @ t) = Some (v, t)"
proof -
  let ?s = "jprint nl sp k v @ t"
  define n where "n = 2 * length ?s + 1 + size v"
  have "jvalue n max_nesting ?s = Some (v, t)"
    using assms by (intro parse_printed(1)) (simp_all add: n_def)
  moreover have "jvalue n max_nesting ?s = jvalue (2 * length ?s + 1) max_nesting ?s"
    by (rule fuel_enough(1)) (simp_all add: n_def)
  ultimately show ?thesis by (simp only: next_value_def)
qed

theorem parse_compact: "wf_json v \<Longrightarrow> nesting v \<le> max_nesting \<Longrightarrow> parse_document (compact v) = Some v"
  using next_value_printed [OF layout_compact _ _ delim_ends [of "[]"], of v 0]
  by (simp add: parse_document_def compact_def skip_ws_def)

theorem parse_indented: "wf_json v \<Longrightarrow> nesting v \<le> max_nesting \<Longrightarrow> parse_document (indented v) = Some v"
  using next_value_printed [OF layout_indented _ _ delim_ends [of "[]"], of v 0]
  by (simp add: parse_document_def indented_def skip_ws_def)

text \<open>Integers are numbers.\<close>

lemma is_digit_char [simp]: "n < 10 \<Longrightarrow> is_digit (digit_char n)"
  by (simp add: is_digit_def)

lemma show_nat_all_digits: "list_all is_digit (show_nat n)"
  by (auto simp: list_all_iff dest!: show_nat_digits)

lemma digits_span:
  assumes "list_all is_digit x" and "delim t"
  shows "takeWhile is_digit (x @ t) = x" and "dropWhile is_digit (x @ t) = t"
proof -
  have "takeWhile is_digit t = []" "dropWhile is_digit t = t"
    using assms(2) by (cases t; simp add: delim_def)+
  with assms(1) show "takeWhile is_digit (x @ t) = x" "dropWhile is_digit (x @ t) = t"
    by (simp_all add: list_all_iff takeWhile_append2 dropWhile_append2)
qed

lemma show_nat_zero: "hd (show_nat n) = CHR ''0'' \<Longrightarrow> n = 0"
proof (induction n rule: show_nat.induct)
  case (1 n)
  show ?case
  proof (cases "n < 10")
    case True
    with 1(2) have "digit_char n = digit_char 0" by (simp add: show_nat.simps)
    then show ?thesis using True by (metis digit_val_char option.inject zero_less_numeral)
  next
    case False
    with 1(2) have "hd (show_nat (n div 10)) = CHR ''0''" by (simp add: show_nat.simps [of n])
    with 1(1) False have "n div 10 = 0" by blast
    with False show ?thesis by simp
  qed
qed

lemma scan_int_show_nat: "delim t \<Longrightarrow> scan_int (show_nat n @ t) = Some (show_nat n, t)"
proof -
  assume t: "delim t"
  obtain c r where x: "show_nat n = c # r" by (cases "show_nat n") simp_all
  have all: "list_all is_digit (show_nat n)" by (rule show_nat_all_digits)
  show ?thesis
  proof (cases "c = CHR ''0''")
    case True
    with x have "n = 0" using show_nat_zero [of n] by simp
    then have "show_nat n = ''0''" by (simp add: show_nat.simps)
    then show ?thesis by (simp add: scan_int_def)
  next
    case False
    have "is_digit c" using all x by simp
    with False digits_span [OF all t] x show ?thesis by (simp add: scan_int_def)
  qed
qed

lemma scan_number_FormatInt: "delim t \<Longrightarrow> scan_number (FormatInt i @ t) = Some (FormatInt i, t)"
proof -
  assume t: "delim t"
  then have f: "scan_frac t = Some ([], t)" and e: "scan_exp t = Some ([], t)"
    by (cases t; simp add: delim_def scan_frac_def scan_exp_def)+
  have h: "hd (show_nat n @ t) \<noteq> CHR ''-''" for n using show_nat_hd [of n] by simp
  show ?thesis
    using scan_int_show_nat [OF t] f e h by (simp add: scan_number_def FormatInt_def)
qed

lemma number_ok_FormatInt [simp]: "number_ok (FormatInt i)"
proof -
  have "is_digit (hd (show_nat n))" for n
    using show_nat_all_digits [of n] hd_in_set [of "show_nat n"] by (simp add: list_all_iff)
  then show ?thesis using scan_number_FormatInt by (simp add: number_ok_def FormatInt_def)
qed

end
