(* ===== verification/Go_Time.thy ===== *)
theory Go_Time
  imports Json_Text Money "HOL-Library.Monad_Syntax"
begin

text \<open>
  Instants as text: the civil calendar of Go's \<open>time\<close> package, \<open>Time.MarshalJSON\<close>
  (RFC 3339 with nanoseconds, in the location of the time, an error outside the years 0 to 9999)
  and \<open>Time.UnmarshalJSON\<close> with the latitude of \<open>Parse\<close> (a one-digit hour, a comma
  before the fraction).  The lemmas: the calendar is a bijection with day numbers, and a time that
  is written reads back as the same instant whatever the offset it was written in.
\<close>

section \<open>The calendar\<close>

definition leap :: "int \<Rightarrow> bool" where
  "leap y \<longleftrightarrow> 4 dvd y \<and> (\<not> 100 dvd y \<or> 400 dvd y)"

definition month_lengths :: "int \<Rightarrow> int list" where
  "month_lengths y = [31, if leap y then 29 else 28, 31, 30, 31, 30, 31, 31, 30, 31, 30, 31]"

text \<open>Days from 1 January of year 1 to 1 January of a year.\<close>

definition year_start :: "int \<Rightarrow> int" where
  "year_start y = 365 * (y - 1) + (y - 1) div 4 - (y - 1) div 100 + (y - 1) div 400"

text \<open>The year of a day and the day in the year, by cycles of 400, 100, 4 and 1 years.\<close>

definition year_day :: "int \<Rightarrow> int \<times> int" where
  "year_day n =
     (let c = n div 146097; r = n mod 146097;
          h = min 3 (r div 36524); r = r - 36524 * h;
          q = r div 1461; r = r - 1461 * q;
          a = min 3 (r div 365)
      in (400 * c + 100 * h + 4 * q + a + 1, r - 365 * a))"

fun month_day :: "int list \<Rightarrow> int \<Rightarrow> int \<times> int" where
  "month_day [] d = (1, d + 1)"
| "month_day (l # ls) d = (if d < l then (1, d + 1) else apfst ((+) 1) (month_day ls (d - l)))"

definition civil :: "int \<Rightarrow> int \<times> int \<times> int" where
  "civil n = (case year_day n of (y, d) \<Rightarrow> (y, month_day (month_lengths y) d))"

definition day_number :: "int \<Rightarrow> int \<Rightarrow> int \<Rightarrow> int" where
  "day_number y m d = year_start y + sum_list (take (nat (m - 1)) (month_lengths y)) + (d - 1)"

lemma floor_div: "0 < k \<Longrightarrow> k * (r div k) \<le> r \<and> r < k * (r div k) + (k :: int)"
proof -
  assume "0 < k"
  then have "0 \<le> r mod k" "r mod k < k" by simp_all
  moreover have "k * (r div k) + r mod k = r" by simp
  ultimately show ?thesis by linarith
qed

lemma cycles:
  fixes c h q a :: int
  assumes "0 \<le> h" and "h \<le> 3" and "0 \<le> q" and "q \<le> 24" and "0 \<le> a" and "a \<le> 3"
  shows "year_start (400 * c + 100 * h + 4 * q + a + 1) = 146097 * c + 36524 * h + 1461 * q + 365 * a"
    and "leap (400 * c + 100 * h + 4 * q + a + 1) \<longleftrightarrow> a = 3 \<and> (q \<noteq> 24 \<or> h = 3)"
proof -
  let ?x = "400 * c + 100 * h + 4 * q + a"
  have "?x div 4 = 100 * c + 25 * h + q" using assms by (intro int_div_pos_eq [where r = a]) simp_all
  moreover have "?x div 100 = 4 * c + h" using assms by (intro int_div_pos_eq [where r = "4 * q + a"]) simp_all
  moreover have "?x div 400 = c" using assms by (intro int_div_pos_eq [where r = "100 * h + 4 * q + a"]) simp_all
  ultimately show "year_start (?x + 1) = 146097 * c + 36524 * h + 1461 * q + 365 * a"
    by (simp add: year_start_def)
  have "(?x + 1) mod 4 = (a + 1) mod 4"
    using mod_mult_self2 [of "a + 1" 4 "100 * c + 25 * h + q"] by (simp add: algebra_simps)
  moreover have "(?x + 1) mod 100 = (4 * q + a + 1) mod 100"
    using mod_mult_self2 [of "4 * q + a + 1" 100 "4 * c + h"] by (simp add: algebra_simps)
  moreover have "(?x + 1) mod 400 = (100 * h + 4 * q + a + 1) mod 400"
    using mod_mult_self2 [of "100 * h + 4 * q + a + 1" 400 c] by (simp add: algebra_simps)
  ultimately have "leap (?x + 1) \<longleftrightarrow> (a + 1) mod 4 = 0 \<and> ((4 * q + a + 1) mod 100 \<noteq> 0 \<or> (100 * h + 4 * q + a + 1) mod 400 = 0)"
    unfolding leap_def dvd_eq_mod_eq_0 by (simp only:)
  also have "\<dots> \<longleftrightarrow> a = 3 \<and> (q \<noteq> 24 \<or> h = 3)"
  proof (cases "a = 3")
    case True
    show ?thesis
    proof (cases "q = 24")
      case True
      from assms(1,2) consider "h = 0" | "h = 1" | "h = 2" | "h = 3" by linarith
      then show ?thesis using True \<open>a = 3\<close> by cases simp_all
    next
      case False
      with assms True have "0 < 4 * q + a + 1" "4 * q + a + 1 < 100" by linarith+
      then have "(4 * q + a + 1) mod 100 \<noteq> 0" by (simp add: mod_pos_pos_trivial)
      with True False show ?thesis by simp
    qed
  next
    case False
    with assms(5,6) consider "a = 0" | "a = 1" | "a = 2" by linarith
    then show ?thesis by cases simp_all
  qed
  finally show "leap (?x + 1) \<longleftrightarrow> a = 3 \<and> (q \<noteq> 24 \<or> h = 3)" .
qed

lemma year_day_correct:
  assumes "year_day n = (y, d)"
  shows "year_start y + d = n" and "0 \<le> d" and "d < sum_list (month_lengths y)"
proof -
  define c r h where "c = n div 146097" and "r = n mod 146097" and "h = min 3 (r div 36524)"
  define r1 q where "r1 = r - 36524 * h" and "q = r1 div 1461"
  define r2 a where "r2 = r1 - 1461 * q" and "a = min 3 (r2 div 365)"
  have n: "n = 146097 * c + r" by (simp add: c_def r_def)
  have r: "0 \<le> r" "r < 146097" by (simp_all add: r_def)
  have h: "0 \<le> h" "h \<le> 3"
    using pos_imp_zdiv_nonneg_iff [of 36524 r] r unfolding h_def by linarith+
  have r1: "0 \<le> r1 \<and> r1 < 36525 \<and> (h \<noteq> 3 \<longrightarrow> r1 < 36524)"
  proof (cases "r div 36524 \<le> 3")
    case True
    then have "h = r div 36524" by (simp add: h_def)
    then show ?thesis using floor_div [of 36524 r] unfolding r1_def by linarith
  next
    case False
    then have "h = 3" by (simp add: h_def)
    moreover have "4 \<le> r div 36524" using False by linarith
    ultimately show ?thesis using floor_div [of 36524 r] r unfolding r1_def by linarith
  qed
  have fq: "1461 * q \<le> r1" "r1 < 1461 * q + 1461" using floor_div [of 1461 r1] by (simp_all add: q_def)
  have q: "0 \<le> q" "q \<le> 24" using fq r1 by linarith+
  have r2: "0 \<le> r2" "r2 < 1461" "q = 24 \<Longrightarrow> h \<noteq> 3 \<Longrightarrow> r2 < 1460"
    using r1 fq unfolding r2_def by linarith+
  have a: "0 \<le> a" "a \<le> 3"
    using pos_imp_zdiv_nonneg_iff [of 365 r2] r2(1) unfolding a_def by linarith+
  have "year_day n = (400 * c + 100 * h + 4 * q + a + 1, r2 - 365 * a)"
    unfolding year_day_def Let_def a_def r2_def q_def r1_def h_def r_def c_def by (rule refl)
  with assms have y: "y = 400 * c + 100 * h + 4 * q + a + 1" and d: "d = r2 - 365 * a" by (simp_all only: prod.inject)
  show "year_start y + d = n"
    using cycles(1) [OF h q a, of c] n unfolding y d r1_def r2_def by linarith
  have "365 * a \<le> r2 \<and> r2 < 365 * a + 365 + (if a = 3 then 1 else 0)"
  proof (cases "r2 div 365 \<le> 3")
    case True
    then have "a = r2 div 365" by (simp add: a_def)
    then show ?thesis using floor_div [of 365 r2] by simp
  next
    case False
    then have "a = 3" by (simp add: a_def)
    moreover have "4 \<le> r2 div 365" using False by linarith
    ultimately show ?thesis using floor_div [of 365 r2] r2(2) by simp
  qed
  moreover have "sum_list (month_lengths y) = (if leap y then 366 else 365)" by (simp add: month_lengths_def)
  moreover have "leap y \<longleftrightarrow> a = 3 \<and> (q \<noteq> 24 \<or> h = 3)" unfolding y by (rule cycles(2) [OF h q a])
  ultimately show "0 \<le> d" "d < sum_list (month_lengths y)" using r2(3) d by (auto split: if_splits)
qed

lemma month_day_correct:
  assumes "month_day ls d = (m, x)" and "0 \<le> d" and "d < sum_list ls"
  shows "1 \<le> m \<and> nat (m - 1) < length ls \<and> 1 \<le> x \<and> x \<le> ls ! nat (m - 1)
    \<and> sum_list (take (nat (m - 1)) ls) + (x - 1) = d"
  using assms
proof (induction ls d arbitrary: m x rule: month_day.induct)
  case (2 l ls d)
  show ?case
  proof (cases "d < l")
    case True
    with 2 show ?thesis by auto
  next
    case False
    with "2.prems" obtain m' where m: "month_day ls (d - l) = (m', x)" "m = 1 + m'"
      by (cases "month_day ls (d - l)") auto
    from "2.IH" [OF False m(1)] "2.prems" False
    have i: "1 \<le> m'" "nat (m' - 1) < length ls" "1 \<le> x" "x \<le> ls ! nat (m' - 1)"
      "sum_list (take (nat (m' - 1)) ls) + (x - 1) = d - l" by auto
    have "nat (m - 1) = Suc (nat (m' - 1))" using i(1) m(2) by simp
    with i m(2) show ?thesis by simp
  qed
qed simp

lemma civil_correct:
  assumes "civil n = (y, m, d)"
  shows "day_number y m d = n" and "1 \<le> m" and "m \<le> 12" and "1 \<le> d" and "d \<le> month_lengths y ! nat (m - 1)"
proof -
  obtain k where y: "year_day n = (y, k)" and m: "month_day (month_lengths y) k = (m, d)"
    using assms by (auto simp: civil_def split: prod.splits)
  from month_day_correct [OF m year_day_correct(2,3) [OF y]] year_day_correct(1) [OF y]
  show "day_number y m d = n" "1 \<le> m" "m \<le> 12" "1 \<le> d" "d \<le> month_lengths y ! nat (m - 1)"
    by (auto simp: day_number_def month_lengths_def)
qed

section \<open>Writing\<close>

definition pad :: "nat \<Rightarrow> int \<Rightarrow> string" where
  "pad k n = (let s = show_nat (nat n) in replicate (k - length s) (CHR ''0'') @ s)"

definition frac_text :: "int \<Rightarrow> string" where
  "frac_text f = (if f = 0 then [] else CHR ''.'' # TrimRight (pad 9 f) (CHR ''0''))"

definition zone_text :: "int \<Rightarrow> string" where
  "zone_text z =
     (if z = 0 then ''Z''
      else (if z < 0 then CHR ''-'' else CHR ''+'') # pad 2 (\<bar>z\<bar> div 60) @ CHR '':'' # pad 2 (\<bar>z\<bar> mod 60))"

text \<open>\<open>Time.MarshalJSON\<close>, without the quotes, in a location \<open>z\<close> minutes east of UTC.\<close>

definition format_time :: "int \<Rightarrow> gtime \<Rightarrow> string option" where
  "format_time z t =
     (let l = t + z * Minute; n = l div (24 * Hour); x = l mod (24 * Hour) in
      case civil n of (y, m, d) \<Rightarrow>
        (if y < 0 \<or> 9999 < y \<or> 24 * 60 \<le> \<bar>z\<bar> then None
         else Some (pad 4 y @ CHR ''-'' # pad 2 m @ CHR ''-'' # pad 2 d @ CHR ''T'' # pad 2 (x div Hour)
           @ CHR '':'' # pad 2 (x div Minute mod 60) @ CHR '':'' # pad 2 (x div Second mod 60)
           @ frac_text (x mod Second) @ zone_text z)))"

section \<open>Reading\<close>

definition all_digits :: "string \<Rightarrow> bool" where
  "all_digits s \<longleftrightarrow> list_all (\<lambda>c. digit_val c \<noteq> None) s"

definition read_num :: "nat \<Rightarrow> string \<Rightarrow> (int \<times> string) option" where
  "read_num k s =
     (if k \<le> length s \<and> all_digits (take k s) then Some (int (dec_val (take k s)), drop k s) else None)"

definition read_char :: "char \<Rightarrow> string \<Rightarrow> string option" where
  "read_char c s = (case s of [] \<Rightarrow> None | x # r \<Rightarrow> if x = c then Some r else None)"

definition read_hour :: "string \<Rightarrow> (int \<times> string) option" where
  "read_hour s = (case read_num 2 s of Some x \<Rightarrow> Some x | None \<Rightarrow> read_num 1 s)"

text \<open>A fraction, if there is one; digits after the ninth are dropped.\<close>

definition read_frac :: "string \<Rightarrow> int \<times> string" where
  "read_frac s =
     (case s of
        [] \<Rightarrow> (0, [])
      | c # r \<Rightarrow>
          (let ds = takeWhile (\<lambda>x. digit_val x \<noteq> None) r in
           if (c = CHR ''.'' \<or> c = CHR '','') \<and> ds \<noteq> []
           then (int (dec_val (take 9 (ds @ replicate 9 (CHR ''0'')))), drop (length ds) r)
           else (0, s)))"

text \<open>The zone, in minutes, up to the end of the text.\<close>

definition read_zone :: "string \<Rightarrow> int option" where
  "read_zone s =
     (if s = ''Z'' then Some 0
      else case s of
          [] \<Rightarrow> None
        | g # r \<Rightarrow>
            do { (hr, r) \<leftarrow> read_num 2 r;
                 r \<leftarrow> read_char (CHR '':'') r;
                 (mm, r) \<leftarrow> read_num 2 r;
                 if r \<noteq> [] \<or> 24 < hr \<or> 60 < mm then None
                 else if g = CHR ''+'' then Some (60 * hr + mm)
                 else if g = CHR ''-'' then Some (- (60 * hr + mm))
                 else None })"

definition read_time :: "string \<Rightarrow> gtime option" where
  "read_time s =
     do { (y, s) \<leftarrow> read_num 4 s;
          s \<leftarrow> read_char (CHR ''-'') s;
          (m, s) \<leftarrow> read_num 2 s;
          s \<leftarrow> read_char (CHR ''-'') s;
          (d, s) \<leftarrow> read_num 2 s;
          s \<leftarrow> read_char (CHR ''T'') s;
          (h, s) \<leftarrow> read_hour s;
          s \<leftarrow> read_char (CHR '':'') s;
          (mi, s) \<leftarrow> read_num 2 s;
          s \<leftarrow> read_char (CHR '':'') s;
          (se, s) \<leftarrow> read_num 2 s;
          let (f, s) = read_frac s;
          z \<leftarrow> read_zone s;
          if 1 \<le> m \<and> m \<le> 12 \<and> 1 \<le> d \<and> d \<le> month_lengths y ! nat (m - 1) \<and> h < 24 \<and> mi < 60 \<and> se < 60
          then Some (day_number y m d * (24 * Hour) + h * Hour + mi * Minute + se * Second + f - z * Minute)
          else None }"

section \<open>What is written reads back\<close>

lemma read_char_hit [simp]: "read_char c (c # s) = Some s"
  by (simp add: read_char_def)

lemma digits_show_nat: "all_digits (show_nat n)"
  by (auto simp: all_digits_def list_all_iff dest!: show_nat_digits)

lemma all_digits_append [simp]: "all_digits (s @ t) \<longleftrightarrow> all_digits s \<and> all_digits t"
  by (simp add: all_digits_def)

lemma all_digits_zeros [simp]: "all_digits (replicate k (CHR ''0''))"
  by (auto simp: all_digits_def list_all_iff digit_val_def code_def)

lemma pad_digits [simp]: "all_digits (pad k n)"
  by (simp add: pad_def Let_def digits_show_nat)

lemma pad_value [simp]: "0 \<le> n \<Longrightarrow> int (dec_val (pad k n)) = n"
  by (simp add: pad_def Let_def dec_val_append)

lemma pad_length:
  assumes "0 \<le> n" and "n < 10 ^ k" and "0 < k"
  shows "length (pad k n) = k"
proof -
  obtain j where k: "k = Suc j" using assms(3) by (cases k) auto
  have "nat n < 10 ^ k" using assms(1,2) by (simp add: nat_less_iff)
  then have "length (show_nat (nat n)) \<le> k" using length_show_nat [of "nat n" j] k by simp
  then show ?thesis by (simp add: pad_def Let_def)
qed

lemma read_pad: "0 \<le> n \<Longrightarrow> n < 10 ^ k \<Longrightarrow> 0 < k \<Longrightarrow> read_num k (pad k n @ t) = Some (n, t)"
  by (simp add: read_num_def pad_length)

lemma read_hour_pad: "0 \<le> n \<Longrightarrow> n < 10 ^ 2 \<Longrightarrow> read_hour (pad 2 n @ t) = Some (n, t)"
  using read_pad [of n 2 t] by (simp add: read_hour_def)

lemma digit_head: "all_digits (c # s) \<Longrightarrow> c \<notin> {CHR ''Z'', CHR ''+'', CHR ''-'', CHR ''.'', CHR '','', CHR '':''}"
  by (auto simp: all_digits_def digit_val_def code_def)

lemma zone_head: "\<exists>c r. zone_text z = c # r \<and> digit_val c = None \<and> c \<noteq> CHR ''.'' \<and> c \<noteq> CHR '',''"
  by (simp add: zone_text_def digit_val_def code_def)

lemma read_frac_text:
  assumes "0 \<le> f" and "f < Second"
  shows "read_frac (frac_text f @ zone_text z) = (f, zone_text z)"
proof -
  obtain c r where z: "zone_text z = c # r" "digit_val c = None" "c \<noteq> CHR ''.''" "c \<noteq> CHR '',''"
    using zone_head by blast
  show ?thesis
  proof (cases "f = 0")
    case True
    then show ?thesis by (simp add: frac_text_def read_frac_def z Let_def)
  next
    case False
    have l: "length (pad 9 f) = 9" using assms by (intro pad_length) (simp_all add: go_defs)
    have "dec_val (pad 9 f) \<noteq> 0" using pad_value [OF assms(1), of 9] False by linarith
    then obtain t k where t: "pad 9 f = t @ replicate k (CHR ''0'')" "t \<noteq> []" "last t \<noteq> CHR ''0''"
      by (rule strip_zeros)
    then have tr: "TrimRight (pad 9 f) (CHR ''0'') = t" using TrimRight_replicate by simp
    have "all_digits t" using pad_digits [of 9 f] t(1) by simp
    then have d: "takeWhile (\<lambda>x. digit_val x \<noteq> None) (t @ zone_text z) = t"
      using z by (simp add: all_digits_def list_all_iff takeWhile_append2)
    have "take 9 (t @ replicate 9 (CHR ''0'')) = pad 9 f"
    proof -
      have "9 - length t = k" "length t \<le> 9" using l t(1) by simp_all
      then show ?thesis using t(1) by (simp add: min_def)
    qed
    then show ?thesis using False tr d t(2) pad_value [OF assms(1), of 9]
      by (simp add: frac_text_def read_frac_def Let_def)
  qed
qed

lemma read_zone_text:
  assumes "\<bar>z\<bar> < 24 * 60"
  shows "read_zone (zone_text z) = Some z"
proof (cases "z = 0")
  case False
  have h: "0 \<le> \<bar>z\<bar> div 60" "\<bar>z\<bar> div 60 < 10 ^ 2" "\<bar>z\<bar> div 60 < 24" using assms by simp_all
  have m: "0 \<le> \<bar>z\<bar> mod 60" "\<bar>z\<bar> mod 60 < 10 ^ 2" "\<bar>z\<bar> mod 60 < 60" by simp_all
  have "60 * (\<bar>z\<bar> div 60) + \<bar>z\<bar> mod 60 = \<bar>z\<bar>" by simp
  moreover have "\<not> 60 < \<bar>z\<bar> mod 60" using m(3) by linarith
  ultimately show ?thesis using False h(3) read_pad [OF h(1,2)] read_pad [OF m(1,2), of "[]"]
    by (simp add: read_zone_def zone_text_def)
qed (simp add: read_zone_def zone_text_def)

lemma clock_parts:
  assumes "0 \<le> x" and "x < 24 * Hour"
  shows "x div Hour < 24" and "x div Hour * Hour + x div Minute mod 60 * Minute + x div Second mod 60 * Second + x mod Second = x"
proof -
  show "x div Hour < 24" using assms by (simp add: go_defs)
  define q where "q = x div Second"
  have "x div Minute = q div 60" "x div Hour = q div 60 div 60"
    by (simp_all add: q_def go_defs zdiv_zmult2_eq [symmetric])
  moreover have "1000000000 * q + x mod Second = x"
    using mult_div_mod_eq [of Second x] by (simp add: q_def go_defs)
  moreover have "q = 3600 * (q div 60 div 60) + 60 * (q div 60 mod 60) + q mod 60"
    using mult_div_mod_eq [of 60 q] mult_div_mod_eq [of 60 "q div 60"] by linarith
  ultimately show "x div Hour * Hour + x div Minute mod 60 * Minute + x div Second mod 60 * Second + x mod Second = x"
    unfolding q_def [symmetric] by (simp add: Hour_def Minute_def Second_def)
qed

theorem read_format_time:
  assumes "format_time z t = Some s"
  shows "read_time s = Some t"
proof -
  define l where "l = t + z * Minute"
  define x where "x = l mod (24 * Hour)"
  obtain y m d where c: "civil (l div (24 * Hour)) = (y, m, d)" by (cases "civil (l div (24 * Hour))")
  have ok: "0 \<le> y" "y < 10 ^ 4" "\<bar>z\<bar> < 24 * 60"
    and s: "s = pad 4 y @ CHR ''-'' # pad 2 m @ CHR ''-'' # pad 2 d @ CHR ''T'' # pad 2 (x div Hour)
       @ CHR '':'' # pad 2 (x div Minute mod 60) @ CHR '':'' # pad 2 (x div Second mod 60)
       @ frac_text (x mod Second) @ zone_text z"
    using assms c by (auto simp: format_time_def Let_def l_def x_def split: if_splits)
  note cv = civil_correct [OF c]
  have "\<forall>k < 12. month_lengths y ! k \<le> 31" by (simp add: month_lengths_def numeral_eq_Suc All_less_Suc)
  moreover have "nat (m - 1) < 12" using cv(2,3) by simp
  ultimately have d: "1 \<le> d" "d < 10 ^ 2" using cv(4,5) by force+
  have x: "0 \<le> x" "x < 24 * Hour" by (simp_all add: x_def go_defs)
  note cl = clock_parts [OF x]
  have h: "0 \<le> x div Hour" "x div Hour < 10 ^ 2" using x cl(1) by (simp_all add: go_defs)
  have f: "0 \<le> x mod Second" "x mod Second < Second" by (simp_all add: go_defs)
  have l: "l = l div (24 * Hour) * (24 * Hour) + x" unfolding x_def by (rule div_mult_mod_eq [symmetric])
  have "day_number y m d * (24 * Hour) + x div Hour * Hour + x div Minute mod 60 * Minute
      + x div Second mod 60 * Second + x mod Second - z * Minute = t"
    using cl(2) cv(1) l by (simp add: l_def)
  then show ?thesis
    using ok d h cv cl(1) read_pad [of y 4] read_pad [of m 2] read_pad [of d 2] read_hour_pad [OF h]
      read_pad [of "x div Minute mod 60" 2] read_pad [of "x div Second mod 60" 2]
      read_frac_text [OF f] read_zone_text [OF ok(3)]
    by (simp add: read_time_def s)
qed

end
