(* ===== verification/Json_Codec.thy ===== *)
theory Json_Codec
  imports Json Go_Time Store "HOL-Library.List_Lexorder" "HOL-Library.Char_ord"
begin

text \<open>
  The JSON form of what the service stores and sends: \<open>json.Marshal\<close> and \<open>json.Unmarshal\<close>
  on \<open>store.Invoice\<close>, on the metadata map and on the snapshot of the in-memory store, after the
  field tags of the source.  Decoding follows the decoder: members in order, field names exact
  or else case-folded, \<open>null\<close> a no-op, unknown members skipped, duplicates overwriting
  (merging, for maps).  The lemmas: an invoice, a metadata map and a snapshot that are written
  read back as they were, for what can be stored: valid UTF-8, an amount in range, metadata with
  its keys in order (a Go map has none; the sorted list stands for it).
\<close>

section \<open>Metadata\<close>

text \<open>Go maps with string keys are lists sorted by key; \<open>m[k] = v\<close> keeps them so.\<close>

fun map_put :: "string \<Rightarrow> 'a \<Rightarrow> (string \<times> 'a) list \<Rightarrow> (string \<times> 'a) list" where
  "map_put k v [] = [(k, v)]"
| "map_put k v ((a, b) # m) =
     (if k = a then (k, v) # m else if k < a then (k, v) # (a, b) # m else (a, b) # map_put k v m)"

definition canonical :: "(string \<times> 'a) list \<Rightarrow> bool" where
  "canonical m \<longleftrightarrow> sorted_wrt (<) (map fst m)"

definition valid_map :: "(string \<times> string) list \<Rightarrow> bool" where
  "valid_map m \<longleftrightarrow> list_all (\<lambda>kv. valid_utf8 (fst kv) \<and> valid_utf8 (snd kv)) m"

definition jstring :: "string \<Rightarrow> json" where
  "jstring s = JStr (quote s)"

definition string_map_json :: "(string \<times> string) list \<Rightarrow> json" where
  "string_map_json m = JObj (map (\<lambda>kv. (quote (fst kv), jstring (snd kv))) (sort_key fst m))"

definition metaJSON :: "(string \<times> string) list \<Rightarrow> string" where
  "metaJSON m = (if m = [] then ''{}'' else compact (string_map_json m))"

section \<open>Encoding\<close>

definition time_json :: "(gtime \<Rightarrow> int) \<Rightarrow> gtime \<Rightarrow> json option" where
  "time_json zone t = map_option JStr (format_time (zone t) t)"

text \<open>The fields in order; of the \<open>omitempty\<close> tags those of strings and maps have an effect.\<close>

definition invoice_json :: "(gtime \<Rightarrow> int) \<Rightarrow> invoice \<Rightarrow> json option" where
  "invoice_json zone i =
     do { created \<leftarrow> time_json zone (CreatedAt i);
          paid \<leftarrow> time_json zone (PaidAt i);
          expires \<leftarrow> time_json zone (ExpiresAt i);
          Some (JObj ([(''id'', jstring (ID i)), (''payTo'', jstring (PayTo i)), (''memo'', jstring (Memo i)),
              (''amountNano'', JNum (FormatInt (AmountNano i))), (''currency'', jstring (Currency i)),
              (''status'', jstring (Status i))]
            @ (if TxHash i = [] then [] else [(''txHash'', jstring (TxHash i))])
            @ (if Metadata i = [] then [] else [(''metadata'', string_map_json (Metadata i))])
            @ [(''createdAt'', created), (''paidAt'', paid), (''expiresAt'', expires)])) }"

definition MarshalInvoice :: "(gtime \<Rightarrow> int) \<Rightarrow> invoice \<Rightarrow> string option" where
  "MarshalInvoice zone i = map_option compact (invoice_json zone i)"

section \<open>Decoding\<close>

definition dec_string :: "string \<Rightarrow> json \<Rightarrow> string option" where
  "dec_string old j = (case j of JStr raw \<Rightarrow> unquote raw | JNull \<Rightarrow> Some old | _ \<Rightarrow> None)"

definition dec_int :: "int \<Rightarrow> json \<Rightarrow> int option" where
  "dec_int old j =
     (case j of
        JNum x \<Rightarrow> (case ParseInt 64 x of (n, None) \<Rightarrow> Some n | _ \<Rightarrow> None)
      | JNull \<Rightarrow> Some old
      | _ \<Rightarrow> None)"

text \<open>\<open>UnmarshalJSON\<close> of a time gets the literal as it stands, escapes and all.\<close>

definition dec_time :: "gtime \<Rightarrow> json \<Rightarrow> gtime option" where
  "dec_time old j = (case j of JStr raw \<Rightarrow> read_time raw | JNull \<Rightarrow> Some old | _ \<Rightarrow> None)"

fun fold_members :: "('a \<Rightarrow> string \<Rightarrow> json \<Rightarrow> 'a option) \<Rightarrow> (string \<times> json) list \<Rightarrow> 'a \<Rightarrow> 'a option" where
  "fold_members f [] x = Some x"
| "fold_members f ((k, v) # ms) x =
     (case unquote k of
        None \<Rightarrow> None
      | Some key \<Rightarrow> (case f x key v of None \<Rightarrow> None | Some y \<Rightarrow> fold_members f ms y))"

definition dec_struct :: "('a \<Rightarrow> string \<Rightarrow> json \<Rightarrow> 'a option) \<Rightarrow> 'a \<Rightarrow> json \<Rightarrow> 'a option" where
  "dec_struct f old j = (case j of JObj ms \<Rightarrow> fold_members f ms old | JNull \<Rightarrow> Some old | _ \<Rightarrow> None)"

definition dec_string_map :: "(string \<times> string) list \<Rightarrow> json \<Rightarrow> (string \<times> string) list option" where
  "dec_string_map old j =
     (case j of
        JObj ms \<Rightarrow> fold_members (\<lambda>m k v. map_option (\<lambda>x. map_put k x m) (dec_string [] v)) ms old
      | JNull \<Rightarrow> Some []
      | _ \<Rightarrow> None)"

text \<open>
  \<open>foldName\<close> as far as equality with ASCII names goes: letters in upper case, and the two
  runes outside ASCII that fold to letters, U+017F to S and U+212A to K.
\<close>

definition upper :: "char \<Rightarrow> char" where
  "upper c = (if 97 \<le> code c \<and> code c \<le> 122 then char_of (code c - 32) else c)"

fun fold_name :: "string \<Rightarrow> string" where
  "fold_name [] = []"
| "fold_name (c # s) =
     (if c = CHR 0xC5 \<and> take 1 s = [CHR 0xBF] then CHR ''S'' # fold_name (drop 1 s)
      else if c = CHR 0xE2 \<and> take 2 s = [CHR 0x84, CHR 0xAA] then CHR ''K'' # fold_name (drop 2 s)
      else upper c # fold_name s)"

definition field_of :: "string list \<Rightarrow> string \<Rightarrow> string option" where
  "field_of names key = (if key \<in> set names then Some key else find (\<lambda>n. fold_name n = fold_name key) names)"

definition invoice_fields :: "string list" where
  "invoice_fields = [''id'', ''payTo'', ''memo'', ''amountNano'', ''currency'', ''status'', ''txHash'',
     ''metadata'', ''createdAt'', ''paidAt'', ''expiresAt'']"

definition set_invoice_field :: "invoice \<Rightarrow> string \<Rightarrow> json \<Rightarrow> invoice option" where
  "set_invoice_field i key v =
     (case field_of invoice_fields key of
        None \<Rightarrow> Some i
      | Some f \<Rightarrow>
          if f = ''id'' then map_option (\<lambda>x. i\<lparr>ID := x\<rparr>) (dec_string (ID i) v)
          else if f = ''payTo'' then map_option (\<lambda>x. i\<lparr>PayTo := x\<rparr>) (dec_string (PayTo i) v)
          else if f = ''memo'' then map_option (\<lambda>x. i\<lparr>Memo := x\<rparr>) (dec_string (Memo i) v)
          else if f = ''amountNano'' then map_option (\<lambda>x. i\<lparr>AmountNano := x\<rparr>) (dec_int (AmountNano i) v)
          else if f = ''currency'' then map_option (\<lambda>x. i\<lparr>Currency := x\<rparr>) (dec_string (Currency i) v)
          else if f = ''status'' then map_option (\<lambda>x. i\<lparr>Status := x\<rparr>) (dec_string (Status i) v)
          else if f = ''txHash'' then map_option (\<lambda>x. i\<lparr>TxHash := x\<rparr>) (dec_string (TxHash i) v)
          else if f = ''metadata'' then map_option (\<lambda>x. i\<lparr>Metadata := x\<rparr>) (dec_string_map (Metadata i) v)
          else if f = ''createdAt'' then map_option (\<lambda>x. i\<lparr>CreatedAt := x\<rparr>) (dec_time (CreatedAt i) v)
          else if f = ''paidAt'' then map_option (\<lambda>x. i\<lparr>PaidAt := x\<rparr>) (dec_time (PaidAt i) v)
          else map_option (\<lambda>x. i\<lparr>ExpiresAt := x\<rparr>) (dec_time (ExpiresAt i) v))"

definition UnmarshalInvoice :: "string \<Rightarrow> invoice option" where
  "UnmarshalInvoice b = Option.bind (parse_document b) (dec_struct set_invoice_field zero_invoice)"

section \<open>Strings and maps read back\<close>

lemma dec_jstring [simp]: "dec_string old (jstring s) = Some (ToValidUTF8 s)"
  by (simp add: dec_string_def jstring_def unquote_quote)

lemma wf_jstring [simp]: "wf_json (jstring s)" and nesting_jstring [simp]: "nesting (jstring s) = 0"
  by (simp_all add: jstring_def literal_quote)

lemma map_put_last: "canonical (m @ [(k, v)]) \<Longrightarrow> map_put k v m = m @ [(k, v)]"
  by (induction m) (auto simp: canonical_def sorted_wrt_append)

lemma map_put_keys: "set (map fst (map_put k v m)) = insert k (set (map fst m))"
  by (induction k v m rule: map_put.induct) auto

lemma canonical_Cons: "canonical ((a, b) # m) \<longleftrightarrow> (\<forall>k \<in> set (map fst m). a < k) \<and> canonical m"
  by (simp add: canonical_def)

lemma canonical_map_put: "canonical m \<Longrightarrow> canonical (map_put k v m)"
proof (induction k v m rule: map_put.induct)
  case (2 k v a b m)
  then show ?case
    using map_put_keys [of k v m] by (auto simp: canonical_Cons dest: order.strict_trans)
qed (simp add: canonical_def)

lemma map_of_map_put: "canonical m \<Longrightarrow> map_of (map_put k v m) = (map_of m)(k \<mapsto> v)"
proof (induction k v m rule: map_put.induct)
  case (2 k v a b m)
  then show ?case by (auto simp: canonical_Cons fun_upd_twist)
qed simp

lemma valid_map_put: "valid_utf8 k \<Longrightarrow> valid_utf8 v \<Longrightarrow> valid_map m \<Longrightarrow> valid_map (map_put k v m)"
  by (induction k v m rule: map_put.induct) (auto simp: valid_map_def)

lemma canonical_sorted: "canonical m \<Longrightarrow> sort_key fst m = m"
proof (induction m)
  case (Cons kv m)
  then have "sort_key fst m = m" and "\<forall>x \<in> set m. fst kv \<le> fst x" by (auto simp: canonical_def)
  then show ?case by (simp add: insort_is_Cons)
qed simp

text \<open>A map as it is read back: in order of its keys, every text with its invalid bytes replaced.\<close>

definition put_all :: "(string \<times> string) list \<Rightarrow> (string \<times> string) list \<Rightarrow> (string \<times> string) list" where
  "put_all = fold (\<lambda>kv. map_put (ToValidUTF8 (fst kv)) (ToValidUTF8 (snd kv)))"

definition map_as_read :: "(string \<times> string) list \<Rightarrow> (string \<times> string) list" where
  "map_as_read m = put_all (sort_key fst m) []"

lemma fold_string_map:
  "fold_members (\<lambda>m k v. map_option (\<lambda>x. map_put k x m) (dec_string [] v))
      (map (\<lambda>kv. (quote (fst kv), jstring (snd kv))) m') m = Some (put_all m' m)"
  by (induction m' arbitrary: m) (simp_all add: put_all_def unquote_quote)

lemma string_map_reads_back: "dec_string_map [] (string_map_json m) = Some (map_as_read m)"
  using fold_string_map [of "sort_key fst m" "[]"]
  by (simp add: dec_string_map_def string_map_json_def map_as_read_def)

lemma put_all_canonical:
  "canonical (m @ m') \<Longrightarrow> valid_map m' \<Longrightarrow> put_all m' m = m @ m'"
proof (induction m' arbitrary: m)
  case (Cons kv m')
  obtain k v where kv: "kv = (k, v)" by (cases kv)
  have "canonical ((m @ [(k, v)]) @ m')" using Cons.prems(1) kv by simp
  moreover have "canonical (m @ [(k, v)])"
    using Cons.prems(1) kv by (auto simp: canonical_def sorted_wrt_append)
  then have "map_put k v m = m @ [(k, v)]" by (rule map_put_last)
  ultimately show ?case using Cons.IH [of "m @ [(k, v)]"] Cons.prems(2) kv
    by (simp add: put_all_def valid_map_def ToValidUTF8_valid)
qed (simp add: put_all_def)

lemma map_as_read_id: "canonical m \<Longrightarrow> valid_map m \<Longrightarrow> map_as_read m = m"
  using put_all_canonical [of "[]" m] by (simp add: map_as_read_def canonical_sorted)

lemma wf_string_map: "wf_json (string_map_json m)"
  by (auto simp: string_map_json_def literal_quote)

lemma nesting_object:
  assumes "\<And>k v. (k, v) \<in> set ms \<Longrightarrow> nesting v \<le> n" and "0 \<le> n"
  shows "nesting (JObj ms) \<le> 1 + n"
proof -
  have "fold max (map (\<lambda>m. nesting (snd m)) xs) b \<le> n" if "set xs \<subseteq> set ms" "b \<le> n" for xs b
    using that
  proof (induction xs arbitrary: b)
    case (Cons x xs)
    obtain k v where x: "x = (k, v)" by (cases x)
    with Cons.prems assms(1) [of k v] have "nesting v \<le> n" by simp
    with Cons x show ?case by simp
  qed simp
  from this [of ms 0] assms(2) show ?thesis by simp
qed

lemma nesting_string_map: "nesting (string_map_json m) \<le> 1"
proof -
  let ?ms = "map (\<lambda>kv. (quote (fst kv), jstring (snd kv))) (sort_key fst m)"
  have "nesting v \<le> 0" if "(k, v) \<in> set ?ms" for k v using that by auto
  then have "nesting (JObj ?ms) \<le> 1 + 0" by (intro nesting_object order_refl) blast
  then show ?thesis unfolding string_map_json_def by linarith
qed

section \<open>Invoices read back\<close>

text \<open>
  An invoice as it is read back: every text with its invalid bytes replaced.  What can be stored
  is read back as it is.
\<close>

definition as_read :: "invoice \<Rightarrow> invoice" where
  "as_read i = \<lparr>ID = ToValidUTF8 (ID i), PayTo = ToValidUTF8 (PayTo i), Memo = ToValidUTF8 (Memo i),
     AmountNano = AmountNano i, Currency = ToValidUTF8 (Currency i), Status = ToValidUTF8 (Status i),
     TxHash = ToValidUTF8 (TxHash i), Metadata = map_as_read (Metadata i), CreatedAt = CreatedAt i,
     PaidAt = PaidAt i, ExpiresAt = ExpiresAt i\<rparr>"

definition storable :: "invoice \<Rightarrow> bool" where
  "storable i \<longleftrightarrow> list_all valid_utf8 [ID i, PayTo i, Memo i, Currency i, Status i, TxHash i]
     \<and> valid_map (Metadata i) \<and> canonical (Metadata i) \<and> in_int64 (AmountNano i)"

lemma unquote_ascii: "list_all (\<lambda>c. plain_char c \<and> code c < 0x80) s \<Longrightarrow> unquote s = Some s"
proof (induction s)
  case (Cons c s)
  then have c: "plain_char c" "code c < 0x80" by simp_all
  then have "unquote_step (c # s) = Some ([c], 1)"
    by (simp add: unquote_step_def plain_char_def unit_len_def rune_len_ascii fix_unit_def invalid_unit_def)
  with Cons show ?case by (subst unquote.simps) simp
qed simp

lemma unquote_field: "f \<in> set invoice_fields \<Longrightarrow> unquote f = Some f"
  by (rule unquote_ascii) (auto simp: invoice_fields_def plain_char_def code_def)

lemma literal_field: "f \<in> set invoice_fields \<Longrightarrow> literal f"
  by (rule literal_plain) (auto simp: invoice_fields_def plain_char_def code_def)

lemma field_of_exact: "f \<in> set names \<Longrightarrow> field_of names f = Some f"
  by (simp add: field_of_def)

lemma fold_members_append:
  "fold_members f (a @ b) x = Option.bind (fold_members f a x) (fold_members f b)"
  by (induction a arbitrary: x) (auto split: option.splits)

lemma dec_amount [simp]: "in_int64 n \<Longrightarrow> dec_int old (JNum (FormatInt n)) = Some n"
  using ParseInt_FormatInt [of 64 n] by (simp add: dec_int_def in_int64_def go_defs)

lemma dec_time_json: "time_json zone t = Some j \<Longrightarrow> dec_time old j = Some t"
  using read_format_time by (auto simp: time_json_def dec_time_def)

text \<open>One member of an invoice object: a field of the struct and its value.\<close>

lemma set_field:
  "set_invoice_field i ''id'' v = map_option (\<lambda>x. i\<lparr>ID := x\<rparr>) (dec_string (ID i) v)"
  "set_invoice_field i ''payTo'' v = map_option (\<lambda>x. i\<lparr>PayTo := x\<rparr>) (dec_string (PayTo i) v)"
  "set_invoice_field i ''memo'' v = map_option (\<lambda>x. i\<lparr>Memo := x\<rparr>) (dec_string (Memo i) v)"
  "set_invoice_field i ''amountNano'' v = map_option (\<lambda>x. i\<lparr>AmountNano := x\<rparr>) (dec_int (AmountNano i) v)"
  "set_invoice_field i ''currency'' v = map_option (\<lambda>x. i\<lparr>Currency := x\<rparr>) (dec_string (Currency i) v)"
  "set_invoice_field i ''status'' v = map_option (\<lambda>x. i\<lparr>Status := x\<rparr>) (dec_string (Status i) v)"
  "set_invoice_field i ''txHash'' v = map_option (\<lambda>x. i\<lparr>TxHash := x\<rparr>) (dec_string (TxHash i) v)"
  "set_invoice_field i ''metadata'' v = map_option (\<lambda>x. i\<lparr>Metadata := x\<rparr>) (dec_string_map (Metadata i) v)"
  "set_invoice_field i ''createdAt'' v = map_option (\<lambda>x. i\<lparr>CreatedAt := x\<rparr>) (dec_time (CreatedAt i) v)"
  "set_invoice_field i ''paidAt'' v = map_option (\<lambda>x. i\<lparr>PaidAt := x\<rparr>) (dec_time (PaidAt i) v)"
  "set_invoice_field i ''expiresAt'' v = map_option (\<lambda>x. i\<lparr>ExpiresAt := x\<rparr>) (dec_time (ExpiresAt i) v)"
  by (simp_all add: set_invoice_field_def invoice_fields_def field_of_exact)

lemma unquote_names [simp]:
  "unquote ''id'' = Some ''id''" "unquote ''payTo'' = Some ''payTo''" "unquote ''memo'' = Some ''memo''"
  "unquote ''amountNano'' = Some ''amountNano''" "unquote ''currency'' = Some ''currency''"
  "unquote ''status'' = Some ''status''" "unquote ''txHash'' = Some ''txHash''"
  "unquote ''metadata'' = Some ''metadata''" "unquote ''createdAt'' = Some ''createdAt''"
  "unquote ''paidAt'' = Some ''paidAt''" "unquote ''expiresAt'' = Some ''expiresAt''"
  by (rule unquote_field, simp add: invoice_fields_def)+

lemma as_read_id: "storable i \<Longrightarrow> as_read i = i"
  by (cases i) (simp add: as_read_def storable_def ToValidUTF8_valid map_as_read_id)

lemma map_as_read_Nil [simp]: "map_as_read [] = []"
  by (simp add: map_as_read_def put_all_def)

lemma ToValidUTF8_Nil [simp]: "ToValidUTF8 [] = []"
  by (simp add: ToValidUTF8_def)

lemma invoice_reads_back:
  assumes "in_int64 (AmountNano i)" and "invoice_json zone i = Some j"
  shows "dec_struct set_invoice_field zero_invoice j = Some (as_read i)"
proof -
  from assms(2) obtain c p e where t: "time_json zone (CreatedAt i) = Some c"
    "time_json zone (PaidAt i) = Some p" "time_json zone (ExpiresAt i) = Some e"
    and j: "j = JObj ([(''id'', jstring (ID i)), (''payTo'', jstring (PayTo i)), (''memo'', jstring (Memo i)),
              (''amountNano'', JNum (FormatInt (AmountNano i))), (''currency'', jstring (Currency i)),
              (''status'', jstring (Status i))]
            @ (if TxHash i = [] then [] else [(''txHash'', jstring (TxHash i))])
            @ (if Metadata i = [] then [] else [(''metadata'', string_map_json (Metadata i))])
            @ [(''createdAt'', c), (''paidAt'', p), (''expiresAt'', e)])"
    by (auto simp: invoice_json_def bind_eq_Some_conv)
  note times = dec_time_json [OF t(1)] dec_time_json [OF t(2)] dec_time_json [OF t(3)]
  show ?thesis unfolding j dec_struct_def json.case fold_members_append zero_invoice_def as_read_def
    using assms(1) string_map_reads_back times
    by (cases "TxHash i = []"; cases "Metadata i = []") (simp_all add: set_field)
qed

text \<open>The text of a time needs no escaping.\<close>

definition time_char :: "char \<Rightarrow> bool" where
  "time_char c \<longleftrightarrow> plain_char c \<and> code c < 0x80"

lemma time_char_digits: "all_digits s \<Longrightarrow> list_all time_char s"
  by (auto simp: all_digits_def list_all_iff digit_val_def time_char_def plain_char_def code_def split: if_splits)

lemma time_char_marks [simp]:
  "time_char (CHR ''-'')" "time_char (CHR ''+'')" "time_char (CHR '':'')" "time_char (CHR ''T'')"
  "time_char (CHR ''Z'')" "time_char (CHR ''.'')"
  by (simp_all add: time_char_def plain_char_def code_def)

lemma all_digits_TrimRight: "all_digits s \<Longrightarrow> all_digits (TrimRight s c)"
  by (auto simp: all_digits_def list_all_iff TrimRight_def dest: set_dropWhileD)

lemma format_time_chars:
  assumes "format_time z t = Some s"
  shows "list_all time_char s"
proof -
  have pad: "list_all time_char (pad k n)" for k n by (rule time_char_digits) simp
  have "list_all time_char (frac_text f)" for f
    using time_char_digits [OF all_digits_TrimRight [OF pad_digits [of 9 f], of "CHR ''0''"]]
    by (simp add: frac_text_def)
  moreover have "list_all time_char (zone_text z)" using pad by (simp add: zone_text_def)
  ultimately show ?thesis using assms pad by (auto simp: format_time_def Let_def split: prod.splits if_splits)
qed

lemma time_json_wf: "time_json zone t = Some j \<Longrightarrow> wf_json j \<and> nesting j = 0"
proof -
  assume "time_json zone t = Some j"
  then obtain s where "format_time (zone t) t = Some s" "j = JStr s" by (auto simp: time_json_def)
  with format_time_chars [of "zone t" t s] show ?thesis
    by (auto simp: time_char_def list_all_iff intro!: literal_plain)
qed

lemma literal_names [simp]:
  "literal ''id''" "literal ''payTo''" "literal ''memo''" "literal ''amountNano''" "literal ''currency''"
  "literal ''status''" "literal ''txHash''" "literal ''metadata''" "literal ''createdAt''" "literal ''paidAt''"
  "literal ''expiresAt''"
  by (rule literal_field, simp add: invoice_fields_def)+

lemma invoice_json_wf:
  assumes "invoice_json zone i = Some j"
  shows "wf_json j \<and> nesting j \<le> 2"
proof -
  from assms obtain c p e where t: "time_json zone (CreatedAt i) = Some c"
    "time_json zone (PaidAt i) = Some p" "time_json zone (ExpiresAt i) = Some e"
    and j: "j = JObj ([(''id'', jstring (ID i)), (''payTo'', jstring (PayTo i)), (''memo'', jstring (Memo i)),
              (''amountNano'', JNum (FormatInt (AmountNano i))), (''currency'', jstring (Currency i)),
              (''status'', jstring (Status i))]
            @ (if TxHash i = [] then [] else [(''txHash'', jstring (TxHash i))])
            @ (if Metadata i = [] then [] else [(''metadata'', string_map_json (Metadata i))])
            @ [(''createdAt'', c), (''paidAt'', p), (''expiresAt'', e)])"
    by (auto simp: invoice_json_def bind_eq_Some_conv)
  note w = time_json_wf [OF t(1)] time_json_wf [OF t(2)] time_json_wf [OF t(3)]
  have "wf_json j" unfolding j using w wf_string_map by auto
  moreover have "nesting j \<le> 1 + 1" unfolding j
    using w nesting_string_map [of "Metadata i"] by (intro nesting_object) (auto split: if_splits)
  ultimately show ?thesis by simp
qed

text \<open>An invoice with its three times in the years 1 to 9999, whatever the offset, can be written.\<close>

definition in_years :: "int \<Rightarrow> gtime \<Rightarrow> bool" where
  "in_years z t \<longleftrightarrow> \<bar>z\<bar> < 24 * 60 \<and> 0 \<le> t + z * Minute \<and> t + z * Minute < year_start 10000 * (24 * Hour)"

lemma year_start_mono: "y \<le> y' \<Longrightarrow> year_start y \<le> year_start y'"
proof (induction y' rule: int_ge_induct)
  case (step y')
  have "(y' - 1) div 100 \<le> y' div 100" "y' div 100 \<le> (y' - 1) div 100 + 1"
    "(y' - 1) div 4 \<le> y' div 4" "(y' - 1) div 400 \<le> y' div 400" by linarith+
  with step show ?case by (simp add: year_start_def)
qed simp

lemma floor_div_bound: "0 < k \<Longrightarrow> x < y * k \<Longrightarrow> x div k < (y :: int)"
  using floor_div [of k x] by (metis linorder_not_less mult.commute mult_right_mono order_less_imp_le order_trans)

lemma format_time_in_years: "in_years z t \<Longrightarrow> format_time z t \<noteq> None"
proof -
  assume r: "in_years z t"
  let ?n = "(t + z * Minute) div (24 * Hour)"
  obtain y m d where c: "civil ?n = (y, m, d)" by (cases "civil ?n")
  then obtain k where yd: "year_day ?n = (y, k)" by (auto simp: civil_def split: prod.splits)
  note k = year_day_correct [OF yd]
  have "k < 366" using k(3) by (simp add: month_lengths_def split: if_splits)
  have day: "0 < 24 * Hour" by (simp add: go_defs)
  from r have "0 \<le> t + z * Minute" "t + z * Minute < year_start 10000 * (24 * Hour)" by (simp_all add: in_years_def)
  with day have n: "0 \<le> ?n" and n': "?n < year_start 10000"
    by (simp_all only: pos_imp_zdiv_nonneg_iff floor_div_bound)
  have "y \<le> 9999"
  proof (rule ccontr)
    assume "\<not> y \<le> 9999"
    then have "year_start 10000 \<le> year_start y" by (intro year_start_mono) simp
    with k(1,2) n' show False by linarith
  qed
  moreover have "0 \<le> y"
  proof (rule ccontr)
    assume "\<not> 0 \<le> y"
    then have "year_start y \<le> year_start 0" by (intro year_start_mono) simp
    moreover have "year_start 0 = -366" by (simp add: year_start_def)
    ultimately show False using k(1) \<open>k < 366\<close> n by linarith
  qed
  ultimately show ?thesis using r c by (simp add: format_time_def Let_def in_years_def)
qed

lemma MarshalInvoice_total:
  assumes "\<And>t. t \<in> {CreatedAt i, PaidAt i, ExpiresAt i} \<Longrightarrow> in_years (zone t) t"
  shows "MarshalInvoice zone i \<noteq> None"
proof -
  have "time_json zone t \<noteq> None" if "t \<in> {CreatedAt i, PaidAt i, ExpiresAt i}" for t
    using format_time_in_years [OF assms [OF that]] by (simp add: time_json_def)
  then have "time_json zone (CreatedAt i) \<noteq> None" "time_json zone (PaidAt i) \<noteq> None"
    "time_json zone (ExpiresAt i) \<noteq> None" by simp_all
  then show ?thesis by (auto simp: MarshalInvoice_def invoice_json_def)
qed

lemma Unmarshal_Marshal:
  assumes "in_int64 (AmountNano i)" and "MarshalInvoice zone i = Some b"
  shows "UnmarshalInvoice b = Some (as_read i)"
proof -
  from assms(2) obtain j where j: "invoice_json zone i = Some j" and b: "b = compact j"
    by (auto simp: MarshalInvoice_def)
  from invoice_json_wf [OF j] have "parse_document b = Some j"
    unfolding b by (intro parse_compact) (simp_all add: max_nesting_def)
  then show ?thesis using invoice_reads_back [OF assms(1) j] by (simp add: UnmarshalInvoice_def)
qed

section \<open>The metadata column\<close>

text \<open>
  \<open>scanInvoice\<close> ignores the error of \<open>Unmarshal\<close>: a text that is not JSON leaves the
  metadata nil, and members that are not strings read as empty strings.
\<close>

definition lenient_string :: "json \<Rightarrow> string" where
  "lenient_string j = (case dec_string [] j of Some x \<Rightarrow> x | None \<Rightarrow> [])"

definition scan_metadata :: "string \<Rightarrow> (string \<times> string) list" where
  "scan_metadata meta =
     (if meta = [] then []
      else case parse_document meta of
          Some (JObj ms) \<Rightarrow>
            (case fold_members (\<lambda>m k v. Some (map_put k (lenient_string v) m)) ms [] of Some m \<Rightarrow> m | None \<Rightarrow> [])
        | _ \<Rightarrow> [])"

lemma fold_members_mono:
  "fold_members f ms x = Some y \<Longrightarrow> (\<And>a k v b. f a k v = Some b \<Longrightarrow> g a k v = Some b) \<Longrightarrow> fold_members g ms x = Some y"
proof (induction ms arbitrary: x)
  case (Cons kv ms)
  obtain k v where kv: "kv = (k, v)" by (cases kv)
  with Cons.prems(1) obtain key z where "unquote k = Some key" "f x key v = Some z" "fold_members f ms z = Some y"
    by (auto split: option.splits)
  then show ?case using Cons.IH [OF _ Cons.prems(2)] Cons.prems(2) kv by simp
qed simp

lemma scan_metaJSON:
  assumes "canonical m" and "valid_map m"
  shows "scan_metadata (metaJSON m) = m"
proof (cases "m = []")
  case True
  have "parse_document ''{}'' = Some (JObj [])"
    using parse_compact [of "JObj []"] by (simp add: compact_def max_nesting_def)
  with True show ?thesis by (simp add: metaJSON_def scan_metadata_def)
next
  case False
  have "parse_document (compact (string_map_json m)) = Some (string_map_json m)"
    using nesting_string_map [of m] wf_string_map [of m] by (intro parse_compact) (simp_all add: max_nesting_def)
  moreover have "fold_members (\<lambda>m k v. Some (map_put k (lenient_string v) m))
      (map (\<lambda>kv. (quote (fst kv), jstring (snd kv))) m) [] = Some (put_all m [])"
    by (rule fold_members_mono [OF fold_string_map [of m "[]"]]) (auto simp: lenient_string_def)
  moreover have "put_all m [] = m" using put_all_canonical [of "[]" m] assms by simp
  moreover have "compact (string_map_json m) \<noteq> []" by (simp add: compact_def string_map_json_def)
  ultimately show ?thesis using False assms(1)
    by (simp add: metaJSON_def scan_metadata_def string_map_json_def canonical_sorted)
qed

section \<open>What is read is in range\<close>

lemma unquote_step_valid: "unquote_step s = Some (out, n) \<Longrightarrow> valid_utf8 out"
proof -
  assume st: "unquote_step s = Some (out, n)"
  then obtain c cs where s: "s = c # cs" by (cases s) (auto simp: unquote_step_def)
  have one: "valid_utf8 [x]" if "code x < 0x80" for x using that by (intro valid_ascii) simp
  show ?thesis
  proof (cases "c = bslash")
    case False
    with st s have "out = fix_unit (take (unit_len s) s)" by (auto simp: unquote_step_def split: if_splits)
    then show ?thesis using unit_ok_head [of s] fix_unit_valid s by simp
  next
    case True
    with st s obtain e r where e: "cs = e # r" by (cases cs) (auto simp: unquote_step_def)
    show ?thesis
    proof (cases "e = CHR ''u''")
      case True
      with st s e \<open>c = bslash\<close> have "unescape_u r = Some (out, n)" by (simp add: unquote_step_def)
      then show ?thesis
        using EncodeRune_valid by (auto simp: unescape_u_def Let_def split: option.splits if_splits)
    next
      case no: False
      with st s e True have "out \<in> {[dquote], [bslash], ''/'', [CHR 0x27], [CHR 0x08], [CHR 0x0C], [CHR 0x0A], [CHR 0x0D], [CHR 0x09]}"
        by (simp add: unquote_step_def split: if_splits) (elim disjE conjE, simp_all)
      moreover have "valid_utf8 x"
        if "x \<in> {[dquote], [bslash], ''/'', [CHR 0x27], [CHR 0x08], [CHR 0x0C], [CHR 0x0A], [CHR 0x0D], [CHR 0x09]}" for x
        using that by (elim insertE emptyE) (simp_all add: one code_def)
      ultimately show ?thesis by blast
    qed
  qed
qed

lemma unquote_valid: "unquote s = Some v \<Longrightarrow> valid_utf8 v"
proof (induction s arbitrary: v rule: unquote.induct)
  case (1 s)
  show ?case
  proof (cases "s = []")
    case True
    with 1(2) show ?thesis by simp
  next
    case False
    with 1(2) obtain out n w where st: "unquote_step s = Some (out, n)" and u: "unquote (drop (max 1 n) s) = Some w"
      and v: "v = out @ w" by (subst (asm) unquote.simps) (auto split: option.splits)
    have "valid_utf8 w" using 1(1) [OF False st refl u] .
    with unquote_step_valid [OF st] v show ?thesis by (simp add: valid_utf8_append)
  qed
qed

lemma dec_string_valid: "dec_string old j = Some x \<Longrightarrow> valid_utf8 old \<Longrightarrow> valid_utf8 x"
  by (auto simp: dec_string_def dest: unquote_valid split: json.splits)

lemma ParseInt_int64: "ParseInt 64 s = (n, None) \<Longrightarrow> in_int64 n"
  by (auto simp: ParseInt_def in_int64_def go_defs Let_def split: if_splits sum.splits num_error.splits)

lemma dec_int_range: "dec_int old j = Some n \<Longrightarrow> in_int64 old \<Longrightarrow> in_int64 n"
  by (auto simp: dec_int_def dest: ParseInt_int64 split: json.splits prod.splits option.splits)

lemma fold_members_inv:
  assumes "fold_members f ms x = Some y" and "P x"
    and "\<And>a k v b. P a \<Longrightarrow> valid_utf8 k \<Longrightarrow> f a k v = Some b \<Longrightarrow> P b"
  shows "P y"
  using assms(1,2)
proof (induction ms arbitrary: x)
  case (Cons kv ms)
  obtain k v where kv: "kv = (k, v)" by (cases kv)
  with Cons.prems(1) obtain key z where u: "unquote k = Some key" and f: "f x key v = Some z"
    and r: "fold_members f ms z = Some y" by (auto split: option.splits)
  from Cons.IH [OF r assms(3) [OF Cons.prems(2) unquote_valid [OF u] f]] show ?case .
qed simp

lemma dec_string_map_valid:
  assumes "dec_string_map old j = Some m" and "canonical old \<and> valid_map old"
  shows "canonical m \<and> valid_map m"
proof (cases j)
  case (JObj ms)
  with assms(1) have f: "fold_members (\<lambda>m k v. map_option (\<lambda>x. map_put k x m) (dec_string [] v)) ms old = Some m"
    by (simp add: dec_string_map_def)
  show ?thesis
    by (rule fold_members_inv [where P = "\<lambda>m. canonical m \<and> valid_map m", OF f assms(2)])
      (auto intro: canonical_map_put valid_map_put dest: dec_string_valid)
qed (use assms in \<open>auto simp: dec_string_map_def canonical_def valid_map_def\<close>)

section \<open>Metadata through a \<open>jsonb\<close> column\<close>

text \<open>
  PostgreSQL keeps a \<open>jsonb\<close> value, not its text: the members come back in an order and a
  spelling of its own.  Whatever text comes back, if its members are those of the map, the map is
  read back.
\<close>

lemma canonical_unique:
  "canonical m \<Longrightarrow> canonical m' \<Longrightarrow> map_of m = map_of m' \<Longrightarrow> m = m'"
proof (induction m arbitrary: m')
  case Nil
  then show ?case by (cases m') (auto simp: fun_eq_iff split: if_splits dest: meta_spec)
next
  case (Cons e m)
  obtain a b where e: "e = (a, b)" by (cases e)
  from Cons.prems(3) e have "map_of m' a = Some b" by (metis map_of_Cons_code(2))
  then obtain c d m'' where m': "m' = (c, d) # m''" by (cases m') auto
  have lt: "\<forall>k \<in> set (map fst m). a < k" "canonical m" using Cons.prems(1) e by (simp_all add: canonical_Cons)
  have lt': "\<forall>k \<in> set (map fst m''). c < k" "canonical m''" using Cons.prems(2) m' by (simp_all add: canonical_Cons)
  have doms: "set (map fst (e # m)) = set (map fst m')" using Cons.prems(3) by (metis dom_map_of_conv_image_fst list.set_map)
  have ac: "a = c"
  proof (rule ccontr)
    assume "a \<noteq> c"
    with doms e m' have "a \<in> set (map fst m'')" "c \<in> set (map fst m)" by auto
    with lt lt' show False by (meson order.asym)
  qed
  have "a \<notin> set (map fst m)" "a \<notin> set (map fst m'')" using lt lt' ac by auto
  then have "map_of m a = None" "map_of m'' a = None" by (simp_all add: map_of_eq_None_iff)
  moreover have "b = d" using \<open>map_of m' a = Some b\<close> m' ac by simp
  ultimately have "map_of m k = map_of m'' k" for k
    using fun_cong [OF Cons.prems(3), of k] e m' ac by (auto split: if_splits)
  then have "map_of m = map_of m''" by (simp add: fun_eq_iff)
  from Cons.IH [OF lt(2) lt'(2) this] show ?case using e m' ac \<open>b = d\<close> by simp
qed

lemma fold_map_put:
  "canonical m \<Longrightarrow> canonical (fold (\<lambda>kv. map_put (fst kv) (snd kv)) xs m)
    \<and> map_of (fold (\<lambda>kv. map_put (fst kv) (snd kv)) xs m) = fold (\<lambda>kv f. f(fst kv \<mapsto> snd kv)) xs (map_of m)"
  by (induction xs arbitrary: m) (simp_all add: canonical_map_put map_of_map_put)

lemma fold_upd_distinct:
  "distinct (map fst xs) \<Longrightarrow> fold (\<lambda>kv f. f(fst kv \<mapsto> snd kv)) xs f k = (case map_of xs k of Some v \<Rightarrow> Some v | None \<Rightarrow> f k)"
proof (induction xs arbitrary: f)
  case (Cons e xs)
  have "map_of xs k = None" if "k = fst e" using Cons.prems that by (simp add: map_of_eq_None_iff)
  with Cons show ?case by (cases e; cases "map_of xs k") auto
qed simp

definition member_text :: "string \<times> json \<Rightarrow> (string \<times> string) option" where
  "member_text kv = (case (unquote (fst kv), dec_string [] (snd kv)) of (Some k, Some v) \<Rightarrow> Some (k, v) | _ \<Rightarrow> None)"

lemma fold_member_texts:
  "map member_text ms = map Some xs \<Longrightarrow>
     fold_members (\<lambda>m k v. Some (map_put k (lenient_string v) m)) ms m = Some (fold (\<lambda>kv. map_put (fst kv) (snd kv)) xs m)"
proof (induction ms arbitrary: xs m)
  case (Cons kv ms)
  obtain k v where kv: "kv = (k, v)" by (cases kv)
  from Cons.prems obtain x xs' where xs: "xs = x # xs'" "member_text kv = Some x" "map member_text ms = map Some xs'"
    by (cases xs) auto
  then have "unquote k = Some (fst x)" "lenient_string v = snd x"
    by (auto simp: member_text_def kv lenient_string_def split: option.splits)
  then show ?case using Cons.IH [OF xs(3)] by (simp add: kv xs(1))
qed simp

lemma jsonb_reads_back:
  assumes "canonical m" and "parse_document t = Some (JObj ms)" and "t \<noteq> []"
    and "map member_text ms = map Some xs" and "distinct (map fst xs)" and "set xs = set m"
  shows "scan_metadata t = m"
proof -
  let ?r = "fold (\<lambda>kv. map_put (fst kv) (snd kv)) xs []"
  have nil: "canonical ([] :: (string \<times> string) list)" by (simp add: canonical_def)
  have "distinct (map fst m)"
    using assms(1) strict_sorted_iff [of "map fst m"] by (simp add: canonical_def)
  then have "map_of xs = map_of m" by (intro map_of_inject_set [THEN iffD2] assms(5,6))
  moreover have "map_of ?r = map_of xs"
    using fold_map_put [OF nil, of xs] fold_upd_distinct [OF assms(5), of "map_of []"]
    by (auto simp: fun_eq_iff split: option.splits)
  ultimately have "?r = m" using fold_map_put [OF nil, of xs] assms(1) by (intro canonical_unique) simp_all
  then show ?thesis using fold_member_texts [OF assms(4), of "[]"] assms(2,3) by (simp add: scan_metadata_def)
qed

text \<open>
  C18: Metadata survives the column. What \<open>metaJSON\<close> writes is scanned as the same map, for any
  map of valid UTF-8; and so is every other text that PostgreSQL may return for the value, in
  whatever order, spacing and spelling, as long as its members are those of the map.
\<close>

theorem metadata_survives_the_column:
  assumes "canonical m" and "valid_map m"
    and "parse_document t = Some (JObj ms)" and "t \<noteq> []"
    and "map member_text ms = map Some xs" and "distinct (map fst xs)" and "set xs = set m"
  shows "scan_metadata (metaJSON m) = m \<and> scan_metadata t = m"
  by (rule conjI [OF scan_metaJSON [OF assms(1,2)] jsonb_reads_back [OF assms(1,3-7)]])

definition sample_meta :: "(string \<times> string) list" where
  "sample_meta = [(''<'', ''1''), (''b'', ''2'')]"

theorem metadata_survives_the_column_witness:
  "scan_metadata (metaJSON sample_meta) = sample_meta
   \<and> scan_metadata (''{ '' @ [dquote] @ ''b'' @ [dquote] @ '': '' @ [dquote] @ ''2'' @ [dquote] @ '', ''
        @ [dquote] @ ''<'' @ [dquote] @ '': '' @ [dquote] @ ''1'' @ [dquote] @ '' }'') = sample_meta"
  (is "_ \<and> scan_metadata ?t = _")
proof -
  have v: "valid_utf8 ''<''" "valid_utf8 ''b''" "valid_utf8 ''1''" "valid_utf8 ''2''"
    by (rule valid_ascii, simp add: code_def)+
  have m: "canonical sample_meta" "valid_map sample_meta"
    using v by (simp_all add: sample_meta_def canonical_def valid_map_def)
  have p: "parse_document ?t = Some (JObj [(''b'', JStr ''2''), (''<'', JStr ''1'')])" by code_simp
  have "unquote ''b'' = Some ''b''" "unquote ''1'' = Some ''1''" "unquote ''<'' = Some ''<''" "unquote ''2'' = Some ''2''"
    by (rule unquote_ascii, simp add: plain_char_def code_def)+
  then have x: "map member_text [(''b'', JStr ''2''), (''<'', JStr ''1'')] = map Some [(''b'', ''2''), (''<'', ''1'')]"
    by (simp add: member_text_def dec_string_def)
  have "distinct (map fst [(''b'', ''2''), (''<'', ''1'')])"
    "set [(''b'', ''2''), (''<'', ''1'')] = set sample_meta" by (auto simp: sample_meta_def)
  from metadata_survives_the_column [OF m p _ x this] show ?thesis by simp
qed

end
