(* ===== verification/Toncenter.thy ===== *)
theory Toncenter
  imports Json_Codec
begin

text \<open>
  The answer of toncenter (internal/wallet/ton.go, \<open>tcResponse\<close>): the transactions as the code
  keeps them, and \<open>json.Decoder.Decode\<close> from the bytes of a body into them.  Only the first value
  of the body is read and unknown members are skipped.  Every element of an array is decoded into a
  zero value; a second \<open>result\<close> member, whose elements Go would decode into those of the first, is
  taken to replace it.  The lemmas: what is decoded is valid UTF-8, and a printed answer reads back.
\<close>

record tc_tx =
  tc_utime :: int64
  tc_lt :: string
  tc_hash :: string
  tc_source :: string
  tc_destination :: string
  tc_value :: string
  tc_message :: string

record tcResponse =
  tc_ok :: bool
  tc_result :: "tc_tx list"

definition zero_tx :: tc_tx where
  "zero_tx = \<lparr>tc_utime = 0, tc_lt = [], tc_hash = [], tc_source = [], tc_destination = [], tc_value = [],
     tc_message = []\<rparr>"

definition dec_bool :: "bool \<Rightarrow> json \<Rightarrow> bool option" where
  "dec_bool old j = (case j of JBool b \<Rightarrow> Some b | JNull \<Rightarrow> Some old | _ \<Rightarrow> None)"

definition set_transaction_id :: "tc_tx \<Rightarrow> string \<Rightarrow> json \<Rightarrow> tc_tx option" where
  "set_transaction_id tx key v =
     (case field_of [''lt'', ''hash''] key of
        None \<Rightarrow> Some tx
      | Some f \<Rightarrow>
          if f = ''lt'' then map_option (\<lambda>x. tx\<lparr>tc_lt := x\<rparr>) (dec_string (tc_lt tx) v)
          else map_option (\<lambda>x. tx\<lparr>tc_hash := x\<rparr>) (dec_string (tc_hash tx) v))"

definition set_in_msg :: "tc_tx \<Rightarrow> string \<Rightarrow> json \<Rightarrow> tc_tx option" where
  "set_in_msg tx key v =
     (case field_of [''source'', ''destination'', ''value'', ''message''] key of
        None \<Rightarrow> Some tx
      | Some f \<Rightarrow>
          if f = ''source'' then map_option (\<lambda>x. tx\<lparr>tc_source := x\<rparr>) (dec_string (tc_source tx) v)
          else if f = ''destination'' then map_option (\<lambda>x. tx\<lparr>tc_destination := x\<rparr>) (dec_string (tc_destination tx) v)
          else if f = ''value'' then map_option (\<lambda>x. tx\<lparr>tc_value := x\<rparr>) (dec_string (tc_value tx) v)
          else map_option (\<lambda>x. tx\<lparr>tc_message := x\<rparr>) (dec_string (tc_message tx) v))"

definition set_tx_field :: "tc_tx \<Rightarrow> string \<Rightarrow> json \<Rightarrow> tc_tx option" where
  "set_tx_field tx key v =
     (case field_of [''utime'', ''transaction_id'', ''in_msg''] key of
        None \<Rightarrow> Some tx
      | Some f \<Rightarrow>
          if f = ''utime'' then map_option (\<lambda>x. tx\<lparr>tc_utime := x\<rparr>) (dec_int (tc_utime tx) v)
          else if f = ''transaction_id'' then dec_struct set_transaction_id tx v
          else dec_struct set_in_msg tx v)"

definition dec_txs :: "tc_tx list \<Rightarrow> json \<Rightarrow> tc_tx list option" where
  "dec_txs old j =
     (case j of
        JArr vs \<Rightarrow> those (map (dec_struct set_tx_field zero_tx) vs)
      | JNull \<Rightarrow> Some []
      | _ \<Rightarrow> None)"

definition set_answer_field :: "tcResponse \<Rightarrow> string \<Rightarrow> json \<Rightarrow> tcResponse option" where
  "set_answer_field r key v =
     (case field_of [''ok'', ''result''] key of
        None \<Rightarrow> Some r
      | Some f \<Rightarrow>
          if f = ''ok'' then map_option (\<lambda>x. r\<lparr>tc_ok := x\<rparr>) (dec_bool (tc_ok r) v)
          else map_option (\<lambda>x. r\<lparr>tc_result := x\<rparr>) (dec_txs (tc_result r) v))"

definition decode_answer :: "string \<Rightarrow> tcResponse option" where
  "decode_answer body =
     (case next_value body of
        None \<Rightarrow> None
      | Some (j, r) \<Rightarrow> dec_struct set_answer_field \<lparr>tc_ok = False, tc_result = []\<rparr> j)"

section \<open>What is decoded is valid UTF-8\<close>

definition tx_valid :: "tc_tx \<Rightarrow> bool" where
  "tx_valid tx \<longleftrightarrow> list_all valid_utf8 [tc_lt tx, tc_hash tx, tc_source tx, tc_destination tx, tc_value tx, tc_message tx]
     \<and> in_int64 (tc_utime tx)"

lemma dec_struct_inv:
  assumes "dec_struct f x j = Some y" and "P x"
    and "\<And>a k v b. P a \<Longrightarrow> f a k v = Some b \<Longrightarrow> P b"
  shows "P y"
proof (cases j)
  case (JObj ms)
  with assms(1) have "fold_members f ms x = Some y" by (simp add: dec_struct_def)
  then show ?thesis using assms(2,3) by (rule fold_members_inv)
qed (use assms in \<open>auto simp: dec_struct_def\<close>)

lemma zero_tx_valid: "tx_valid zero_tx"
  by (simp add: tx_valid_def zero_tx_def in_int64_def go_defs)

lemma set_transaction_id_valid: "tx_valid a \<Longrightarrow> set_transaction_id a k v = Some b \<Longrightarrow> tx_valid b"
  by (auto simp: set_transaction_id_def tx_valid_def dest: dec_string_valid split: option.splits if_splits)

lemma set_in_msg_valid: "tx_valid a \<Longrightarrow> set_in_msg a k v = Some b \<Longrightarrow> tx_valid b"
  by (auto simp: set_in_msg_def tx_valid_def dest: dec_string_valid split: option.splits if_splits)

lemma set_tx_field_valid: "tx_valid a \<Longrightarrow> set_tx_field a k v = Some b \<Longrightarrow> tx_valid b"
proof -
  assume a: "tx_valid a" and s: "set_tx_field a k v = Some b"
  show ?thesis
  proof (cases "field_of [''utime'', ''transaction_id'', ''in_msg''] k")
    case None
    with a s show ?thesis by (simp add: set_tx_field_def)
  next
    case (Some f)
    show ?thesis
    proof (cases "f = ''utime''")
      case True
      with a s Some show ?thesis by (auto simp: set_tx_field_def tx_valid_def dest: dec_int_range)
    next
      case False
      show ?thesis
      proof (cases "f = ''transaction_id''")
        case True
        with s Some have "dec_struct set_transaction_id a v = Some b" by (simp add: set_tx_field_def)
        then show ?thesis using a set_transaction_id_valid by (rule dec_struct_inv)
      next
        case no: False
        with False s Some have "dec_struct set_in_msg a v = Some b" by (simp add: set_tx_field_def)
        then show ?thesis using a set_in_msg_valid by (rule dec_struct_inv)
      qed
    qed
  qed
qed

lemma those_set: "those xs = Some ys \<Longrightarrow> y \<in> set ys \<Longrightarrow> Some y \<in> set xs"
  by (induction xs arbitrary: ys) (auto split: option.splits)

lemma dec_txs_valid: "dec_txs old j = Some txs \<Longrightarrow> tx \<in> set txs \<Longrightarrow> tx_valid tx"
proof -
  assume d: "dec_txs old j = Some txs" and tx: "tx \<in> set txs"
  show ?thesis
  proof (cases j)
    case (JArr vs)
    with d tx those_set obtain v where "dec_struct set_tx_field zero_tx v = Some tx"
      by (fastforce simp: dec_txs_def)
    then show ?thesis using zero_tx_valid set_tx_field_valid by (rule dec_struct_inv)
  qed (use d tx in \<open>auto simp: dec_txs_def\<close>)
qed

lemma set_answer_valid:
  "\<forall>tx \<in> set (tc_result a). tx_valid tx \<Longrightarrow> set_answer_field a k v = Some b \<Longrightarrow> \<forall>tx \<in> set (tc_result b). tx_valid tx"
  by (auto simp: set_answer_field_def dest: dec_txs_valid split: option.splits if_splits)

lemma decode_answer_valid: "decode_answer body = Some r \<Longrightarrow> tx \<in> set (tc_result r) \<Longrightarrow> tx_valid tx"
proof -
  assume "decode_answer body = Some r" and tx: "tx \<in> set (tc_result r)"
  then obtain j where "dec_struct set_answer_field \<lparr>tc_ok = False, tc_result = []\<rparr> j = Some r"
    by (auto simp: decode_answer_def split: option.splits)
  then have "\<forall>tx \<in> set (tc_result r). tx_valid tx"
    by (rule dec_struct_inv [where P = "\<lambda>r. \<forall>tx \<in> set (tc_result r). tx_valid tx"]) (simp, rule set_answer_valid)
  with tx show ?thesis by blast
qed

section \<open>A printed answer reads back\<close>

definition tx_json :: "tc_tx \<Rightarrow> json" where
  "tx_json tx = JObj [(''utime'', JNum (FormatInt (tc_utime tx))),
     (''transaction_id'', JObj [(''lt'', jstring (tc_lt tx)), (''hash'', jstring (tc_hash tx))]),
     (''in_msg'', JObj [(''source'', jstring (tc_source tx)), (''destination'', jstring (tc_destination tx)),
        (''value'', jstring (tc_value tx)), (''message'', jstring (tc_message tx))])]"

definition answer_text :: "tcResponse \<Rightarrow> string" where
  "answer_text r = compact (JObj [(''ok'', JBool (tc_ok r)), (''result'', JArr (map tx_json (tc_result r)))])"

lemma answer_names [simp]:
  "unquote ''utime'' = Some ''utime''" "unquote ''transaction_id'' = Some ''transaction_id''"
  "unquote ''lt'' = Some ''lt''" "unquote ''hash'' = Some ''hash''" "unquote ''in_msg'' = Some ''in_msg''"
  "unquote ''source'' = Some ''source''" "unquote ''destination'' = Some ''destination''"
  "unquote ''value'' = Some ''value''" "unquote ''message'' = Some ''message''" "unquote ''ok'' = Some ''ok''"
  "unquote ''result'' = Some ''result''"
  by (rule unquote_ascii, simp add: plain_char_def code_def)+

lemma answer_literals [simp]:
  "literal ''utime''" "literal ''transaction_id''" "literal ''lt''" "literal ''hash''" "literal ''in_msg''"
  "literal ''source''" "literal ''destination''" "literal ''value''" "literal ''message''" "literal ''ok''"
  "literal ''result''"
  by (rule literal_plain, simp add: plain_char_def code_def)+

lemma tx_reads_back: "tx_valid tx \<Longrightarrow> dec_struct set_tx_field zero_tx (tx_json tx) = Some tx"
  by (cases tx) (simp add: tx_json_def dec_struct_def set_tx_field_def set_transaction_id_def set_in_msg_def
      field_of_exact zero_tx_def tx_valid_def ToValidUTF8_valid)

lemma txs_read_back: "\<forall>tx \<in> set txs. tx_valid tx \<Longrightarrow> those (map (dec_struct set_tx_field zero_tx \<circ> tx_json) txs) = Some txs"
  by (induction txs) (simp_all add: tx_reads_back)

lemma answer_reads_back:
  assumes "\<forall>tx \<in> set (tc_result r). tx_valid tx"
  shows "decode_answer (answer_text r) = Some r"
proof -
  let ?j = "JObj [(''ok'', JBool (tc_ok r)), (''result'', JArr (map tx_json (tc_result r)))]"
  have tx: "wf_json (tx_json tx) \<and> nesting (tx_json tx) \<le> 2" for tx
  proof
    show "wf_json (tx_json tx)" by (simp add: tx_json_def)
    have "nesting (tx_json tx) \<le> 1 + 1" unfolding tx_json_def by (intro nesting_object) auto
    then show "nesting (tx_json tx) \<le> 2" by simp
  qed
  have "fold max (map nesting xs) b \<le> 2" if "\<forall>x \<in> set xs. nesting x \<le> 2" "b \<le> 2" for xs b
    using that by (induction xs arbitrary: b) auto
  from this [of "map tx_json (tc_result r)" 0] tx have "nesting (JArr (map tx_json (tc_result r))) \<le> 3"
    by (simp del: map_map)
  then have "nesting ?j \<le> 1 + 3" by (intro nesting_object) auto
  moreover have "wf_json ?j" using tx by auto
  ultimately have "next_value (answer_text r @ []) = Some (?j, [])"
    unfolding answer_text_def compact_def
    by (intro next_value_printed layout_compact delim_ends) (simp_all add: max_nesting_def)
  then show ?thesis using txs_read_back [OF assms]
    by (cases r) (simp add: decode_answer_def dec_struct_def set_answer_field_def field_of_exact dec_bool_def dec_txs_def)
qed

end
