(* ===== verification/Base64.thy ===== *)
theory Base64
  imports Go_Strings
begin

text \<open>
  Go's \<open>encoding/base64\<close> as the service uses it: \<open>StdEncoding\<close> and \<open>URLEncoding\<close>
  (padded) for addresses, \<open>RawURLEncoding\<close> (unpadded) for invoice ids.  The decoder is
  Go's non-strict one: it skips carriage returns and line feeds anywhere and ignores
  the spare bits of a padded last group.  An encoder works through the list of
  six-bit digits (\<open>sextets\<close>), which is what the two alphabets share; the lemmas are the
  round trip in both directions and the locality of one digit.
\<close>

definition std_alphabet :: string where
  "std_alphabet = ''ABCDEFGHIJKLMNOPQRSTUVWXYZabcdefghijklmnopqrstuvwxyz0123456789+/''"

definition url_alphabet :: string where
  "url_alphabet = ''ABCDEFGHIJKLMNOPQRSTUVWXYZabcdefghijklmnopqrstuvwxyz0123456789-_''"

definition pad_char :: char where [go_defs]: "pad_char = CHR ''=''"

definition good_alphabet :: "string \<Rightarrow> bool" where
  "good_alphabet al \<longleftrightarrow> distinct al \<and> length al = 64 \<and> pad_char \<notin> set al
     \<and> list_all (\<lambda>c. graphic c \<and> c \<noteq> CHR '':'') al"

lemma good_std [simp]: "good_alphabet std_alphabet" by code_simp
lemma good_url [simp]: "good_alphabet url_alphabet" by code_simp

section \<open>Groups of three bytes and four digits\<close>

definition digits3 :: "byte \<Rightarrow> byte \<Rightarrow> byte \<Rightarrow> nat list" where
  "digits3 x y z =
     [unat x div 4, unat x mod 4 * 16 + unat y div 16, unat y mod 16 * 4 + unat z div 64, unat z mod 64]"

definition group_val :: "nat \<Rightarrow> nat \<Rightarrow> nat \<Rightarrow> nat \<Rightarrow> nat" where
  "group_val p q r s = 262144 * p + 4096 * q + 64 * r + s"

definition group_bytes :: "nat \<Rightarrow> byte list" where
  "group_bytes v = [of_nat (v div 65536), of_nat (v div 256), of_nat v]"

fun sextets :: "byte list \<Rightarrow> nat list" where
  "sextets (x # y # z # rest) = digits3 x y z @ sextets rest"
| "sextets [x, y] = take 3 (digits3 x y 0)"
| "sextets [x] = take 2 (digits3 x 0 0)"
| "sextets [] = []"

definition padding :: "byte list \<Rightarrow> string" where
  "padding bs = replicate ((3 - length bs mod 3) mod 3) pad_char"

text \<open>\<open>EncodeToString\<close>, with and without padding.\<close>

definition b64_encode :: "string \<Rightarrow> byte list \<Rightarrow> string" where
  "b64_encode al bs = map ((!) al) (sextets bs) @ padding bs"

definition raw_b64_encode :: "string \<Rightarrow> byte list \<Rightarrow> string" where
  "raw_b64_encode al bs = map ((!) al) (sextets bs)"

text \<open>\<open>DecodeString\<close> for a padded encoding; \<open>None\<close> is \<open>CorruptInputError\<close>.\<close>

fun b64_groups :: "string \<Rightarrow> string \<Rightarrow> byte list option" where
  "b64_groups al [] = Some []"
| "b64_groups al (a # b # c # d # rest) =
     (case (index_of al a, index_of al b) of
        (Some p, Some q) \<Rightarrow>
          (if rest = [] \<and> d = pad_char then
             (if c = pad_char then Some (take 1 (group_bytes (group_val p q 0 0)))
              else map_option (\<lambda>r. take 2 (group_bytes (group_val p q r 0))) (index_of al c))
           else case (index_of al c, index_of al d) of
               (Some r, Some s) \<Rightarrow> map_option ((@) (group_bytes (group_val p q r s))) (b64_groups al rest)
             | _ \<Rightarrow> None)
      | _ \<Rightarrow> None)"
| "b64_groups al _ = None"

definition newline :: "char \<Rightarrow> bool" where
  "newline c \<longleftrightarrow> c = CHR 0x0A \<or> c = CHR 0x0D"

definition b64_decode :: "string \<Rightarrow> string \<Rightarrow> byte list option" where
  "b64_decode al s = b64_groups al (filter (\<lambda>c. \<not> newline c) s)"

section \<open>Digits\<close>

lemma good_index: "good_alphabet al \<Longrightarrow> n < 64 \<Longrightarrow> index_of al (al ! n) = Some n"
  by (simp add: good_alphabet_def index_of_nth)

lemma good_nth: "good_alphabet al \<Longrightarrow> n < 64 \<Longrightarrow> graphic (al ! n) \<and> al ! n \<noteq> CHR '':'' \<and> al ! n \<noteq> pad_char"
  by (force simp: good_alphabet_def list_all_length in_set_conv_nth)

lemma good_index_bound: "good_alphabet al \<Longrightarrow> index_of al c = Some n \<Longrightarrow> n < 64 \<and> al ! n = c"
  using index_of_SomeD [of al c n] by (simp add: good_alphabet_def)

lemma unat_of_nat_byte [simp]: "unat (of_nat n :: byte) = n mod 256"
  by (simp add: unsigned_of_nat take_bit_eq_mod)

lemma digits3_bound: "n \<in> set (digits3 x y z) \<Longrightarrow> n < 64"
  using unat_byte_bound [of x] unat_byte_bound [of y] unat_byte_bound [of z]
  by (auto simp: digits3_def)

lemma sextets_bound: "n \<in> set (sextets bs) \<Longrightarrow> n < 64"
  by (induction bs rule: sextets.induct) (auto dest: in_set_takeD digits3_bound)

text \<open>The 24-bit value of a group, read as three bytes and as four digits.\<close>

lemma bytes_of_val:
  fixes a b c :: nat
  assumes "b < 256" and "c < 256"
  shows "(65536 * a + 256 * b + c) div 65536 = a"
    and "(65536 * a + 256 * b + c) div 256 mod 256 = b"
    and "(65536 * a + 256 * b + c) mod 256 = c"
proof -
  show "(65536 * a + 256 * b + c) div 65536 = a" using assms by (intro div_nat_eqI) auto
  have "(65536 * a + 256 * b + c) div 256 = 256 * a + b" using assms by (intro div_nat_eqI) auto
  then show "(65536 * a + 256 * b + c) div 256 mod 256 = b" using assms by simp
  have "(256 * (256 * a + b) + c) mod 256 = c" using assms by (simp only: mod_mult_self4) simp
  then show "(65536 * a + 256 * b + c) mod 256 = c" by (simp add: algebra_simps)
qed

lemma group_bytes_val:
  "a < 256 \<Longrightarrow> b < 256 \<Longrightarrow> c < 256 \<Longrightarrow>
   map unat (group_bytes (65536 * a + 256 * b + c)) = [a, b, c]"
  by (simp only: group_bytes_def list.map unat_of_nat_byte bytes_of_val mod_less)

lemma group_digits3:
  "digits3 x y z = [p, q, r, s] \<Longrightarrow> group_bytes (group_val p q r s) = [x, y, z]"
proof -
  assume d: "digits3 x y z = [p, q, r, s]"
  have "unat x = 4 * (unat x div 4) + unat x mod 4" "unat y = 16 * (unat y div 16) + unat y mod 16"
    "unat z = 64 * (unat z div 64) + unat z mod 64" by simp_all
  with d have "group_val p q r s = 65536 * unat x + 256 * unat y + unat z"
    unfolding digits3_def group_val_def list.inject by linarith
  then have "map unat (group_bytes (group_val p q r s)) = map unat [x, y, z]"
    by (simp only: list.map group_bytes_val [OF unat_byte_bound unat_byte_bound unat_byte_bound])
  then show ?thesis by (rule map_injective) (auto intro!: injI unsigned_word_eqI)
qed

lemma digits3_group:
  assumes "p < 64" "q < 64" "r < 64" "s < 64" and "group_bytes (group_val p q r s) = [x, y, z]"
  shows "digits3 x y z = [p, q, r, s]"
proof -
  obtain q1 q0 where q: "q = 16 * q1 + q0" "q0 < 16"
    by (rule that [of "q div 16" "q mod 16"]) simp_all
  obtain r1 r0 where r: "r = 4 * r1 + r0" "r0 < 4"
    by (rule that [of "r div 4" "r mod 4"]) simp_all
  have lim: "q1 < 4" "r1 < 16" using assms(2,3) q r by linarith+
  have "group_val p q r s = 65536 * (4 * p + q1) + 256 * (16 * q0 + r1) + (64 * r0 + s)"
    by (simp add: group_val_def q r)
  moreover have "4 * p + q1 < 256" "16 * q0 + r1 < 256" "64 * r0 + s < 256"
    using lim q r assms(1,4) by linarith+
  ultimately have "map unat (group_bytes (group_val p q r s))
      = [4 * p + q1, 16 * q0 + r1, 64 * r0 + s]"
    by (simp only: group_bytes_val)
  with assms(5) have "unat x = 4 * p + q1" "unat y = 16 * q0 + r1" "unat z = 64 * r0 + s"
    by simp_all
  with lim q r assms(4) show ?thesis by (simp add: digits3_def)
qed

section \<open>Round trips\<close>

lemma digits3_eq: "\<exists>p q r s. digits3 x y z = [p, q, r, s]"
  by (simp add: digits3_def)

lemma b64_groups_encode:
  assumes "good_alphabet al"
  shows "b64_groups al (b64_encode al bs) = Some bs"
proof (induction bs rule: sextets.induct)
  case (1 x y z rest)
  obtain p q r s where d: "digits3 x y z = [p, q, r, s]" using digits3_eq by blast
  then have "p < 64" "q < 64" "r < 64" "s < 64" using digits3_bound [of _ x y z] by auto
  with assms d 1 show ?case
    by (simp add: b64_encode_def padding_def good_index good_nth group_digits3)
next
  case (2 x y)
  obtain p q r s where d: "digits3 x y 0 = [p, q, r, s]" using digits3_eq by blast
  then have "p < 64" "q < 64" "r < 64" and "s = 0"
    using digits3_bound [of _ x y 0] by (auto simp: digits3_def)
  moreover from this d have "group_bytes (group_val p q r 0) = [x, y, 0]" by (simp add: group_digits3)
  ultimately show ?case using assms d
    by (simp add: b64_encode_def padding_def good_index good_nth)
next
  case (3 x)
  obtain p q r s where d: "digits3 x 0 0 = [p, q, r, s]" using digits3_eq by blast
  then have "p < 64" "q < 64" and "r = 0" "s = 0"
    using digits3_bound [of _ x 0 0] by (auto simp: digits3_def)
  moreover from this d have "group_bytes (group_val p q 0 0) = [x, 0, 0]" by (simp add: group_digits3)
  ultimately show ?case using assms d
    by (simp add: b64_encode_def padding_def good_index good_nth numeral_2_eq_2)
next
  case 4
  then show ?case by (simp add: b64_encode_def padding_def)
qed

lemma graphic_not_newline: "graphic c \<Longrightarrow> \<not> newline c"
  by (auto simp: graphic_def newline_def code_def)

lemma b64_encode_chars:
  assumes "good_alphabet al" and "c \<in> set (b64_encode al bs)"
  shows "graphic c \<and> c \<noteq> CHR '':''"
proof -
  have "graphic pad_char \<and> pad_char \<noteq> CHR '':''" by (simp add: go_defs graphic_def code_def)
  with assms show ?thesis
    by (auto simp: b64_encode_def padding_def good_nth dest!: sextets_bound split: if_splits)
qed

lemma b64_decode_encode:
  assumes "good_alphabet al"
  shows "b64_decode al (b64_encode al bs) = Some bs"
proof -
  have "filter (\<lambda>c. \<not> newline c) (b64_encode al bs) = b64_encode al bs"
    using b64_encode_chars [OF assms] graphic_not_newline by (auto simp: filter_id_conv)
  then show ?thesis by (simp add: b64_decode_def b64_groups_encode assms)
qed

lemma length_group_bytes [simp]: "length (group_bytes v) = 3"
  by (simp add: group_bytes_def)

text \<open>
  Decoding to a whole number of groups leaves no spare bits, so the text is the encoding.
\<close>

lemma b64_groups_whole:
  "good_alphabet al \<Longrightarrow> b64_groups al s = Some bs \<Longrightarrow> length bs mod 3 = 0 \<Longrightarrow>
   s = map ((!) al) (sextets bs)"
proof (induction al s arbitrary: bs rule: b64_groups.induct)
  case (2 al a b c d rest)
  show ?case
  proof (cases "rest = [] \<and> d = pad_char")
    case True
    with "2.prems" show ?thesis by (auto split: option.splits if_splits)
  next
    case False
    with "2.prems" obtain p q r s bs' where ix: "index_of al a = Some p" "index_of al b = Some q"
      "index_of al c = Some r" "index_of al d = Some s" and bs': "b64_groups al rest = Some bs'"
      and bs: "bs = group_bytes (group_val p q r s) @ bs'"
      by (auto split: option.splits)
    have "p < 64" "q < 64" "r < 64" "s < 64" and nth: "al ! p = a" "al ! q = b" "al ! r = c" "al ! s = d"
      using ix good_index_bound [OF "2.prems"(1)] by blast+
    obtain x y z where g: "group_bytes (group_val p q r s) = [x, y, z]" by (simp add: group_bytes_def)
    with \<open>p < 64\<close> \<open>q < 64\<close> \<open>r < 64\<close> \<open>s < 64\<close> have "digits3 x y z = [p, q, r, s]"
      by (rule digits3_group)
    moreover have "rest = map ((!) al) (sextets bs')"
      using "2.IH" [OF refl ix(1,2) False refl ix(3,4) "2.prems"(1) bs'] "2.prems"(3) bs by simp
    ultimately show ?thesis using bs g nth by simp
  qed
qed auto

lemma b64_decode_whole:
  "good_alphabet al \<Longrightarrow> b64_decode al s = Some bs \<Longrightarrow> length bs mod 3 = 0 \<Longrightarrow>
   filter (\<lambda>c. \<not> newline c) s = map ((!) al) (sextets bs)"
  unfolding b64_decode_def by (rule b64_groups_whole)

lemma b64_groups_unpadded: "b64_groups al s = Some bs \<Longrightarrow> pad_char \<notin> set s \<Longrightarrow> length bs mod 3 = 0"
  by (induction al s arbitrary: bs rule: b64_groups.induct) (fastforce split: option.splits if_splits)+

lemma b64_encode_whole: "length bs mod 3 = 0 \<Longrightarrow> b64_encode al bs = map ((!) al) (sextets bs)"
  by (simp add: b64_encode_def padding_def)

lemma length_sextets: "length bs mod 3 = 0 \<Longrightarrow> 3 * length (sextets bs) = 4 * length bs"
proof (induction bs rule: sextets.induct)
  case (1 x y z rest)
  then show ?case by (simp add: digits3_def)
qed auto

lemma sextets_inj:
  assumes "sextets xs = sextets ys" and "length xs mod 3 = 0" and "length ys mod 3 = 0"
  shows "xs = ys"
proof -
  from assms have "b64_encode url_alphabet xs = b64_encode url_alphabet ys"
    by (simp add: b64_encode_whole)
  then have "b64_decode url_alphabet (b64_encode url_alphabet xs)
      = b64_decode url_alphabet (b64_encode url_alphabet ys)" by simp
  then show ?thesis by (simp add: b64_decode_encode)
qed

lemma raw_b64_inj:
  assumes "good_alphabet al" and "raw_b64_encode al xs = raw_b64_encode al ys"
    and "length xs mod 3 = 0" and "length ys mod 3 = 0"
  shows "xs = ys"
proof -
  from assms have "b64_encode al xs = b64_encode al ys"
    by (simp add: b64_encode_whole raw_b64_encode_def)
  then show ?thesis using b64_decode_encode [OF assms(1)] by (metis option.inject)
qed

section \<open>One digit touches at most two adjacent bytes\<close>


lemma unat_of_digits3:
  assumes "digits3 x y z = [p, q, r, s]"
  shows "unat x = 4 * p + q div 16" and "unat y = 16 * (q mod 16) + r div 4"
    and "unat z = 64 * (r mod 4) + s"
  using assms unat_byte_bound [of y] unat_byte_bound [of z] by (auto simp: digits3_def)

lemma byte_eqI: "unat x = unat y \<Longrightarrow> x = (y :: byte)"
  by (rule unsigned_word_eqI)

lemma digits3_one_digit:
  assumes "digits3 x' y' z' = (digits3 x y z)[i := n]" and "i < 4"
  shows "z' = z \<or> x' = x"
proof -
  obtain p q r s where d: "digits3 x y z = [p, q, r, s]" using digits3_eq by blast
  note old = unat_of_digits3 [OF d]
  from assms(2) consider "i = 0" | "i = 1" | "i = 2" | "i = 3" by linarith
  then show ?thesis
  proof cases
    case 1
    then have "digits3 x' y' z' = [n, q, r, s]" using assms(1) d by simp
    from unat_of_digits3(3) [OF this] old byte_eqI [of z' z] show ?thesis by simp
  next
    case 2
    then have "digits3 x' y' z' = [p, n, r, s]" using assms(1) d by simp
    from unat_of_digits3(3) [OF this] old byte_eqI [of z' z] show ?thesis by simp
  next
    case 3
    then have "digits3 x' y' z' = [p, q, n, s]" using assms(1) d by simp
    from unat_of_digits3(1) [OF this] old byte_eqI [of x' x] show ?thesis by simp
  next
    case 4
    then have "digits3 x' y' z' = [p, q, r, n]" using assms(1) d by (simp add: numeral_3_eq_3)
    from unat_of_digits3(1) [OF this] old byte_eqI [of x' x] show ?thesis by simp
  qed
qed

lemma sextets_one_digit:
  "length w mod 3 = 0 \<Longrightarrow> length w' = length w \<Longrightarrow> i < length (sextets w) \<Longrightarrow>
   sextets w' = (sextets w)[i := n] \<Longrightarrow> burst2 w w'"
proof (induction w arbitrary: w' i rule: sextets.induct)
  case (1 x y z rest)
  then obtain x' y' z' rest' where w': "w' = x' # y' # z' # rest'"
    by (auto simp: length_Suc_conv)
  have l4: "length (digits3 a b c) = 4" for a b c by (simp add: digits3_def)
  have len: "length rest' = length rest" "length rest mod 3 = 0"
    using "1.prems"(1,2) w' by auto
  show ?case
  proof (cases "i < 4")
    case True
    with "1.prems"(4) w' l4 have "digits3 x' y' z' @ sextets rest' = (digits3 x y z)[i := n] @ sextets rest"
      by (simp add: list_update_append)
    then have hd: "digits3 x' y' z' = (digits3 x y z)[i := n]" and "sextets rest' = sextets rest"
      using l4 by (simp_all add: append_eq_append_conv)
    from this(2) len have "rest' = rest" by (intro sextets_inj) simp_all
    from digits3_one_digit [OF hd True] show ?thesis
    proof
      assume "z' = z"
      then have "x # y # z # rest = [] @ x # y # z # rest \<and> w' = [] @ x' # y' # z # rest"
        using w' \<open>rest' = rest\<close> by simp
      then show ?thesis unfolding burst2_def by blast
    next
      assume "x' = x"
      then have "x # y # z # rest = [x] @ y # z # rest \<and> w' = [x] @ y' # z' # rest"
        using w' \<open>rest' = rest\<close> by simp
      then show ?thesis unfolding burst2_def by blast
    qed
  next
    case False
    with "1.prems"(4) w' l4
    have "digits3 x' y' z' @ sextets rest' = digits3 x y z @ (sextets rest)[i - 4 := n]"
      by (simp add: list_update_append)
    then have "digits3 x' y' z' = digits3 x y z" and tl: "sextets rest' = (sextets rest)[i - 4 := n]"
      using l4 by (simp_all add: append_eq_append_conv)
    then have "[x', y', z'] = [x, y, z]"
      using group_digits3 digits3_eq by metis
    moreover have "i - 4 < length (sextets rest)"
      using "1.prems"(3) False by (simp add: digits3_def)
    then have "burst2 rest rest'" using len tl by (intro "1.IH") simp_all
    then have "burst2 ([x, y, z] @ rest) ([x, y, z] @ rest')" by (rule burst2_append)
    ultimately show ?thesis using w' by simp
  qed
qed auto

end
