(* ===== verification/Crc16.thy ===== *)
theory Crc16
  imports Prelude
begin

text \<open>
  The checksum of a TON address: \<open>crc16\<close> of internal/tonaddr/tonaddr.go, CRC-16/XMODEM
  (polynomial 0x1021, initial value 0), bit for bit.  The register step is linear over
  exclusive-or and injective; from these two facts follow the agreement with textbook long
  division, the zero remainder of data that carries its checksum, and the detection of every
  error confined to two adjacent bytes.
\<close>

unbundle bit_operations_syntax

type_synonym u16 = "16 word"

section \<open>The code\<close>

text \<open>The body of the inner loop, the eight iterations of it, one byte, all bytes.\<close>

definition crc_shift :: "u16 \<Rightarrow> u16" where
  "crc_shift crc = (if crc AND 0x8000 \<noteq> 0 then push_bit 1 crc XOR 0x1021 else push_bit 1 crc)"

definition crc_byte :: "u16 \<Rightarrow> byte \<Rightarrow> u16" where
  "crc_byte crc b = (crc_shift ^^ 8) (crc XOR push_bit 8 (ucast b))"

definition crc16 :: "byte list \<Rightarrow> u16" where
  "crc16 data = foldl crc_byte 0 data"

text \<open>The two checksum bytes as \<open>Friendly\<close> stores them: high byte first.\<close>

definition crc_bytes :: "u16 \<Rightarrow> byte list" where
  "crc_bytes crc = [ucast (drop_bit 8 crc), ucast crc]"

text \<open>\<open>uint16(hi)<<8 | uint16(lo)\<close>: the checksum an address carries.\<close>

definition join16 :: "byte \<Rightarrow> byte \<Rightarrow> u16" where
  "join16 h l = push_bit 8 (ucast h) OR ucast l"

section \<open>Linearity and injectivity\<close>

lemma and_8000: "crc AND 0x8000 \<noteq> 0 \<longleftrightarrow> bit (crc :: u16) 15"
proof -
  have "bit (push_bit 15 1 :: u16) n \<longleftrightarrow> n = 15" for n
    by (simp only: bit_push_bit_iff bit_1_iff) auto
  then have "bit (0x8000 :: u16) n \<longleftrightarrow> n = 15" for n by simp
  then have "bit (crc AND 0x8000) n \<longleftrightarrow> n = 15 \<and> bit crc 15" for n
    by (auto simp: bit_and_iff)
  then show ?thesis by (metis bit_0_eq bot_apply bot_bool_def bit_eqI)
qed

lemma bit_push_1: "bit (push_bit 1 (c :: u16)) n \<longleftrightarrow> n < 16 \<and> 0 < n \<and> bit c (n - 1)"
  by (simp only: bit_push_bit_iff) auto

lemma bit_crc_shift:
  "bit (crc_shift c) n \<longleftrightarrow> n < 16 \<and> ((0 < n \<and> bit c (n - 1)) \<noteq> (bit c 15 \<and> bit (0x1021 :: u16) n))"
proof (cases "n < 16")
  case True
  have sh: "bit (push_bit 1 c) n \<longleftrightarrow> 0 < n \<and> bit c (n - 1)"
    using True by (auto simp only: bit_push_1)
  show ?thesis
    using True by (auto simp: crc_shift_def and_8000 bit_xor_iff sh simp del: One_nat_def)
next
  case False
  then show ?thesis using bit_imp_le_length [of "crc_shift c" n] by auto
qed

lemma crc_shift_xor: "crc_shift (a XOR b) = crc_shift a XOR crc_shift b"
  by (rule bit_eqI) (auto simp: bit_crc_shift bit_xor_iff)

lemma crc_shift_pow_xor: "(crc_shift ^^ n) (a XOR b) = (crc_shift ^^ n) a XOR (crc_shift ^^ n) b"
  by (induction n) (simp_all add: crc_shift_xor)

lemma crc_shift_0 [simp]: "crc_shift 0 = 0"
  by (simp add: crc_shift_def)

lemma crc_shift_pow_0 [simp]: "(crc_shift ^^ n) 0 = 0"
  by (induction n) simp_all

lemma crc_shift_eq_0: "crc_shift c = 0 \<Longrightarrow> c = 0"
proof -
  assume eq: "crc_shift c = 0"
  have "\<not> bit (crc_shift c) 0" by (simp add: eq)
  then have top: "\<not> bit c 15" by (simp add: bit_crc_shift)
  have "\<not> bit c n" for n
  proof
    assume bit: "bit c n"
    then have "n < 16" using bit_imp_le_length [of c n] by simp
    with bit top have "n < 15" by (cases "n = 15") auto
    with bit top have "bit (crc_shift c) (Suc n)" by (simp add: bit_crc_shift)
    with eq show False by simp
  qed
  then show "c = 0" by (intro bit_eqI) simp
qed

lemma crc_shift_pow_eq_0: "(crc_shift ^^ n) c = 0 \<Longrightarrow> c = 0"
  by (induction n) (auto dest: crc_shift_eq_0)

lemma xor_right_cancel: "a XOR c = b XOR c \<Longrightarrow> a = (b :: u16)"
proof -
  assume "a XOR c = b XOR c"
  then have "(a XOR c) XOR c = (b XOR c) XOR c" by (rule arg_cong)
  then show "a = b" by (simp only: xor.assoc xor_self_eq xor.right_neutral)
qed

lemma crc_shift_pow_inj: "(crc_shift ^^ n) a = (crc_shift ^^ n) b \<Longrightarrow> a = b"
proof -
  assume "(crc_shift ^^ n) a = (crc_shift ^^ n) b"
  then have "(crc_shift ^^ n) (a XOR b) = 0" by (simp add: crc_shift_pow_xor)
  then have "a XOR b = 0" by (rule crc_shift_pow_eq_0)
  then have "a XOR b = b XOR b" by simp
  then show "a = b" by (rule xor_right_cancel)
qed

text \<open>A value whose top bits are clear is shifted without reduction.\<close>

lemma crc_shift_small: "\<not> bit c 15 \<Longrightarrow> crc_shift c = push_bit 1 c"
  by (simp add: crc_shift_def and_8000)

lemma crc_shift_pow_small:
  "(\<And>k. k \<ge> 16 - n \<Longrightarrow> \<not> bit c k) \<Longrightarrow> n \<le> 16 \<Longrightarrow> (crc_shift ^^ n) c = push_bit n c"
proof (induction n)
  case (Suc n)
  then have "(crc_shift ^^ n) c = push_bit n c" by (intro Suc.IH) auto
  moreover have "\<not> bit (push_bit n c) 15"
    using Suc.prems(1) [of "15 - n"] Suc.prems(2) by (auto simp: bit_push_bit_iff)
  ultimately show ?case by (simp add: crc_shift_small push_bit_push_bit del: push_bit_Suc)
qed simp

lemma crc_shift_8_byte: "(crc_shift ^^ 8) (ucast (b :: byte)) = push_bit 8 (ucast b)"
  by (rule crc_shift_pow_small) (auto simp: bit_ucast_iff dest: bit_imp_le_length)

lemma crc_byte_alt: "crc_byte c b = (crc_shift ^^ 8) c XOR (crc_shift ^^ 16) (ucast b)"
proof -
  have "(crc_shift ^^ 16) (ucast b) = (crc_shift ^^ 8) ((crc_shift ^^ 8) (ucast b :: u16))"
    by (simp add: funpow_add [of 8 8, simplified])
  then show ?thesis by (simp add: crc_byte_def crc_shift_pow_xor crc_shift_8_byte)
qed

section \<open>Error detection\<close>

definition crc_from :: "u16 \<Rightarrow> byte list \<Rightarrow> u16" where
  "crc_from c data = foldl crc_byte c data"

lemma crc16_append: "crc16 (xs @ ys) = crc_from (crc16 xs) ys"
  by (simp add: crc16_def crc_from_def)

lemma crc_byte_inj: "crc_byte c b = crc_byte c' b \<Longrightarrow> c = c'"
  unfolding crc_byte_def by (drule crc_shift_pow_inj) (rule xor_right_cancel)

lemma crc_from_inj: "crc_from c data = crc_from c' data \<Longrightarrow> c = c'"
  by (induction data arbitrary: c c') (auto simp: crc_from_def dest: crc_byte_inj)

text \<open>Two bytes enter the register as one 16-bit value, high byte first.\<close>

lemma join16_xor: "join16 h l = push_bit 8 (ucast h) XOR ucast l"
  by (rule bit_eqI)
     (auto simp: join16_def bit_or_iff bit_xor_iff bit_push_bit_iff bit_ucast_iff dest: bit_imp_le_length)

lemma crc_two_bytes:
  "crc_byte (crc_byte c h) l = (crc_shift ^^ 16) (c XOR join16 h l)"
proof -
  have pow: "(crc_shift ^^ 16) w = (crc_shift ^^ 8) ((crc_shift ^^ 8) w)" for w
    by (simp add: funpow_add [of 8 8, simplified])
  show ?thesis
    by (simp add: crc_byte_def join16_xor pow crc_shift_pow_xor crc_shift_8_byte xor.assoc)
qed

lemma join16_inj: "join16 h l = join16 h' l' \<Longrightarrow> h = h' \<and> l = l'"
proof -
  assume eq: "join16 h l = join16 h' l'"
  have "bit (join16 h l) n = (if n < 8 then bit l n else n < 16 \<and> bit h (n - 8))" for h l n
    by (auto simp: join16_xor bit_xor_iff bit_push_bit_iff bit_ucast_iff dest: bit_imp_le_length)
  with eq have bits: "(if n < 8 then bit l n else n < 16 \<and> bit h (n - 8))
      = (if n < 8 then bit l' n else n < 16 \<and> bit h' (n - 8))" for n by metis
  have "bit h n = bit h' n" if "n < 8" for n using bits [of "n + 8"] that by simp
  moreover have "bit l n = bit l' n" if "n < 8" for n using bits [of n] that by simp
  ultimately show ?thesis by (auto intro!: bit_eqI)
qed

lemma crc16_burst:
  assumes "burst2 w w'" and "crc16 w = crc16 w'"
  shows "w = w'"
proof -
  obtain pre x y x' y' post where w: "w = pre @ x # y # post" "w' = pre @ x' # y' # post"
    using assms(1) by (auto simp: burst2_def)
  have split: "crc16 (pre @ a # b # post) = crc_from (crc_byte (crc_byte (crc16 pre) a) b) post" for a b
    by (simp add: crc16_append crc_from_def)
  from assms(2) w have "crc_byte (crc_byte (crc16 pre) x) y = crc_byte (crc_byte (crc16 pre) x') y'"
    by (simp only: split) (rule crc_from_inj)
  then have "crc16 pre XOR join16 x y = crc16 pre XOR join16 x' y'"
    by (simp only: crc_two_bytes) (rule crc_shift_pow_inj)
  then have "join16 x y = join16 x' y'" by (metis xor.commute xor_right_cancel)
  with w show ?thesis using join16_inj by blast
qed

lemma join16_crc_bytes: "crc_bytes c = [h, l] \<longleftrightarrow> c = join16 h l"
proof
  assume "crc_bytes c = [h, l]"
  then have hl: "h = ucast (drop_bit 8 c)" "l = ucast c" by (simp_all add: crc_bytes_def)
  show "c = join16 h l"
    unfolding hl
    by (rule bit_eqI)
       (auto simp: join16_def bit_or_iff bit_push_bit_iff bit_ucast_iff bit_drop_bit_eq)
next
  assume c: "c = join16 h l"
  have "\<not> bit l (8 + n)" for n using bit_imp_le_length [of l "8 + n"] by auto
  then have "ucast (drop_bit 8 c) = h" "ucast c = l"
    unfolding c by (auto intro!: bit_eqI
      simp: join16_def bit_or_iff bit_push_bit_iff bit_ucast_iff bit_drop_bit_eq)
  then show "crc_bytes c = [h, l]" by (simp add: crc_bytes_def)
qed

text \<open>Data followed by its own checksum leaves remainder zero, and nothing else does.\<close>

lemma crc16_remainder: "crc16 (data @ [h, l]) = 0 \<longleftrightarrow> crc16 data = join16 h l"
proof
  assume "crc16 (data @ [h, l]) = 0"
  then have "(crc_shift ^^ 16) (crc16 data XOR join16 h l) = 0"
    by (simp add: crc16_append crc_from_def crc_two_bytes)
  then have "crc16 data XOR join16 h l = join16 h l XOR join16 h l"
    by (auto dest: crc_shift_pow_eq_0)
  then show "crc16 data = join16 h l" by (rule xor_right_cancel)
qed (simp add: crc16_append crc_from_def crc_two_bytes)

section \<open>Agreement with long division\<close>

text \<open>
  The reference: bits of the message, most significant first, followed by sixteen zeros, are
  shifted through a 16-bit remainder; each time a one falls out, the polynomial is subtracted.
\<close>

definition byte_bits :: "byte \<Rightarrow> bool list" where
  "byte_bits b = rev (map (bit b) [0 ..< 8])"

definition div_step :: "u16 \<Rightarrow> bool \<Rightarrow> u16" where
  "div_step r x =
     (let r' = push_bit 1 r OR (if x then 1 else 0) in if bit r 15 then r' XOR 0x1021 else r')"

definition poly_rem :: "bool list \<Rightarrow> u16" where
  "poly_rem bits = foldl div_step 0 bits"

definition bits_val :: "bool list \<Rightarrow> u16" where
  "bits_val bs = foldl (\<lambda>a x. push_bit 1 a XOR (if x then 1 else 0)) 0 bs"

lemma div_step_alt: "div_step r x = crc_shift r XOR (if x then 1 else 0)"
proof -
  have or1: "push_bit 1 r OR 1 = push_bit 1 r XOR 1"
    by (rule bit_eqI) (simp only: bit_or_iff bit_xor_iff bit_push_1 bit_1_iff, auto)
  have "(push_bit 1 r XOR 1) XOR 0x1021 = (push_bit 1 r XOR 0x1021) XOR 1"
    by (simp only: ac_simps)
  with or1 show ?thesis
    by (simp only: div_step_def crc_shift_def and_8000 Let_def
        or.right_neutral xor.right_neutral split: if_split) simp
qed

lemma bits_val_snoc: "bits_val (bs @ [x]) = push_bit 1 (bits_val bs) XOR (if x then 1 else 0)"
  by (simp add: bits_val_def)

lemma bit_bits_val: "length bs \<le> 16 \<Longrightarrow> bit (bits_val bs) n \<longleftrightarrow> n < length bs \<and> rev bs ! n"
proof (induction bs arbitrary: n rule: rev_induct)
  case Nil
  then show ?case by (simp add: bits_val_def)
next
  case (snoc x bs)
  then have IH: "bit (bits_val bs) m \<longleftrightarrow> m < length bs \<and> rev bs ! m" for m by simp
  have "bit (bits_val (bs @ [x])) n
      \<longleftrightarrow> (n < 16 \<and> 0 < n \<and> n - 1 < length bs \<and> rev bs ! (n - 1)) \<noteq> (x \<and> n = 0)"
    by (simp only: bits_val_snoc bit_xor_iff bit_push_1 IH) (auto simp: bit_1_iff)
  with snoc.prems show ?case by (cases n) auto
qed

lemma div_steps:
  "length bs \<le> 16 \<Longrightarrow> foldl div_step r bs = (crc_shift ^^ length bs) r XOR bits_val bs"
proof (induction bs rule: rev_induct)
  case Nil
  then show ?case by (simp add: bits_val_def)
next
  case (snoc x bs)
  have "\<not> bit (bits_val bs) 15" using snoc.prems by (simp add: bit_bits_val)
  then have "crc_shift (bits_val bs) = push_bit 1 (bits_val bs)" by (rule crc_shift_small)
  with snoc show ?case
    by (simp add: div_step_alt crc_shift_xor bits_val_snoc xor.assoc del: push_bit_Suc)
qed

lemma div_byte: "foldl div_step r (byte_bits b) = (crc_shift ^^ 8) r XOR ucast b"
proof -
  have "bit (bits_val (byte_bits b)) n \<longleftrightarrow> bit (ucast b :: u16) n" for n
  proof (cases "n < 8")
    case True
    then show ?thesis by (simp add: bit_bits_val byte_bits_def bit_ucast_iff)
  next
    case False
    then show ?thesis using bit_imp_le_length [of b n]
      by (auto simp: bit_bits_val byte_bits_def bit_ucast_iff)
  qed
  then have "bits_val (byte_bits b) = ucast b" by (intro bit_eqI) simp
  then show ?thesis by (simp add: div_steps byte_bits_def)
qed

lemma div_zeros: "foldl div_step r (replicate n False) = (crc_shift ^^ n) r"
proof (induction n)
  case (Suc n)
  have "replicate (Suc n) False = replicate n False @ [False]"
    by (simp add: replicate_append_same)
  with Suc show ?case by (simp add: div_step_alt del: replicate_Suc)
qed simp

text \<open>
  The register loop of the source computes the CRC-16/XMODEM of the standard: the remainder
  of long division of the message bits, followed by sixteen zero bits, by the polynomial
  0x1021, for every message.
\<close>

theorem crc16_is_long_division:
  "crc16 data = poly_rem (concat (map byte_bits data) @ replicate 16 False)"
proof -
  have "crc16 data = (crc_shift ^^ 16) (poly_rem (concat (map byte_bits data)))"
  proof (induction data rule: rev_induct)
    case (snoc b data)
    define R where "R = poly_rem (concat (map byte_bits data))"
    have comm: "(crc_shift ^^ 8) ((crc_shift ^^ 16) R) = (crc_shift ^^ 16) ((crc_shift ^^ 8) R)"
      by (simp add: funpow_add [symmetric, THEN fun_cong, simplified])
    have "crc16 (data @ [b]) = crc_byte ((crc_shift ^^ 16) R) b"
      using snoc by (simp add: crc16_def R_def)
    also have "\<dots> = (crc_shift ^^ 16) ((crc_shift ^^ 8) R XOR ucast b)"
      by (simp only: crc_byte_alt comm crc_shift_pow_xor)
    also have "(crc_shift ^^ 8) R XOR ucast b = poly_rem (concat (map byte_bits (data @ [b])))"
      by (simp add: R_def poly_rem_def div_byte)
    finally show ?case .
  qed (simp add: crc16_def poly_rem_def)
  then show ?thesis by (simp add: poly_rem_def div_zeros)
qed

end
