(* ===== verification/Tonaddr.thy ===== *)
theory Tonaddr
  imports Base64 Crc16
begin

text \<open>
  internal/tonaddr/tonaddr.go: the two textual forms of a TON address, their parsers with
  every rejection as a value of \<open>addr_error\<close>, the two printers and the network check.  The
  lemmas relate the parsers to the printers in both directions, bound what a typing error can
  do, and show that normalisation is a projection onto one spelling per address.
\<close>

unbundle bit_operations_syntax

section \<open>The code\<close>

record address =
  Workchain :: int
  Hash :: "byte list"
  Bounceable :: bool
  Testnet :: bool

definition tagBounceable :: byte where [go_defs]: "tagBounceable = 0x11"
definition tagNonBounceable :: byte where [go_defs]: "tagNonBounceable = 0x51"
definition tagTestnet :: byte where [go_defs]: "tagTestnet = 0x80"

datatype addr_error =
    EmptyAddress
  | InvalidWorkchain string num_error
  | UnsupportedWorkchain int
  | RawHashLength nat
  | InvalidHex
  | NotBase64
  | FriendlyLength nat
  | InvalidTag byte
  | UnsupportedWorkchainByte byte
  | ChecksumMismatch
  | NetworkMismatch bool bool

text \<open>A parsed raw address carries no flags; it is given the bounceable one.\<close>

definition parseRaw :: "string \<Rightarrow> string \<Rightarrow> addr_error + address" where
  "parseRaw wcStr hexStr =
     (case ParseInt 32 wcStr of
        (_, Some e) \<Rightarrow> Inl (InvalidWorkchain wcStr e)
      | (wc, None) \<Rightarrow>
          if wc \<noteq> 0 \<and> wc \<noteq> -1 then Inl (UnsupportedWorkchain wc)
          else if length hexStr \<noteq> 64 then Inl (RawHashLength (length hexStr))
          else case HexDecode hexStr of
              None \<Rightarrow> Inl InvalidHex
            | Some h \<Rightarrow> Inr \<lparr>Workchain = wc, Hash = h, Bounceable = True, Testnet = False\<rparr>)"

definition decode_either :: "string \<Rightarrow> byte list option" where
  "decode_either s =
     (case b64_decode url_alphabet s of Some raw \<Rightarrow> Some raw | None \<Rightarrow> b64_decode std_alphabet s)"

definition parseTag :: "byte \<Rightarrow> bool option" where
  "parseTag t =
     (if t AND NOT tagTestnet = tagBounceable then Some True
      else if t AND NOT tagTestnet = tagNonBounceable then Some False
      else None)"

definition parseWorkchainByte :: "byte \<Rightarrow> int option" where
  "parseWorkchainByte w = (if w = 0 then Some 0 else if w = 0xff then Some (-1) else None)"

text \<open>
  \<open>parseFriendly\<close>: the base64 layer, then the checks on the 36 bytes (length, tag,
  workchain byte, checksum) in the code's order.
\<close>

definition parse_bytes :: "byte list \<Rightarrow> addr_error + address" where
  "parse_bytes raw =
     (if length raw \<noteq> 36 then Inl (FriendlyLength (length raw))
      else case parseTag (raw ! 0) of
          None \<Rightarrow> Inl (InvalidTag (raw ! 0))
        | Some b \<Rightarrow>
            (case parseWorkchainByte (raw ! 1) of
               None \<Rightarrow> Inl (UnsupportedWorkchainByte (raw ! 1))
             | Some wc \<Rightarrow>
                 if crc16 (take 34 raw) \<noteq> join16 (raw ! 34) (raw ! 35) then Inl ChecksumMismatch
                 else Inr \<lparr>Workchain = wc, Hash = take 32 (drop 2 raw), Bounceable = b,
                           Testnet = (raw ! 0 AND tagTestnet \<noteq> 0)\<rparr>))"

definition parseFriendly :: "string \<Rightarrow> addr_error + address" where
  "parseFriendly s =
     (case decode_either s of
        None \<Rightarrow> Inl NotBase64
      | Some raw \<Rightarrow> parse_bytes raw)"

definition Parse :: "string \<Rightarrow> addr_error + address" where
  "Parse s0 =
     (let s = TrimSpace s0 in
      if s = [] then Inl EmptyAddress
      else case index_of s CHR '':'' of
          Some i \<Rightarrow> parseRaw (take i s) (drop (Suc i) s)
        | None \<Rightarrow> parseFriendly s)"

definition Valid :: "string \<Rightarrow> bool" where
  "Valid s = (case Parse s of Inl _ \<Rightarrow> False | Inr _ \<Rightarrow> True)"

text \<open>\<open>Friendly\<close> fills the 36-byte buffer: tag, workchain byte, hash, checksum.\<close>

definition friendly_tag :: "bool \<Rightarrow> bool \<Rightarrow> byte" where
  "friendly_tag bounceable testnet =
     (let tag = (if bounceable then tagBounceable else tagNonBounceable)
      in if testnet then tag OR tagTestnet else tag)"

definition friendly_head :: "address \<Rightarrow> bool \<Rightarrow> byte list" where
  "friendly_head a bounceable =
     friendly_tag bounceable (Testnet a) # (if Workchain a = -1 then 0xff else 0) # Hash a"

definition friendly_bytes :: "address \<Rightarrow> bool \<Rightarrow> byte list" where
  "friendly_bytes a bounceable =
     friendly_head a bounceable @ crc_bytes (crc16 (friendly_head a bounceable))"

definition Friendly :: "address \<Rightarrow> bool \<Rightarrow> string" where
  "Friendly a bounceable = b64_encode url_alphabet (friendly_bytes a bounceable)"

definition String :: "address \<Rightarrow> string" where
  "String a = Friendly a (Bounceable a)"

definition Raw :: "address \<Rightarrow> string" where
  "Raw a = FormatInt (Workchain a) @ CHR '':'' # HexEncode (Hash a)"

definition Normalize :: "string \<Rightarrow> addr_error + string" where
  "Normalize s = (case Parse s of Inl e \<Rightarrow> Inl e | Inr a \<Rightarrow> Inr (String a))"

definition NormalizeOnNetwork :: "string \<Rightarrow> bool \<Rightarrow> addr_error + string" where
  "NormalizeOnNetwork s wantTestnet =
     (case Parse s of
        Inl e \<Rightarrow> Inl e
      | Inr a \<Rightarrow>
          if CHR '':'' \<notin> set s \<and> Testnet a \<noteq> wantTestnet
          then Inl (NetworkMismatch (Testnet a) wantTestnet)
          else Inr (String a))"

text \<open>The addresses the parsers can produce: a 32-byte hash on one of the two workchains.\<close>

definition wf_address :: "address \<Rightarrow> bool" where
  "wf_address a \<longleftrightarrow> length (Hash a) = 32 \<and> (Workchain a = 0 \<or> Workchain a = -1)"

definition same_account :: "address \<Rightarrow> address \<Rightarrow> bool" where
  "same_account a b \<longleftrightarrow> Workchain a = Workchain b \<and> Hash a = Hash b"

section \<open>Bytes of a user-friendly address\<close>

lemma parseTag_friendly: "parseTag (friendly_tag b t) = Some b"
  by (cases b; cases t) (simp_all add: parseTag_def friendly_tag_def go_defs)

lemma testnet_friendly: "(friendly_tag b t AND tagTestnet \<noteq> 0) = t"
  by (cases b; cases t) (simp_all add: friendly_tag_def go_defs)

lemma friendly_tag_parse:
  assumes "parseTag t = Some b"
  shows "friendly_tag b (t AND tagTestnet \<noteq> 0) = t"
proof -
  have split: "t = (t AND NOT tagTestnet) OR (t AND tagTestnet)"
    by (rule bit_eqI) (auto simp: bit_and_iff bit_or_iff bit_not_iff)
  have "bit (push_bit 7 1 :: byte) n \<longleftrightarrow> n = 7" for n
    by (simp only: bit_push_bit_iff bit_1_iff) auto
  then have bt: "bit tagTestnet n \<longleftrightarrow> n = 7" for n by (simp add: go_defs)
  have flag: "t AND tagTestnet = (if bit t 7 then tagTestnet else 0)"
    by (rule bit_eqI) (auto simp: bit_and_iff bt)
  have nz: "tagTestnet \<noteq> 0" by (simp add: go_defs)
  have "t AND NOT tagTestnet = (if b then tagBounceable else tagNonBounceable)"
    using assms by (auto simp: parseTag_def split: if_splits)
  with split flag nz show ?thesis by (cases "bit t 7") (simp_all add: friendly_tag_def Let_def)
qed

lemma workchain_byte:
  "parseWorkchainByte w = Some wc \<longleftrightarrow> (wc = 0 \<or> wc = -1) \<and> w = (if wc = -1 then 0xff else 0)"
  by (auto simp: parseWorkchainByte_def split: if_splits)

lemma length_friendly_bytes [simp]: "length (Hash a) = 32 \<Longrightarrow> length (friendly_bytes a b) = 36"
  by (simp add: friendly_bytes_def friendly_head_def crc_bytes_def)

lemma list36:
  "length raw = 36 \<Longrightarrow> \<exists>t w h c d. raw = t # w # h @ [c, d] \<and> length h = 32"
proof -
  assume len: "length raw = 36"
  from len obtain t w rest where raw: "raw = t # w # rest" and rest: "length rest = 34"
    by (auto simp: length_Suc_conv eval_nat_numeral)
  have "length (drop 32 rest) = 2" using rest by simp
  then obtain c d where "drop 32 rest = [c, d]" by (auto simp only: length_2_conv)
  then have "raw = t # w # take 32 rest @ [c, d]" using raw by (metis append_take_drop_id)
  moreover have "length (take 32 rest) = 32" using rest by simp
  ultimately show ?thesis by blast
qed

lemma parse_bytes_cons:
  assumes "length h = 32"
  shows "parse_bytes (t # w # h @ [c, d]) =
     (case parseTag t of
        None \<Rightarrow> Inl (InvalidTag t)
      | Some b \<Rightarrow>
          case parseWorkchainByte w of
            None \<Rightarrow> Inl (UnsupportedWorkchainByte w)
          | Some wc \<Rightarrow>
              if crc16 (t # w # h) \<noteq> join16 c d then Inl ChecksumMismatch
              else Inr \<lparr>Workchain = wc, Hash = h, Bounceable = b,
                        Testnet = (t AND tagTestnet \<noteq> 0)\<rparr>)"
proof -
  let ?raw = "t # w # h @ [c, d]"
  have "?raw ! 34 = c" "?raw ! 35 = d" "take 34 ?raw = t # w # h" "take 32 (drop 2 ?raw) = h"
    using assms by (simp_all add: nth_append nth_Cons' take_Cons' numeral_2_eq_2)
  with assms show ?thesis by (simp add: parse_bytes_def split: option.splits)
qed

lemma parse_bytes_friendly:
  assumes "wf_address a"
  shows "parse_bytes (friendly_bytes a b) = Inr (a\<lparr>Bounceable := b\<rparr>)"
proof -
  obtain c d where cd: "crc_bytes (crc16 (friendly_head a b)) = [c, d]" by (simp add: crc_bytes_def)
  let ?w = "if Workchain a = -1 then 0xff else 0"
  have bytes: "friendly_bytes a b = friendly_tag b (Testnet a) # ?w # Hash a @ [c, d]"
    by (simp add: friendly_bytes_def friendly_head_def cd [unfolded friendly_head_def])
  have crc: "crc16 (friendly_tag b (Testnet a) # ?w # Hash a) = join16 c d"
    using cd by (simp only: join16_crc_bytes friendly_head_def)
  have wc: "parseWorkchainByte ?w = Some (Workchain a)"
    using assms by (auto simp: workchain_byte wf_address_def)
  from assms have "length (Hash a) = 32" by (simp add: wf_address_def)
  then show ?thesis
    unfolding bytes by (simp add: parse_bytes_cons parseTag_friendly testnet_friendly wc crc)
qed

lemma parse_bytes_Inr:
  assumes "parse_bytes raw = Inr a"
  shows "wf_address a \<and> raw = friendly_bytes a (Bounceable a)"
proof -
  have "length raw = 36" using assms by (simp add: parse_bytes_def split: if_splits)
  then obtain t w h c d where raw: "raw = t # w # h @ [c, d]" and h: "length h = 32"
    using list36 by blast
  from assms h obtain b wc where "parseTag t = Some b" "parseWorkchainByte w = Some wc"
    and crc: "crc16 (t # w # h) = join16 c d"
    and a: "a = \<lparr>Workchain = wc, Hash = h, Bounceable = b, Testnet = (t AND tagTestnet \<noteq> 0)\<rparr>"
    unfolding raw by (auto simp: parse_bytes_cons split: option.splits if_splits)
  then have "friendly_head a b = t # w # h"
    by (simp add: friendly_head_def friendly_tag_parse workchain_byte)
  moreover have "wf_address a"
    using a h \<open>parseWorkchainByte w = Some wc\<close> by (auto simp: wf_address_def workchain_byte)
  ultimately show ?thesis
    using crc a by (simp add: friendly_bytes_def raw join16_crc_bytes [symmetric])
qed

section \<open>Text of a user-friendly address\<close>

definition spelling :: "string \<Rightarrow> address \<Rightarrow> string" where
  "spelling al a = b64_encode al (friendly_bytes a (Bounceable a))"

lemma Friendly_spelling: "Friendly a b = spelling url_alphabet (a\<lparr>Bounceable := b\<rparr>)"
  by (simp add: Friendly_def spelling_def friendly_bytes_def friendly_head_def)

lemma String_spelling: "String a = spelling url_alphabet a"
  by (simp add: String_def Friendly_def spelling_def)

lemma friendly_bytes_bounce [simp]: "friendly_bytes (a\<lparr>Bounceable := c\<rparr>) b = friendly_bytes a b"
  by (simp add: friendly_bytes_def friendly_head_def)

lemma raw_flags [simp]:
  "a\<lparr>Bounceable := True, Testnet := False\<rparr> = a\<lparr>Testnet := False, Bounceable := True\<rparr>"
  by (cases a) simp

lemma wf_testnet [simp]: "wf_address (a\<lparr>Testnet := c\<rparr>) = wf_address a"
  by (simp add: wf_address_def)

lemma wf_bounce [simp]: "wf_address (a\<lparr>Bounceable := c\<rparr>) = wf_address a"
  by (simp add: wf_address_def)

lemma wf_length: "wf_address a \<Longrightarrow> length (friendly_bytes a b) = 36"
  by (simp add: wf_address_def)

lemma spelling_sextets:
  "wf_address a \<Longrightarrow> spelling al a = map ((!) al) (sextets (friendly_bytes a (Bounceable a)))"
  by (simp add: spelling_def b64_encode_whole wf_length)

lemma length_spelling [simp]: "wf_address a \<Longrightarrow> length (spelling al a) = 48"
  using length_sextets [of "friendly_bytes a (Bounceable a)"] by (simp add: spelling_sextets wf_length)

lemma spelling_chars: "good_alphabet al \<Longrightarrow> c \<in> set (spelling al a) \<Longrightarrow> graphic c \<and> c \<noteq> CHR '':''"
  unfolding spelling_def by (rule b64_encode_chars)

lemma index_of_colon_None: "CHR '':'' \<notin> set s \<Longrightarrow> index_of s CHR '':'' = None"
  by (simp add: index_of_None_iff)

lemma Parse_no_colon:
  "(\<And>c. c \<in> set s \<Longrightarrow> graphic c \<and> c \<noteq> CHR '':'') \<Longrightarrow> s \<noteq> [] \<Longrightarrow> Parse s = parseFriendly s"
  by (subgoal_tac "CHR '':'' \<notin> set s") (auto simp: Parse_def index_of_colon_None)

lemma Parse_spelling_url: "wf_address a \<Longrightarrow> Parse (spelling url_alphabet a) = Inr a"
proof -
  assume wf: "wf_address a"
  then have "spelling url_alphabet a \<noteq> []" using length_spelling [of a url_alphabet] by (intro notI) simp
  then have "Parse (spelling url_alphabet a) = parseFriendly (spelling url_alphabet a)"
    by (intro Parse_no_colon) (auto dest: spelling_chars [OF good_url])
  also have "\<dots> = parse_bytes (friendly_bytes a (Bounceable a))"
    by (simp add: parseFriendly_def decode_either_def spelling_def b64_decode_encode)
  finally show ?thesis using wf by (simp add: parse_bytes_friendly)
qed

lemma decode_either_spelling:
  assumes "decode_either s = Some raw" and "length raw mod 3 = 0"
  shows "\<exists>al \<in> {url_alphabet, std_alphabet}. filter (\<lambda>c. \<not> newline c) s = b64_encode al raw"
proof (cases "b64_decode url_alphabet s")
  case None
  with assms have "b64_decode std_alphabet s = Some raw" by (simp add: decode_either_def)
  then show ?thesis using assms(2) by (simp add: b64_decode_whole b64_encode_whole)
next
  case (Some r)
  with assms have "b64_decode url_alphabet s = Some raw" by (simp add: decode_either_def)
  then show ?thesis using assms(2) by (simp add: b64_decode_whole b64_encode_whole)
qed

lemma parseFriendly_Inr:
  assumes "parseFriendly s = Inr a"
  shows "wf_address a \<and> (\<exists>al \<in> {url_alphabet, std_alphabet}. filter (\<lambda>c. \<not> newline c) s = spelling al a)"
proof -
  from assms obtain raw where raw: "decode_either s = Some raw" "parse_bytes raw = Inr a"
    by (auto simp: parseFriendly_def split: option.splits)
  from parse_bytes_Inr [OF raw(2)] have wf: "wf_address a" and eq: "raw = friendly_bytes a (Bounceable a)"
    by simp_all
  then have "length raw mod 3 = 0" by (simp add: wf_length)
  from decode_either_spelling [OF raw(1) this] show ?thesis using wf by (simp add: spelling_def eq)
qed

lemma parseRaw_Inr:
  assumes "parseRaw w h = Inr a"
  shows "wf_address a \<and> Bounceable a \<and> \<not> Testnet a \<and> ParseInt 32 w = (Workchain a, None)
    \<and> length h = 64 \<and> HexDecode h = Some (Hash a)"
  using assms HexDecode_length [of h]
  by (auto simp: parseRaw_def wf_address_def split: prod.splits option.splits if_splits)

lemma Parse_wf: "Parse s = Inr a \<Longrightarrow> wf_address a"
  by (auto simp: Parse_def Let_def dest: parseRaw_Inr parseFriendly_Inr split: if_splits option.splits)

lemma Parse_Raw:
  assumes "wf_address a"
  shows "Parse (Raw a) = Inr (a\<lparr>Bounceable := True, Testnet := False\<rparr>)"
proof -
  let ?w = "FormatInt (Workchain a)" and ?h = "HexEncode (Hash a)"
  have g: "graphic CHR '':''" by (simp add: graphic_def code_def)
  then have "TrimSpace (Raw a) = Raw a"
    by (intro TrimSpace_graphic) (auto simp: Raw_def dest: FormatInt_graphic HexEncode_chars)
  moreover have "CHR '':'' \<notin> set ?w" using FormatInt_graphic by blast
  then have "index_of (Raw a) CHR '':'' = Some (length ?w)"
    unfolding Raw_def by (rule index_of_append)
  ultimately have "Parse (Raw a) = parseRaw ?w ?h"
    by (simp add: Parse_def Raw_def)
  moreover have "ParseInt 32 ?w = (Workchain a, None)"
    using assms by (intro ParseInt_FormatInt) (auto simp: wf_address_def)
  ultimately show ?thesis
    using assms by (auto simp: parseRaw_def wf_address_def)
qed

section \<open>Typing errors\<close>

lemma alphabets_agree:
  assumes "al \<in> {url_alphabet, std_alphabet}" and "n < 64" and "m < 64" and "al ! n = url_alphabet ! m"
  shows "n = m"
proof -
  have "list_all (\<lambda>n. index_of url_alphabet (std_alphabet ! n) \<in> {None, Some n}) [0 ..< 64]"
    by code_simp
  then have std: "index_of url_alphabet (std_alphabet ! n) \<in> {None, Some n}"
    using assms(2) by (simp add: list_all_iff)
  have "index_of url_alphabet (al ! n) = Some m"
    using assms(3,4) by (simp add: good_index)
  with std assms(1,2) show ?thesis by (auto simp: good_index)
qed

lemma alphabets_differ:
  assumes "n < 64"
  shows "std_alphabet ! n = url_alphabet ! n
    \<or> (url_alphabet ! n, std_alphabet ! n) \<in> {(CHR ''-'', CHR ''+''), (CHR ''_'', CHR ''/'')}"
proof -
  have "list_all (\<lambda>n. std_alphabet ! n = url_alphabet ! n
    \<or> (url_alphabet ! n, std_alphabet ! n) \<in> {(CHR ''-'', CHR ''+''), (CHR ''_'', CHR ''/'')}) [0 ..< 64]"
    by code_simp
  with assms show ?thesis by (simp add: list_all_iff)
qed

lemma crc16_friendly: "crc16 (friendly_bytes a b) = 0"
proof -
  obtain c d where cd: "crc_bytes (crc16 (friendly_head a b)) = [c, d]" by (simp add: crc_bytes_def)
  then have "friendly_bytes a b = friendly_head a b @ [c, d]" by (simp add: friendly_bytes_def)
  with cd show ?thesis by (simp only: crc16_remainder join16_crc_bytes)
qed

lemma friendly_bytes_inj:
  assumes "wf_address a" and "wf_address a'" and "friendly_bytes a b = friendly_bytes a' b'"
  shows "a\<lparr>Bounceable := b\<rparr> = a'\<lparr>Bounceable := b'\<rparr>"
proof -
  have "(Inr (a\<lparr>Bounceable := b\<rparr>) :: addr_error + address) = Inr (a'\<lparr>Bounceable := b'\<rparr>)"
    using parse_bytes_friendly [OF assms(1), of b] parse_bytes_friendly [OF assms(2), of b'] assms(3)
    by (simp only:)
  then show ?thesis by simp
qed

lemma Parse_near_spelling:
  assumes wf: "wf_address a" and len: "length s = 48" and parsed: "Parse s = Inr a'"
  shows "wf_address a' \<and> (\<exists>al \<in> {url_alphabet, std_alphabet}. s = spelling al a')"
proof -
  let ?u = "TrimSpace s"
  have ulen: "length ?u \<le> 48" using TrimSpace_length [of s] len by auto
  have "index_of ?u CHR '':'' = None"
  proof (rule ccontr)
    assume "index_of ?u CHR '':'' \<noteq> None"
    then obtain i where "parseRaw (take i ?u) (drop (Suc i) ?u) = Inr a'"
      using parsed by (auto simp: Parse_def Let_def split: if_splits option.splits)
    with ulen show False by (auto dest: parseRaw_Inr)
  qed
  with parsed have "parseFriendly ?u = Inr a'" by (auto simp: Parse_def Let_def split: if_splits)
  then obtain al where wf': "wf_address a'" and al: "al \<in> {url_alphabet, std_alphabet}"
    and f: "filter (\<lambda>c. \<not> newline c) ?u = spelling al a'" using parseFriendly_Inr by blast
  have "length (filter (\<lambda>c. \<not> newline c) ?u) = 48" using f wf' by simp
  with ulen length_filter_le [of "\<lambda>c. \<not> newline c" ?u] have "length ?u = 48"
    and "length (filter (\<lambda>c. \<not> newline c) ?u) = length ?u" by linarith+
  then have "filter (\<lambda>c. \<not> newline c) ?u = ?u" and "?u = s"
    using TrimSpace_length [of s] len filter_same_length [of "\<lambda>c. \<not> newline c" ?u] by auto
  with f al wf' show ?thesis by auto
qed

section \<open>Properties\<close>

definition sample_address :: address where
  "sample_address = \<lparr>Workchain = -1, Hash = replicate 32 0x11, Bounceable = True, Testnet = False\<rparr>"

lemma wf_sample [simp]: "wf_address sample_address"
  by (simp add: sample_address_def wf_address_def)

text \<open>C39: Printing then parsing. Parsing the user-friendly text of any address of a supported
  workchain gives that address back, with the bounceable flag it was printed with.\<close>

theorem Parse_Friendly:
  assumes "wf_address a"
  shows "Parse (Friendly a b) = Inr (a\<lparr>Bounceable := b\<rparr>)"
  using assms by (simp add: Friendly_spelling Parse_spelling_url)

theorem Parse_Friendly_witness:
  "Parse (Friendly sample_address False) = Inr (sample_address\<lparr>Bounceable := False\<rparr>)"
  by (rule Parse_Friendly) simp

text \<open>The comparison the verifier makes: raw texts are equal exactly for the same account.\<close>

lemma Raw_eq_iff:
  assumes "wf_address a" and "wf_address b"
  shows "Raw a = Raw b \<longleftrightarrow> same_account a b"
proof
  assume "Raw a = Raw b"
  then have "Inr (a\<lparr>Bounceable := True, Testnet := False\<rparr>)
      = (Inr (b\<lparr>Bounceable := True, Testnet := False\<rparr>) :: addr_error + address)"
    using Parse_Raw assms by metis
  then show "same_account a b" by (cases a; cases b) (simp add: same_account_def)
qed (auto simp: same_account_def Raw_def)

text \<open>Raw form. Two addresses print the same raw text exactly when they name the same account
  (the comparison the verifier makes), and parsing the raw text gives back the account with the
  default flags.\<close>

theorem Raw_identifies_account:
  assumes "wf_address a" and "wf_address b"
  shows "(Raw a = Raw b \<longleftrightarrow> same_account a b)
    \<and> Parse (Raw a) = Inr (a\<lparr>Bounceable := True, Testnet := False\<rparr>)"
  using Raw_eq_iff [OF assms] Parse_Raw [OF assms(1)] by blast

theorem Raw_identifies_account_witness:
  "(Raw sample_address = Raw (sample_address\<lparr>Testnet := True\<rparr>)
      \<longleftrightarrow> same_account sample_address (sample_address\<lparr>Testnet := True\<rparr>))
    \<and> Parse (Raw sample_address) = Inr (sample_address\<lparr>Bounceable := True, Testnet := False\<rparr>)"
  by (rule Raw_identifies_account) (simp_all add: sample_address_def wf_address_def)

text \<open>C37: Only valid addresses are accepted. Whatever \<open>Parse\<close> accepts has a 32-byte hash and a
  supported workchain; a raw input names exactly the account returned; any other accepted input,
  without surrounding white space and line breaks, is letter for letter the base64 text of the
  address returned, in one of the two alphabets.\<close>

theorem Parse_sound:
  assumes "Parse s = Inr a"
  shows "wf_address a \<and>
    (case index_of (TrimSpace s) CHR '':'' of
       Some i \<Rightarrow> ParseInt 32 (take i (TrimSpace s)) = (Workchain a, None)
                 \<and> HexDecode (drop (Suc i) (TrimSpace s)) = Some (Hash a)
                 \<and> Bounceable a \<and> \<not> Testnet a
     | None \<Rightarrow> filter (\<lambda>c. \<not> newline c) (TrimSpace s)
                 \<in> {spelling url_alphabet a, spelling std_alphabet a})"
proof (cases "index_of (TrimSpace s) CHR '':''")
  case None
  with assms have "parseFriendly (TrimSpace s) = Inr a"
    by (auto simp: Parse_def Let_def split: if_splits)
  with None show ?thesis using parseFriendly_Inr by auto
next
  case (Some i)
  with assms have "parseRaw (take i (TrimSpace s)) (drop (Suc i) (TrimSpace s)) = Inr a"
    by (auto simp: Parse_def Let_def split: if_splits)
  with Some show ?thesis using parseRaw_Inr by auto
qed

theorem Parse_sound_witness:
  "wf_address sample_address \<and> filter (\<lambda>c. \<not> newline c) (TrimSpace (String sample_address))
      \<in> {spelling url_alphabet sample_address, spelling std_alphabet sample_address}"
proof -
  have "Parse (String sample_address) = Inr sample_address"
    by (simp add: String_spelling Parse_spelling_url)
  moreover have "index_of (TrimSpace (String sample_address)) CHR '':'' = None"
    by (subst TrimSpace_graphic)
       (auto simp: String_spelling index_of_None_iff dest: spelling_chars [OF good_url])
  ultimately show ?thesis using Parse_sound [of "String sample_address" sample_address] by simp
qed

text \<open>C38: One wrong character. Replacing any single character of a printed address by any other
  never yields the text of a different address. The altered text is rejected, except that \<open>-\<close>
  and \<open>_\<close> may become \<open>+\<close> and \<open>/\<close>, which spell the same digits in the other alphabet.\<close>

theorem one_typo_is_harmless:
  assumes "wf_address a" and "i < 48" and "Parse ((String a)[i := c]) = Inr a'"
  shows "a' = a \<and> (c = String a ! i
    \<or> (String a ! i, c) \<in> {(CHR ''-'', CHR ''+''), (CHR ''_'', CHR ''/'')})"
proof -
  let ?w = "friendly_bytes a (Bounceable a)" and ?w' = "friendly_bytes a' (Bounceable a')"
  have len: "length ((String a)[i := c]) = 48" using assms(1) by (simp add: String_spelling)
  from Parse_near_spelling [OF assms(1) len assms(3)] obtain al
    where wf': "wf_address a'" and al: "al \<in> {url_alphabet, std_alphabet}"
      and eq: "(String a)[i := c] = spelling al a'" by blast
  have l: "length (sextets ?w) = 48" "length (sextets ?w') = 48"
    using length_spelling [OF assms(1), of al] length_spelling [OF wf', of al] assms(1) wf'
    by (simp_all add: spelling_sextets)
  have "sextets ?w' ! j = sextets ?w ! j" if "j < 48" "j \<noteq> i" for j
  proof (rule alphabets_agree [OF al])
    show "sextets ?w' ! j < 64" "sextets ?w ! j < 64" using that l sextets_bound nth_mem by metis+
    have "spelling al a' ! j = String a ! j" using that by (simp flip: eq)
    then show "al ! (sextets ?w' ! j) = url_alphabet ! (sextets ?w ! j)"
      using that l assms(1) wf' by (simp add: String_spelling spelling_sextets)
  qed
  then have "sextets ?w' ! j = (sextets ?w)[i := sextets ?w' ! i] ! j" if "j < 48" for j
    using that l by (cases "j = i") auto
  then have "sextets ?w' = (sextets ?w)[i := sextets ?w' ! i]"
    using l by (intro nth_equalityI) simp_all
  then have "burst2 ?w ?w'"
    using assms(1,2) wf' l by (intro sextets_one_digit) (simp_all add: wf_length)
  then have "?w = ?w'" by (rule crc16_burst) (simp add: crc16_friendly)
  from friendly_bytes_inj [OF assms(1) wf' this] have same: "a' = a" by simp
  have "c = (String a)[i := c] ! i" using assms(1,2) by (simp add: String_spelling)
  also have "\<dots> = al ! (sextets ?w ! i)"
    using eq same assms(2) l(1) wf' by (simp add: spelling_sextets)
  finally have c: "c = al ! (sextets ?w ! i)" .
  have s: "String a ! i = url_alphabet ! (sextets ?w ! i)"
    using assms(1,2) l(1) by (simp add: String_spelling spelling_sextets)
  have "sextets ?w ! i < 64" using assms(2) l(1) sextets_bound nth_mem by metis
  from alphabets_differ [OF this] al c s same show ?thesis by auto
qed

theorem one_typo_is_harmless_witness:
  "Parse ((String sample_address)[5 := String sample_address ! 5]) = Inr sample_address
   \<and> (String sample_address ! 5 = String sample_address ! 5
      \<or> (String sample_address ! 5, String sample_address ! 5)
          \<in> {(CHR ''-'', CHR ''+''), (CHR ''_'', CHR ''/'')})"
proof -
  have p: "Parse ((String sample_address)[5 := String sample_address ! 5]) = Inr sample_address"
    by (simp add: String_spelling Parse_spelling_url)
  from one_typo_is_harmless [OF wf_sample _ p] p show ?thesis by simp
qed

text \<open>The standard alphabet. The spelling of an address in the standard base64 alphabet is
  accepted as the same address, and normalises to the url-safe text.\<close>

lemma standard_spelling_accepted:
  assumes "wf_address a"
  shows "Parse (spelling std_alphabet a) = Inr a \<and> Normalize (spelling std_alphabet a) = Inr (String a)"
proof -
  let ?s = "spelling std_alphabet a" and ?w = "friendly_bytes a (Bounceable a)"
  have nl: "filter (\<lambda>c. \<not> newline c) ?s = ?s"
    using spelling_chars [OF good_std] graphic_not_newline by (auto simp: filter_id_conv)
  have std: "b64_decode std_alphabet ?s = Some ?w" by (simp add: spelling_def b64_decode_encode)
  have "raw = ?w" if url: "b64_decode url_alphabet ?s = Some raw" for raw
  proof -
    have "pad_char \<notin> set ?s"
      using assms sextets_bound good_nth [OF good_std] by (force simp: spelling_sextets)
    then have m3: "length raw mod 3 = 0"
      using url b64_groups_unpadded by (simp add: b64_decode_def nl)
    have "?s = map ((!) url_alphabet) (sextets raw)"
      using b64_decode_whole [OF good_url url m3] by (simp only: nl)
    then have eq: "map ((!) url_alphabet) (sextets raw) = map ((!) std_alphabet) (sextets ?w)"
      using assms by (simp add: spelling_sextets)
    then have len: "length (sextets raw) = length (sextets ?w)" by (metis length_map)
    have "sextets ?w ! j = sextets raw ! j" if "j < length (sextets ?w)" for j
    proof (rule alphabets_agree [of std_alphabet])
      show "sextets ?w ! j < 64" "sextets raw ! j < 64" using that len sextets_bound nth_mem by metis+
      show "std_alphabet ! (sextets ?w ! j) = url_alphabet ! (sextets raw ! j)"
        using eq that len by (metis nth_map)
    qed simp
    then have "sextets raw = sextets ?w" using len by (intro nth_equalityI) simp_all
    then show ?thesis using m3 assms by (intro sextets_inj) (simp_all add: wf_length)
  qed
  with std have "decode_either ?s = Some ?w" by (auto simp: decode_either_def split: option.splits)
  moreover have "?s \<noteq> []" using assms length_spelling [of a std_alphabet] by (intro notI) simp
  then have "Parse ?s = parseFriendly ?s"
    by (intro Parse_no_colon) (auto dest: spelling_chars [OF good_std])
  ultimately show ?thesis using assms by (simp add: parseFriendly_def parse_bytes_friendly Normalize_def)
qed

lemma standard_spelling_accepted_witness:
  "Parse (spelling std_alphabet sample_address) = Inr sample_address
   \<and> Normalize (spelling std_alphabet sample_address) = Inr (String sample_address)"
  by (rule standard_spelling_accepted) simp

text \<open>Canonical form. \<open>Normalize\<close> is idempotent, its result parses to the address the input
  parses to, and two accepted inputs have the same normal form exactly when they parse alike.\<close>

theorem Normalize_canonical:
  assumes "Normalize s = Inr t" and "Normalize s' = Inr t'"
  shows "Normalize t = Inr t \<and> Parse t = Parse s \<and> (t = t' \<longleftrightarrow> Parse s = Parse s')"
proof -
  have norm: "\<exists>a. Parse r = Inr a \<and> u = String a \<and> Parse u = Inr a" if "Normalize r = Inr u" for r u
    using that Parse_wf [of r]
    by (auto simp: Normalize_def String_spelling Parse_spelling_url split: sum.splits)
  from norm [OF assms(1)] obtain a where a: "Parse s = Inr a" "t = String a" "Parse t = Inr a" by blast
  from norm [OF assms(2)] obtain a' where a': "Parse s' = Inr a'" "t' = String a'" "Parse t' = Inr a'"
    by blast
  have "t = t' \<longleftrightarrow> a = a'" using a a' by (metis Inr_inject)
  then show ?thesis using a a' by (simp add: Normalize_def)
qed

theorem Normalize_canonical_witness:
  "Normalize (String sample_address) = Inr (String sample_address)
   \<and> Parse (String sample_address) = Parse (Friendly sample_address True)
   \<and> (String sample_address = String sample_address
       \<longleftrightarrow> Parse (Friendly sample_address True) = Parse (Raw sample_address))"
proof -
  have f: "Parse (Friendly sample_address True) = Inr sample_address"
    by (simp add: Friendly_spelling Parse_spelling_url) (simp add: sample_address_def)
  have r: "Parse (Raw sample_address) = Inr sample_address"
    by (simp add: Parse_Raw) (simp add: sample_address_def)
  have "Normalize (Friendly sample_address True) = Inr (String sample_address)"
    "Normalize (Raw sample_address) = Inr (String sample_address)"
    by (simp_all add: Normalize_def f r)
  from Normalize_canonical [OF this] show ?thesis by simp
qed

text \<open>Network check. A user-friendly address is accepted exactly when its network tag is the
  wanted one, and is then normalised; a raw address is accepted on both networks.\<close>

lemma NormalizeOnNetwork_spec:
  assumes "wf_address a"
  shows "NormalizeOnNetwork (Friendly a b) net
      = (if Testnet a = net then Inr (Friendly a b) else Inl (NetworkMismatch (Testnet a) net))
    \<and> NormalizeOnNetwork (Raw a) net = Inr (Friendly (a\<lparr>Testnet := False\<rparr>) True)"
proof -
  have "CHR '':'' \<notin> set (spelling url_alphabet (a\<lparr>Bounceable := b\<rparr>))"
    by (auto dest: spelling_chars [OF good_url])
  then have "NormalizeOnNetwork (Friendly a b) net
      = (if Testnet a = net then Inr (Friendly a b) else Inl (NetworkMismatch (Testnet a) net))"
    using assms by (simp add: NormalizeOnNetwork_def Friendly_spelling Parse_spelling_url String_spelling)
  moreover have "CHR '':'' \<in> set (Raw a)" by (simp add: Raw_def)
  then have "NormalizeOnNetwork (Raw a) net = Inr (Friendly (a\<lparr>Testnet := False\<rparr>) True)"
    using assms by (simp add: NormalizeOnNetwork_def Parse_Raw Friendly_spelling String_spelling)
  ultimately show ?thesis by blast
qed

lemma NormalizeOnNetwork_spec_witness:
  "NormalizeOnNetwork (Friendly sample_address True) True
      = (if Testnet sample_address = True then Inr (Friendly sample_address True)
         else Inl (NetworkMismatch (Testnet sample_address) True))
    \<and> NormalizeOnNetwork (Raw sample_address) True
      = Inr (Friendly (sample_address\<lparr>Testnet := False\<rparr>) True)"
  by (rule NormalizeOnNetwork_spec) simp

text \<open>A raw address on testnet. The normal form of a raw address carries the mainnet tag, so on
  a testnet service it is not a fixed point: the same service rejects its own canonical text.\<close>

theorem raw_normal_form_rejected_on_testnet:
  assumes "wf_address a"
  shows "\<exists>t. NormalizeOnNetwork (Raw a) True = Inr t
    \<and> NormalizeOnNetwork t True = Inl (NetworkMismatch False True)"
proof -
  let ?a = "a\<lparr>Testnet := False, Bounceable := True\<rparr>"
  have wf: "wf_address ?a" using assms by (simp add: wf_address_def)
  have "CHR '':'' \<in> set (Raw a)" by (simp add: Raw_def)
  then have "NormalizeOnNetwork (Raw a) True = Inr (spelling url_alphabet ?a)"
    using assms by (simp add: NormalizeOnNetwork_def Parse_Raw String_spelling)
  moreover have "CHR '':'' \<notin> set (spelling url_alphabet ?a)"
    by (auto dest: spelling_chars [OF good_url])
  then have "NormalizeOnNetwork (spelling url_alphabet ?a) True = Inl (NetworkMismatch False True)"
    using wf by (simp add: NormalizeOnNetwork_def Parse_spelling_url)
  ultimately show ?thesis by blast
qed

theorem raw_normal_form_rejected_on_testnet_witness:
  "\<exists>t. NormalizeOnNetwork (Raw sample_address) True = Inr t
    \<and> NormalizeOnNetwork t True = Inl (NetworkMismatch False True)"
  by (rule raw_normal_form_rejected_on_testnet) simp

end
