(* ===== verification/Go_Url.thy ===== *)
theory Go_Url
  imports Go_Strings
begin

text \<open>
  The part of package net/url the service uses: \<open>url.QueryEscape\<close>, which puts the receiving
  address, the API key and the memo into URLs.  Against a reference decoder it is shown to lose
  nothing, and its output to consist of characters that cannot end or split a query value.
\<close>

definition url_unreserved :: "char \<Rightarrow> bool" where
  "url_unreserved c \<longleftrightarrow>
     code CHR ''a'' \<le> code c \<and> code c \<le> code CHR ''z''
     \<or> code CHR ''A'' \<le> code c \<and> code c \<le> code CHR ''Z''
     \<or> code CHR ''0'' \<le> code c \<and> code c \<le> code CHR ''9''
     \<or> c \<in> set ''-_.~''"

definition query_escape_char :: "char \<Rightarrow> string" where
  "query_escape_char c =
     (if c = CHR '' '' then ''+''
      else if url_unreserved c then [c]
      else [CHR ''%'', hex_digits_upper ! (code c div 16), hex_digits_upper ! (code c mod 16)])"

definition QueryEscape :: "string \<Rightarrow> string" where
  "QueryEscape s = concat (map query_escape_char s)"

text \<open>The reference decoder of \<open>application/x-www-form-urlencoded\<close>.\<close>

fun QueryUnescape :: "string \<Rightarrow> string option" where
  "QueryUnescape [] = Some []"
| "QueryUnescape (c # s) =
     (if c = CHR ''%'' then
        (case s of
           h # l # rest \<Rightarrow>
             (case (hex_val h, hex_val l, QueryUnescape rest) of
                (Some x, Some y, Some t) \<Rightarrow> Some (char_of (16 * x + y) # t)
              | _ \<Rightarrow> None)
         | _ \<Rightarrow> None)
      else map_option ((#) (if c = CHR ''+'' then CHR '' '' else c)) (QueryUnescape s))"

lemma hex_upper_val: "n < 16 \<Longrightarrow> hex_val (hex_digits_upper ! n) = Some n"
proof -
  assume "n < 16"
  moreover have "list_all (\<lambda>n. hex_val (hex_digits_upper ! n) = Some n) [0..<16]" by code_simp
  ultimately show ?thesis by (simp add: list_all_iff)
qed

lemma unreserved_no_code: "\<not> url_unreserved CHR ''%'' \<and> \<not> url_unreserved CHR ''+'' \<and> \<not> url_unreserved CHR '' ''"
  by code_simp

lemma code_bound: "code c < 256"
  by (simp add: code_def)

lemma QueryUnescape_char:
  "QueryUnescape (query_escape_char c @ s) = map_option ((#) c) (QueryUnescape s)"
proof (cases "c = CHR '' '' \<or> url_unreserved c")
  case True
  then show ?thesis using unreserved_no_code by (auto simp: query_escape_char_def)
next
  case False
  have "code c div 16 < 16" using code_bound [of c] by linarith
  moreover have "char_of (16 * (code c div 16) + code c mod 16) = c"
    by (simp add: code_def)
  ultimately show ?thesis
    using False by (auto simp: query_escape_char_def hex_upper_val split: option.splits)
qed

lemma QueryUnescape_Escape: "QueryUnescape (QueryEscape s) = Some s"
  by (induction s) (simp_all add: QueryEscape_def QueryUnescape_char)

lemma QueryEscape_inj: "QueryEscape s = QueryEscape t \<Longrightarrow> s = t"
  by (metis QueryUnescape_Escape option.inject)

lemma QueryEscape_chars: "c \<in> set (QueryEscape s) \<Longrightarrow> url_unreserved c \<or> c = CHR ''%'' \<or> c = CHR ''+''"
proof -
  assume "c \<in> set (QueryEscape s)"
  then obtain d where "c \<in> set (query_escape_char d)" by (auto simp: QueryEscape_def)
  moreover have "list_all url_unreserved hex_digits_upper" by code_simp
  then have "url_unreserved (hex_digits_upper ! n)" if "n < 16" for n
    using that by (simp add: list_all_length hex_digits_upper_def)
  moreover have "code d div 16 < 16" "code d mod 16 < 16" using code_bound [of d] by linarith+
  ultimately show ?thesis by (auto simp: query_escape_char_def split: if_splits)
qed

end
