(* ===== verification/Wallet.thy ===== *)
theory Wallet
  imports Toncenter Tonaddr Go_Url
begin

text \<open>
  internal/idgen/idgen.go and internal/wallet: random ids and memos, the mock verifier, and the
  toncenter verifier that decides from the transactions of the receiving address whether an
  invoice was paid.  A draw from crypto/rand is \<open>None\<close> when the generator fails, which
  makes the code panic; toncenter is a function from request URLs to what comes back,
  a status and the bytes of a body.
\<close>

section \<open>Ids and memos\<close>

text \<open>\<open>None\<close> is the panic; a successful \<open>rand.Read\<close> has filled the whole buffer.\<close>

definition NewID :: "string \<Rightarrow> byte list option \<Rightarrow> string option" where
  "NewID prefix draw = map_option (\<lambda>b. prefix @ ''_'' @ raw_b64_encode url_alphabet b) draw"

definition NewMemo :: "byte list option \<Rightarrow> string option" where
  "NewMemo draw = map_option (\<lambda>b. ''TON-'' @ HexEncode b) draw"

lemma raw_b64_chars: "c \<in> set (raw_b64_encode url_alphabet b) \<Longrightarrow> c \<in> set url_alphabet"
proof -
  assume "c \<in> set (raw_b64_encode url_alphabet b)"
  then obtain n where "n \<in> set (sextets b)" "c = url_alphabet ! n" by (auto simp: raw_b64_encode_def)
  moreover have "length url_alphabet = 64" using good_url by (simp add: good_alphabet_def)
  ultimately show ?thesis using sextets_bound by (auto intro!: nth_mem)
qed

lemma NewID_nul_free:
  assumes "NewID prefix draw = Some s" and "nul_free prefix"
  shows "nul_free s"
proof -
  have "list_all (\<lambda>c. c \<noteq> CHR 0x00) url_alphabet" by code_simp
  then show ?thesis
    using assms raw_b64_chars by (auto simp: NewID_def nul_free_def list_all_iff)
qed

lemma graphic_not_nul: "graphic c \<Longrightarrow> c \<noteq> CHR 0x00"
  by (auto simp: graphic_def code_def)

lemma NewMemo_nul_free: "NewMemo draw = Some s \<Longrightarrow> nul_free s \<and> s \<noteq> []"
  using HexEncode_chars graphic_not_nul by (fastforce simp: NewMemo_def nul_free_def)

lemma NewMemo_inj: "NewMemo (Some b) = NewMemo (Some b') \<Longrightarrow> b = b'"
  using HexEncode_inj by (simp add: NewMemo_def)

text \<open>
  Different draws give different invoices: a memo is a 36-character text from which the 16
  random bytes can be read back, an id with prefix \<open>inv\<close> has 16 characters, and neither merges
  two draws.
\<close>

lemma draws_are_kept:
  assumes "length b = 16" and "length b' = 16" and "length c = 9" and "length c' = 9"
  shows "(\<exists>m. NewMemo (Some b) = Some m \<and> length m = 36 \<and> HexDecode (drop 4 m) = Some b)
    \<and> (NewMemo (Some b) = NewMemo (Some b') \<longleftrightarrow> b = b')
    \<and> (\<exists>k. NewID ''inv'' (Some c) = Some k \<and> length k = 16)
    \<and> (NewID ''inv'' (Some c) = NewID ''inv'' (Some c') \<longleftrightarrow> c = c')"
proof (intro conjI)
  show "\<exists>m. NewMemo (Some b) = Some m \<and> length m = 36 \<and> HexDecode (drop 4 m) = Some b"
    using assms(1) by (simp add: NewMemo_def)
  show "NewMemo (Some b) = NewMemo (Some b') \<longleftrightarrow> b = b'"
    using HexEncode_inj by (auto simp: NewMemo_def)
  show "\<exists>k. NewID ''inv'' (Some c) = Some k \<and> length k = 16"
    using assms(3) length_sextets [of c] by (simp add: NewID_def raw_b64_encode_def)
  show "NewID ''inv'' (Some c) = NewID ''inv'' (Some c') \<longleftrightarrow> c = c'"
    using assms(3,4) raw_b64_inj [OF good_url, of c c'] by (auto simp: NewID_def)
qed

lemma draws_are_kept_witness:
  "NewMemo (Some (replicate 16 (0::byte))) \<noteq> NewMemo (Some (replicate 15 0 @ [1]))"
  using draws_are_kept [of "replicate 16 0" "replicate 15 0 @ [1]" "replicate 9 0" "replicate 9 0"]
  by (simp add: numeral_eq_Suc)

section \<open>The verifiers\<close>

datatype verify_error =
    NoReceivingAddress | NoMemo | BadUrl | HttpFailed | ToncenterStatus int | BadBody

type_synonym verify_result = "(bool \<times> string) \<times> verify_error option"

text \<open>The interface: an observation of the outside world, the verifier's own state, the invoice.\<close>

type_synonym ('e, 'v) Verifier = "'e \<Rightarrow> 'v \<Rightarrow> invoice \<Rightarrow> verify_result \<times> 'v"

subsection \<open>The mock\<close>

record mock =
  after :: int
  polls :: "string \<Rightarrow> int"

definition NewMockVerifier :: "int \<Rightarrow> mock" where
  "NewMockVerifier n = \<lparr>after = (if n < 1 then 1 else n), polls = (\<lambda>_. 0)\<rparr>"

definition MockVerify :: "('e, mock) Verifier" where
  "MockVerify e m i =
     (let m' = m\<lparr>polls := (polls m)(ID i := polls m (ID i) + 1)\<rparr> in
      if polls m' (ID i) \<ge> after m' then (((True, ''mock-tx-'' @ Memo i), None), m')
      else (((False, []), None), m'))"

definition mock_after :: "int \<Rightarrow> invoice list \<Rightarrow> mock" where
  "mock_after n js = foldl (\<lambda>m j. snd (MockVerify () m j)) (NewMockVerifier n) js"

lemma mock_after_state:
  "after (mock_after n js) = (if n < 1 then 1 else n)
    \<and> polls (mock_after n js) k = int (length (filter (\<lambda>j. ID j = k) js))"
proof (induction js rule: rev_induct)
  case Nil
  then show ?case by (simp add: mock_after_def NewMockVerifier_def)
next
  case (snoc j js)
  have step: "mock_after n (js @ [j]) = snd (MockVerify () (mock_after n js) j)" by (simp add: mock_after_def)
  show ?case using snoc unfolding step by (auto simp: MockVerify_def Let_def split: if_splits)
qed

text \<open>
  The mock verifier, polled in any interleaving with other invoices, confirms an invoice
  from its n-th poll on and not before (from the first one when n is not positive), and the
  transaction it reports carries the invoice's memo.
\<close>

lemma mock_confirms_at_nth_poll:
  "fst (MockVerify e (mock_after n js) i) =
     (if int (length (filter (\<lambda>j. ID j = ID i) js)) + 1 \<ge> max n 1
      then ((True, ''mock-tx-'' @ Memo i), None) else ((False, []), None))"
  using mock_after_state [of n js "ID i"] by (auto simp: MockVerify_def Let_def max_def)

subsection \<open>Toncenter\<close>

text \<open>
  What becomes of a GET: the URL does not parse, the exchange fails, or a response arrives with a
  status and a body.
\<close>

datatype http_outcome = UrlRefused | ExchangeFailed | Response int string

record TonVerifier =
  apiBase :: string
  apiKey :: string

definition NewTonVerifier :: "string \<Rightarrow> string \<Rightarrow> TonVerifier" where
  "NewTonVerifier base key = \<lparr>apiBase = base, apiKey = key\<rparr>"

definition tx_url :: "TonVerifier \<Rightarrow> invoice \<Rightarrow> string" where
  "tx_url v i =
     (let u = TrimRight (apiBase v) CHR ''/'' @ ''/getTransactions?address='' @ QueryEscape (PayTo i)
            @ ''&limit=30&archival=true''
      in if apiKey v \<noteq> [] then u @ ''&api_key='' @ QueryEscape (apiKey v) else u)"

text \<open>A transaction older than the invoice by more than an hour of clock skew.\<close>

definition predates :: "invoice \<Rightarrow> tc_tx \<Rightarrow> bool" where
  "predates i tx \<longleftrightarrow> tc_utime tx > 0 \<and> \<not> IsZero (CreatedAt i) \<and> tc_utime tx < Unix (CreatedAt i - Hour)"

definition wrong_destination :: "addr_error + address \<Rightarrow> tc_tx \<Rightarrow> bool" where
  "wrong_destination want0 tx = (case want0 of
     Inl _ \<Rightarrow> False
   | Inr want \<Rightarrow> tc_destination tx \<noteq> [] \<and>
       (case Parse (tc_destination tx) of Inl _ \<Rightarrow> True | Inr got \<Rightarrow> Raw got \<noteq> Raw want))"

fun match_txs :: "invoice \<Rightarrow> addr_error + address \<Rightarrow> tc_tx list \<Rightarrow> bool \<times> string" where
  "match_txs i want [] = (False, [])"
| "match_txs i want (tx # rest) =
     (if tc_message tx \<noteq> Memo i then match_txs i want rest
      else if predates i tx then match_txs i want rest
      else if wrong_destination want tx then match_txs i want rest
      else case ParseInt 64 (tc_value tx) of
          (_, Some _) \<Rightarrow> match_txs i want rest
        | (val, None) \<Rightarrow> if val \<ge> AmountNano i then (True, tc_hash tx) else match_txs i want rest)"

definition TonVerify :: "TonVerifier \<Rightarrow> (string \<Rightarrow> http_outcome, 'v) Verifier" where
  "TonVerify v http s i =
     (if PayTo i = [] then (((False, []), Some NoReceivingAddress), s)
      else if Memo i = [] then (((False, []), Some NoMemo), s)
      else case http (tx_url v i) of
          UrlRefused \<Rightarrow> (((False, []), Some BadUrl), s)
        | ExchangeFailed \<Rightarrow> (((False, []), Some HttpFailed), s)
        | Response st body \<Rightarrow>
            if st \<noteq> 200 then (((False, []), Some (ToncenterStatus st)), s)
            else case decode_answer body of
                None \<Rightarrow> (((False, []), Some BadBody), s)
              | Some b \<Rightarrow> ((match_txs i (Parse (PayTo i)) (tc_result b), None), s))"

subsection \<open>What counts as payment\<close>

text \<open>
  The specification: the memo is exact, the transfer is not older than the invoice allows, its
  destination (when given) is the invoice's account in whatever spelling, and its value is a
  number that covers the amount.
\<close>

definition pays :: "tc_tx \<Rightarrow> invoice \<Rightarrow> bool" where
  "pays tx i \<longleftrightarrow> tc_message tx = Memo i \<and> \<not> predates i tx
     \<and> (\<forall>want. Parse (PayTo i) = Inr want \<longrightarrow> tc_destination tx = [] \<or>
          (\<exists>got. Parse (tc_destination tx) = Inr got \<and> same_account got want))
     \<and> (\<exists>val. ParseInt 64 (tc_value tx) = (val, None) \<and> AmountNano i \<le> val)"

lemma wrong_destination_iff:
  "\<not> wrong_destination (Parse p) tx \<longleftrightarrow>
     (\<forall>want. Parse p = Inr want \<longrightarrow> tc_destination tx = [] \<or>
        (\<exists>got. Parse (tc_destination tx) = Inr got \<and> same_account got want))"
  using Parse_wf Raw_eq_iff by (auto simp: wrong_destination_def split: sum.splits)

lemma match_txs_step:
  "match_txs i (Parse (PayTo i)) (tx # rest) =
     (if pays tx i then (True, tc_hash tx) else match_txs i (Parse (PayTo i)) rest)"
  using wrong_destination_iff [of "PayTo i" tx]
  by (cases "ParseInt 64 (tc_value tx)"; cases "snd (ParseInt 64 (tc_value tx))") (auto simp: pays_def)

lemma match_txs_find:
  "match_txs i (Parse (PayTo i)) txs =
     (case find (\<lambda>tx. pays tx i) txs of None \<Rightarrow> (False, []) | Some tx \<Rightarrow> (True, tc_hash tx))"
  by (induction txs) (simp, simp only: match_txs_step find.simps split: if_splits, simp)


text \<open>
  C6: The toncenter verifier is sound, complete and fails closed. It reports an invoice paid
  exactly when the invoice has an address and a memo and toncenter answers 200 with a body whose
  bytes decode to a list with a paying transaction; the hash it reports is that of the first such
  transaction and valid UTF-8, and with any error it reports neither payment nor hash.
\<close>

theorem TonVerify_exact:
  assumes "TonVerify v http s i = (((paid, h), e), s')"
  shows "(paid \<longleftrightarrow> PayTo i \<noteq> [] \<and> Memo i \<noteq> [] \<and>
       (\<exists>body b. http (tx_url v i) = Response 200 body \<and> decode_answer body = Some b
         \<and> (\<exists>tx \<in> set (tc_result b). pays tx i)))
    \<and> (paid \<longrightarrow> (\<exists>body b tx. http (tx_url v i) = Response 200 body \<and> decode_answer body = Some b
        \<and> find (\<lambda>tx. pays tx i) (tc_result b) = Some tx \<and> h = tc_hash tx \<and> valid_utf8 h))
    \<and> (e \<noteq> None \<longrightarrow> \<not> paid \<and> h = []) \<and> s' = s"
proof -
  have none: "find (\<lambda>tx. pays tx i) txs = None \<longleftrightarrow> \<not> (\<exists>tx \<in> set txs. pays tx i)" for txs
    by (auto simp: find_None_iff)
  have some: "find (\<lambda>tx. pays tx i) txs = Some tx \<Longrightarrow> tx \<in> set txs \<and> pays tx i" for txs tx
    by (auto simp: find_Some_iff)
  have valid: "valid_utf8 (tc_hash tx)" if "decode_answer body = Some b" "find (\<lambda>tx. pays tx i) (tc_result b) = Some tx" for body b tx
    using decode_answer_valid [OF that(1)] some [OF that(2)] by (auto simp: tx_valid_def)
  show ?thesis
    using assms none
    by (auto simp: TonVerify_def match_txs_find dest: some valid split: if_splits http_outcome.splits option.splits)
qed

definition sample_verifier :: TonVerifier where
  "sample_verifier = \<lparr>apiBase = ''https://toncenter.com/api/v2/'', apiKey = []\<rparr>"

definition sample_payment :: tc_tx where
  "sample_payment = \<lparr>tc_utime = 0, tc_lt = ''7'', tc_hash = ''h'', tc_source = [],
     tc_destination = [], tc_value = ''5'', tc_message = ''TON-1''\<rparr>"

definition sample_bill :: invoice where
  "sample_bill = zero_invoice\<lparr>ID := ''inv_1'', PayTo := String sample_address, Memo := ''TON-1'',
     AmountNano := 5, Status := StatusPending\<rparr>"

lemma sample_pays: "pays sample_payment sample_bill"
proof -
  have "FormatInt 5 = ''5''" by (simp add: FormatInt_def show_nat.simps digit_char_simps)
  then have "ParseInt 64 ''5'' = (5, None)" using ParseInt_FormatInt [of 64 5] by simp
  then show ?thesis by (simp add: pays_def sample_payment_def sample_bill_def predates_def)
qed

lemma String_not_empty: "wf_address a \<Longrightarrow> String a \<noteq> []"
  unfolding String_spelling by (drule length_spelling [of a url_alphabet]) auto

definition sample_answer :: tcResponse where
  "sample_answer = \<lparr>tc_ok = True, tc_result = [sample_payment]\<rparr>"

lemma sample_answer_read: "decode_answer (answer_text sample_answer) = Some sample_answer"
proof (rule answer_reads_back)
  have "valid_utf8 ''7''" "valid_utf8 ''h''" "valid_utf8 ''5''" "valid_utf8 ''TON-1''"
    by (rule valid_ascii, simp add: code_def)+
  then show "\<forall>tx \<in> set (tc_result sample_answer). tx_valid tx"
    by (simp add: sample_answer_def sample_payment_def tx_valid_def in_int64_def go_defs)
qed

theorem TonVerify_exact_witness:
  "TonVerify sample_verifier (\<lambda>_. Response 200 (answer_text sample_answer)) () sample_bill = (((True, ''h''), None), ())"
proof -
  let ?http = "\<lambda>_ :: string. Response 200 (answer_text sample_answer)"
  obtain paid h e where v: "TonVerify sample_verifier ?http () sample_bill = (((paid, h), e), ())"
    by (metis surj_pair unit.exhaust)
  have "PayTo sample_bill \<noteq> []" "Memo sample_bill \<noteq> []"
    using String_not_empty [OF wf_sample] by (simp_all add: sample_bill_def)
  then have "paid \<and> h = ''h'' \<and> e = None"
    using TonVerify_exact [OF v] sample_pays sample_answer_read
    by (auto simp: sample_answer_def sample_payment_def)
  then show ?thesis using v by simp
qed

text \<open>
  Memos are unique per receiving text, but the verifier compares accounts. For any account
  and memo, two invoices that name the account in its bounceable and its non-bounceable spelling
  do not clash in a store, and yet every transaction that pays one of them, whether it carries a
  destination or not, pays the other as well when their amounts and creation times agree.
\<close>

theorem spellings_share_a_payment:
  assumes "wf_address a" and "PayTo i = Friendly a True"
  shows "\<not> same_key (i\<lparr>PayTo := Friendly a False\<rparr>) i
    \<and> (pays tx (i\<lparr>PayTo := Friendly a False\<rparr>) \<longleftrightarrow> pays tx i)"
proof -
  have p: "Parse (Friendly a b) = Inr (a\<lparr>Bounceable := b\<rparr>)" for b
    using assms(1) by (simp add: Friendly_spelling Parse_spelling_url)
  have "Friendly a True \<noteq> Friendly a False"
  proof
    assume "Friendly a True = Friendly a False"
    then have "(Inr (a\<lparr>Bounceable := True\<rparr>) :: addr_error + address) = Inr (a\<lparr>Bounceable := False\<rparr>)"
      using p by metis
    then show False by (cases a) simp
  qed
  then have "\<not> same_key (i\<lparr>PayTo := Friendly a False\<rparr>) i" using assms(2) by (auto simp: same_key_def)
  moreover have "pays tx (i\<lparr>PayTo := Friendly a False\<rparr>) \<longleftrightarrow> pays tx i"
    using assms(2) p by (simp add: pays_def predates_def same_account_def)
  ultimately show ?thesis by blast
qed

theorem spellings_share_a_payment_witness:
  "pays sample_payment (sample_bill\<lparr>PayTo := Friendly sample_address False\<rparr>)
    \<and> \<not> same_key (sample_bill\<lparr>PayTo := Friendly sample_address False\<rparr>) sample_bill"
  using spellings_share_a_payment [OF wf_sample, of sample_bill sample_payment] sample_pays
  by (simp add: sample_bill_def String_def sample_address_def)

text \<open>
  The request URL is what it should be: the query values are read back from it exactly as
  they went in, and nothing in an address or a key can end its value early and add a parameter.
\<close>

lemma query_values_survive:
  "QueryUnescape (QueryEscape (PayTo i)) = Some (PayTo i)
   \<and> QueryUnescape (QueryEscape (apiKey v)) = Some (apiKey v)
   \<and> set (QueryEscape (PayTo i)) \<inter> set ''&=#?/:'' = {}
   \<and> tx_url v i = TrimRight (apiBase v) CHR ''/'' @ ''/getTransactions?address='' @ QueryEscape (PayTo i)
        @ ''&limit=30&archival=true'' @ (if apiKey v = [] then [] else ''&api_key='' @ QueryEscape (apiKey v))"
proof -
  have "list_all (\<lambda>c. \<not> url_unreserved c) ''&=#?/:''" by code_simp
  then have "set (QueryEscape (PayTo i)) \<inter> set ''&=#?/:'' = {}"
    using QueryEscape_chars [of _ "PayTo i"] by (auto simp: list_all_iff)
  then show ?thesis by (simp add: QueryUnescape_Escape tx_url_def Let_def)
qed

end
