(* ===== verification/Service.thy ===== *)
theory Service
  imports Wallet Memory Postgres
begin

text \<open>
  internal/service/service.go: creating invoices within the configured bounds, checking their
  payment, settling and expiring them.  The service is generic in the store and the verifier, as
  in the code.  What the surroundings contribute to one call (clock readings, random draws,
  the worlds of the store operations, what the verifier can see) is an environment record.
  (The stores are imported only so that the lemmas below reach their interpretations.)
  This theory runs each handler on its own; interleavings are the subject of \<open>Settlement\<close>.
\<close>

section \<open>Configuration and state\<close>

record ('s, 'w, 'e, 'v) Service =
  svc_st :: "('s, 'w) Store"
  svc_verifier :: "('e, 'v) Verifier"
  svc_defaultPayTo :: string
  svc_currency :: string
  svc_defaultTTL :: duration
  svc_maxTTL :: duration
  svc_maxPending :: int
  svc_maxPendingPerAddr :: int
  svc_webhook :: bool
  svc_testnet :: bool

text \<open>The shared state: the store, the verifier's own state, and the invoices handed to the webhook.\<close>

record ('s, 'v) system =
  db :: 's
  verifier_state :: 'v
  fired :: "invoice list"

definition MaxTTL :: duration where [go_defs]: "MaxTTL = 24 * Hour"
definition maxMetadataKeys :: nat where [go_defs]: "maxMetadataKeys = 64"
definition maxMetadataBytes :: nat where [go_defs]: "maxMetadataBytes = 8 * 1024"

definition NewService ::
  "('s, 'w) Store \<Rightarrow> ('e, 'v) Verifier \<Rightarrow> string \<Rightarrow> duration \<Rightarrow> bool \<Rightarrow> ('s, 'w, 'e, 'v) Service" where
  "NewService st v defaultPayTo defaultTTL wh =
     \<lparr>svc_st = st, svc_verifier = v, svc_defaultPayTo = defaultPayTo, svc_currency = ''TON'',
      svc_defaultTTL = (if defaultTTL \<le> 0 then 15 * Minute else defaultTTL), svc_maxTTL = MaxTTL,
      svc_maxPending = 0, svc_maxPendingPerAddr = 0, svc_webhook = wh, svc_testnet = False\<rparr>"

definition SetNetwork :: "('s, 'w, 'e, 'v) Service \<Rightarrow> bool \<Rightarrow> ('s, 'w, 'e, 'v) Service" where
  "SetNetwork svc t = svc\<lparr>svc_testnet := t\<rparr>"

definition SetLimits :: "('s, 'w, 'e, 'v) Service \<Rightarrow> duration \<Rightarrow> int \<Rightarrow> int \<Rightarrow> ('s, 'w, 'e, 'v) Service" where
  "SetLimits svc maxTTL maxPending perAddr =
     (let svc1 = (if maxTTL > 0 then svc\<lparr>svc_maxTTL := maxTTL\<rparr> else svc) in
      svc1\<lparr>svc_maxPending := maxPending, svc_maxPendingPerAddr := perAddr\<rparr>)"

datatype service_error =
    NonPositiveAmount | PayToError addr_error | NoReceivingAddr | TooManyKeys | MetadataTooLarge nat
  | TooManyPending | TooManyPendingForAddr | StoreError store_error | NoUniqueMemo | NotFound

datatype 'a outcome = Returned 'a | Failed service_error | Panicked

section \<open>Creating an invoice\<close>

definition validateMetadata :: "(string \<times> string) list \<Rightarrow> service_error option" where
  "validateMetadata md =
     (if length md > maxMetadataKeys then Some TooManyKeys
      else let total = foldl (\<lambda>t (k, v). t + length k + length v) 0 md in
        if total > maxMetadataBytes then Some (MetadataTooLarge total) else None)"

definition resolvePayTo :: "('s, 'w, 'e, 'v) Service \<Rightarrow> string \<Rightarrow> service_error + string" where
  "resolvePayTo svc payTo =
     (case (if payTo \<noteq> [] then
              (case NormalizeOnNetwork payTo (svc_testnet svc) of
                 Inl e \<Rightarrow> Inl (PayToError e) | Inr norm \<Rightarrow> Inr norm)
            else Inr (svc_defaultPayTo svc)) of
        Inl e \<Rightarrow> Inl e
      | Inr addr \<Rightarrow> if addr = [] then Inl NoReceivingAddr else Inr addr)"

definition checkCaps :: "('s, 'w, 'e, 'v) Service \<Rightarrow> 'w \<Rightarrow> 's \<Rightarrow> string \<Rightarrow> service_error option" where
  "checkCaps svc w s addr =
     (if svc_maxPending svc > 0 \<or> svc_maxPendingPerAddr svc > 0 then
        (case PendingCounts (svc_st svc) w s addr of
           (_, Some e) \<Rightarrow> Some (StoreError e)
         | ((n, forAddr), None) \<Rightarrow>
             if svc_maxPending svc > 0 \<and> int n \<ge> svc_maxPending svc then Some TooManyPending
             else if svc_maxPendingPerAddr svc > 0 \<and> int forAddr \<ge> svc_maxPendingPerAddr svc
             then Some TooManyPendingForAddr else None)
      else None)"

definition effectiveTTL :: "('s, 'w, 'e, 'v) Service \<Rightarrow> duration \<Rightarrow> duration" where
  "effectiveTTL svc ttl0 =
     (let ttl = (if ttl0 \<le> 0 then svc_defaultTTL svc else ttl0)
      in if ttl > svc_maxTTL svc then svc_maxTTL svc else ttl)"

record 'w create_env =
  now :: gtime
  counts_world :: 'w
  id_draw :: "nat \<Rightarrow> byte list option"
  memo_draw :: "nat \<Rightarrow> byte list option"
  create_world :: "nat \<Rightarrow> 'w"

text \<open>The allocation loop, by the number of attempts left and the number of the next one.\<close>

fun allocate ::
  "('s, 'w, 'e, 'v) Service \<Rightarrow> 'w create_env \<Rightarrow> nat \<Rightarrow> nat \<Rightarrow> invoice \<Rightarrow> 's \<Rightarrow> invoice outcome \<times> 's" where
  "allocate svc env 0 n i s = (Failed NoUniqueMemo, s)"
| "allocate svc env (Suc left) n i s =
     (case NewID ''inv'' (id_draw env n) of
        None \<Rightarrow> (Panicked, s)
      | Some k \<Rightarrow>
         (case NewMemo (memo_draw env n) of
            None \<Rightarrow> (Panicked, s)
          | Some m \<Rightarrow>
             (let i' = i\<lparr>ID := k, Memo := m\<rparr> in
              case CreateInvoice (svc_st svc) (create_world env n) s i' of
                (None, s') \<Rightarrow> (Returned i', s')
              | (Some ErrMemoExists, s') \<Rightarrow> allocate svc env left (Suc n) i' s'
              | (Some (StoreFailure e), s') \<Rightarrow> (Failed (StoreError (StoreFailure e)), s'))))"

definition newInvoice :: "('s, 'w, 'e, 'v) Service \<Rightarrow> gtime \<Rightarrow> string \<Rightarrow> int64 \<Rightarrow> duration
    \<Rightarrow> (string \<times> string) list \<Rightarrow> invoice" where
  "newInvoice svc t addr amountNano ttl md = zero_invoice\<lparr>PayTo := addr, AmountNano := amountNano,
     Currency := svc_currency svc, Status := StatusPending, Metadata := md, CreatedAt := t,
     ExpiresAt := t + ttl\<rparr>"

definition ServiceCreate ::
  "('s, 'w, 'e, 'v) Service \<Rightarrow> 'w create_env \<Rightarrow> string \<Rightarrow> int64 \<Rightarrow> duration \<Rightarrow> (string \<times> string) list
    \<Rightarrow> 's \<Rightarrow> invoice outcome \<times> 's" where
  "ServiceCreate svc env payTo amountNano ttl md s =
     (if amountNano \<le> 0 then (Failed NonPositiveAmount, s)
      else case resolvePayTo svc payTo of
          Inl e \<Rightarrow> (Failed e, s)
        | Inr addr \<Rightarrow>
           (case validateMetadata md of
              Some e \<Rightarrow> (Failed e, s)
            | None \<Rightarrow>
               (case checkCaps svc (counts_world env) s addr of
                  Some e \<Rightarrow> (Failed e, s)
                | None \<Rightarrow>
                    allocate svc env 5 0
                      (newInvoice svc (now env) addr amountNano (effectiveTTL svc ttl) md) s)))"

section \<open>Checking, settling, expiring\<close>

record ('w, 'e) check_env =
  get_world :: 'w
  outside :: 'e
  reread_world :: 'w
  change_world :: 'w
  final_world :: 'w
  settle_time :: gtime
  check_time :: gtime

type_synonym answer = "invoice \<times> service_error option"

definition current_or :: "('s, 'w, 'e, 'v) Service \<Rightarrow> 'w \<Rightarrow> 's \<Rightarrow> invoice \<Rightarrow> invoice" where
  "current_or svc w s i = (case GetInvoice (svc_st svc) w s (ID i) of Some cur \<Rightarrow> cur | None \<Rightarrow> i)"

definition settle ::
  "('s, 'w, 'e, 'v) Service \<Rightarrow> ('w, 'e) check_env \<Rightarrow> invoice \<Rightarrow> string \<Rightarrow> ('s, 'v) system
    \<Rightarrow> answer \<times> ('s, 'v) system" where
  "settle svc env i txHash sys =
     (case ClaimInvoiceForSettlement (svc_st svc) (change_world env) (db sys) (ID i) txHash (settle_time env) of
        ((_, Some e), s') \<Rightarrow> ((i, Some (StoreError e)), sys\<lparr>db := s'\<rparr>)
      | ((False, None), s') \<Rightarrow> ((current_or svc (final_world env) s' i, None), sys\<lparr>db := s'\<rparr>)
      | ((True, None), s') \<Rightarrow>
          (let i' = i\<lparr>Status := StatusPaid, TxHash := txHash, PaidAt := settle_time env\<rparr> in
           ((i', None), sys\<lparr>db := s', fired := (if svc_webhook svc then fired sys @ [i'] else fired sys)\<rparr>)))"

definition expire ::
  "('s, 'w, 'e, 'v) Service \<Rightarrow> ('w, 'e) check_env \<Rightarrow> invoice \<Rightarrow> ('s, 'v) system \<Rightarrow> answer \<times> ('s, 'v) system" where
  "expire svc env i sys =
     (case ExpireInvoice (svc_st svc) (change_world env) (db sys) (ID i) of
        ((_, Some e), s') \<Rightarrow> ((i, Some (StoreError e)), sys\<lparr>db := s'\<rparr>)
      | ((False, None), s') \<Rightarrow> ((current_or svc (final_world env) s' i, None), sys\<lparr>db := s'\<rparr>)
      | ((True, None), s') \<Rightarrow> ((i\<lparr>Status := StatusExpired\<rparr>, None), sys\<lparr>db := s'\<rparr>))"

definition CheckStatus ::
  "('s, 'w, 'e, 'v) Service \<Rightarrow> ('w, 'e) check_env \<Rightarrow> string \<Rightarrow> ('s, 'v) system \<Rightarrow> answer \<times> ('s, 'v) system" where
  "CheckStatus svc env iid sys =
     (case GetInvoice (svc_st svc) (get_world env) (db sys) iid of
        None \<Rightarrow> ((zero_invoice, Some NotFound), sys)
      | Some i \<Rightarrow>
          if Status i \<noteq> StatusPending then ((i, None), sys)
          else case svc_verifier svc (outside env) (verifier_state sys) i of
            (((paid, tx), err), v') \<Rightarrow>
              (let sys1 = sys\<lparr>verifier_state := v'\<rparr> in
               if err = None \<and> paid then
                 (case GetInvoice (svc_st svc) (reread_world env) (db sys1) iid of
                    None \<Rightarrow> ((zero_invoice, Some NotFound), sys1)
                  | Some i2 \<Rightarrow>
                      if Status i2 \<noteq> StatusPending then ((i2, None), sys1)
                      else settle svc env i2 tx sys1)
               else if \<not> IsZero (ExpiresAt i) \<and> check_time env > ExpiresAt i then expire svc env i sys1
               else ((i, None), sys1)))"

definition ServiceGet :: "('s, 'w, 'e, 'v) Service \<Rightarrow> 'w \<Rightarrow> 's \<Rightarrow> string \<Rightarrow> invoice option" where
  "ServiceGet svc w s iid = GetInvoice (svc_st svc) w s iid"

definition ServiceListPending :: "('s, 'w, 'e, 'v) Service \<Rightarrow> 'w \<Rightarrow> 's \<Rightarrow> invoice list" where
  "ServiceListPending svc w s = ListPending (svc_st svc) w s"


section \<open>The pieces of a creation\<close>

lemma validateMetadata_None:
  "validateMetadata md = None \<longleftrightarrow>
     length md \<le> 64 \<and> sum_list (map (\<lambda>(k, v). length k + length v) md) \<le> 8192"
proof -
  have "foldl (\<lambda>t (k, v). t + length k + length v) a md
      = a + sum_list (map (\<lambda>(k, v). length k + length v) md)" for a
    by (induction md arbitrary: a) auto
  then show ?thesis by (auto simp: validateMetadata_def Let_def go_defs)
qed

lemma resolvePayTo_Inr:
  assumes "resolvePayTo svc payTo = Inr addr"
  shows "addr \<noteq> [] \<and> (if payTo = [] then addr = svc_defaultPayTo svc
    else NormalizeOnNetwork payTo (svc_testnet svc) = Inr addr)"
  using assms by (auto simp: resolvePayTo_def split: if_splits sum.splits)

lemma String_nul_free: "nul_free (String a)"
  using spelling_chars [OF good_url, of _ a] graphic_not_nul
  by (auto simp: String_spelling nul_free_def)

lemma NormalizeOnNetwork_nul_free: "NormalizeOnNetwork s b = Inr t \<Longrightarrow> nul_free t"
  by (auto simp: NormalizeOnNetwork_def String_nul_free split: sum.splits if_splits)

lemma resolvePayTo_nul_free:
  "resolvePayTo svc payTo = Inr addr \<Longrightarrow> nul_free (svc_defaultPayTo svc) \<Longrightarrow> nul_free addr"
  using resolvePayTo_Inr NormalizeOnNetwork_nul_free by (metis)

lemma effectiveTTL_bounds:
  "effectiveTTL svc ttl \<le> svc_maxTTL svc
    \<and> (0 < svc_defaultTTL svc \<longrightarrow> 0 < svc_maxTTL svc \<longrightarrow> 0 < effectiveTTL svc ttl)
    \<and> (0 < ttl \<longrightarrow> ttl \<le> svc_maxTTL svc \<longrightarrow> effectiveTTL svc ttl = ttl)"
  by (auto simp: effectiveTTL_def Let_def)

text \<open>What drawn ids have to be: not in use.  The store itself cannot tell (see \<open>Memory\<close>).\<close>

definition fresh_draws :: "ledger \<Rightarrow> 'w create_env \<Rightarrow> bool" where
  "fresh_draws v env \<longleftrightarrow> (\<forall>n < 5. \<forall>k. NewID ''inv'' (id_draw env n) = Some k \<longrightarrow> v k = None)"

definition draws_of :: "'w create_env \<Rightarrow> nat \<Rightarrow> invoice \<Rightarrow> invoice \<Rightarrow> bool" where
  "draws_of env n i i' \<longleftrightarrow> (\<exists>k m. NewID ''inv'' (id_draw env n) = Some k \<and> NewMemo (memo_draw env n) = Some m
     \<and> i' = i\<lparr>ID := k, Memo := m\<rparr>)"

lemma newInvoice_simps:
  "PayTo (newInvoice svc t addr n ttl md) = addr" "Status (newInvoice svc t addr n ttl md) = StatusPending"
  by (simp_all add: newInvoice_def)

text \<open>The first attempt whose memo is free decides.\<close>

context invoice_store
begin

lemma allocate_law:
  assumes "inv s" and "svc_st svc = st" and "nul_free (PayTo i)" and "fresh_draws (view s) env"
    and "n + left \<le> 5" and "allocate svc env left n i s = (r, s')"
  shows "inv s' \<and> (case r of
      Returned i' \<Rightarrow> (\<exists>k < 5. draws_of env k i i') \<and> \<not> key_taken (view s) i'
        \<and> view s' = (view s)(ID i' \<mapsto> kept i')
    | Failed (StoreError e) \<Rightarrow> ledger_develops (view s) (view s')
    | _ \<Rightarrow> view s' = view s)"
  using assms(5,6,1,3,4)
proof (induction left arbitrary: n i s)
  case 0
  then show ?case by auto
next
  case (Suc left)
  show ?case
  proof (cases "NewID ''inv'' (id_draw env n)")
    case None
    then show ?thesis using Suc.prems by auto
  next
    case k: (Some k)
    show ?thesis
    proof (cases "NewMemo (memo_draw env n)")
      case None
      then show ?thesis using Suc.prems k by auto
    next
      case m: (Some m)
      let ?i = "i\<lparr>ID := k, Memo := m\<rparr>"
      obtain r1 s1 where c: "CreateInvoice st (create_world env n) s ?i = (r1, s1)" by (metis surj_pair)
      have n5: "n < 5" using Suc.prems(1) by simp
      have fresh: "view s (ID ?i) = None" using Suc.prems(5) k n5 by (simp add: fresh_draws_def)
      have nf: "nul_free (PayTo ?i)" using Suc.prems(4) by simp
      have d: "draws_of env n i ?i" using k m by (auto simp: draws_of_def)
      show ?thesis
        using Suc.prems(3) fresh nf c
      proof (cases rule: create_cases)
        case created
        then show ?thesis using Suc.prems(2) k m c assms(2) d n5 by auto
      next
        case clash
        then have "allocate svc env left (Suc n) ?i s1 = (r, s')"
          using Suc.prems(2) k m c assms(2) by simp
        moreover have "fresh_draws (view s1) env" "Suc n + left \<le> 5"
          using Suc.prems(1,5) clash(4) by simp_all
        moreover have same: "draws_of env j ?i = draws_of env j i" for j
          by (simp add: draws_of_def fun_eq_iff)
        ultimately show ?thesis
          using Suc.IH [of "Suc n" ?i s1] clash(2) nf unfolding clash(4) same by blast
      next
        case (failed e)
        then show ?thesis using Suc.prems(2) k m c assms(2) by auto
      qed
    qed
  qed
qed

lemma checkCaps_law:
  assumes "inv s" and "svc_st svc = st" and "sane w s" and "checkCaps svc w s addr = None"
  shows "(svc_maxPending svc > 0 \<longrightarrow> int (card (pending_ids (view s))) < svc_maxPending svc)
    \<and> (svc_maxPendingPerAddr svc > 0 \<longrightarrow> int (card (pending_ids_for (view s) addr)) < svc_maxPendingPerAddr svc)"
proof (cases "svc_maxPending svc > 0 \<or> svc_maxPendingPerAddr svc > 0")
  case True
  obtain n m e where c: "PendingCounts st w s addr = ((n, m), e)" by (metis surj_pair)
  then have e: "e = None" using True assms(2,4) by (cases e) (auto simp: checkCaps_def)
  have "n = card (pending_ids (view s))" "m = card (pending_ids_for (view s) addr)"
    using counts_law [OF assms(1,3)] c e by blast+
  then show ?thesis using True assms(2,4) c e by (auto simp: checkCaps_def split: if_splits)
qed simp

text \<open>How a creation can succeed, and what it leaves when it fails.\<close>

lemma ServiceCreate_law:
  assumes "inv s" and "svc_st svc = st" and "nul_free (svc_defaultPayTo svc)" and "fresh_draws (view s) env"
    and "ServiceCreate svc env payTo n ttl md s = (r, s')"
  shows "inv s' \<and> (case r of
      Returned i \<Rightarrow> 0 < n \<and> validateMetadata md = None
        \<and> (\<exists>addr k. resolvePayTo svc payTo = Inr addr \<and> checkCaps svc (counts_world env) s addr = None
            \<and> draws_of env k (newInvoice svc (now env) addr n (effectiveTTL svc ttl) md) i)
        \<and> \<not> key_taken (view s) i \<and> view s (ID i) = None \<and> view s' = (view s)(ID i \<mapsto> kept i)
    | Failed (StoreError e) \<Rightarrow> ledger_develops (view s) (view s')
    | _ \<Rightarrow> view s' = view s)"
proof -
  have early: "inv s \<and> (case Failed e of
      Returned i \<Rightarrow> P i | Failed (StoreError e) \<Rightarrow> ledger_develops (view s) (view s)
    | _ \<Rightarrow> view s = view s)" for e and P :: "invoice \<Rightarrow> bool"
    using assms(1) by (cases e) simp_all
  show ?thesis
  proof (cases "0 < n \<and> validateMetadata md = None \<and> (\<exists>addr. resolvePayTo svc payTo = Inr addr
      \<and> checkCaps svc (counts_world env) s addr = None)")
    case False
    then have "\<exists>e. (r, s') = (Failed e, s)"
      using assms(5) by (auto simp: ServiceCreate_def split: if_splits sum.splits option.splits)
    then show ?thesis using early by auto
  next
    case True
    then obtain addr where a: "resolvePayTo svc payTo = Inr addr"
      "checkCaps svc (counts_world env) s addr = None" by blast
    let ?i = "newInvoice svc (now env) addr n (effectiveTTL svc ttl) md"
    have al: "allocate svc env 5 0 ?i s = (r, s')" using assms(5) True a by (simp add: ServiceCreate_def)
    have nf: "nul_free (PayTo ?i)"
      using resolvePayTo_nul_free [OF a(1) assms(3)] by (simp add: newInvoice_simps)
    note law = allocate_law [OF assms(1,2) nf assms(4) _ al]
    show ?thesis
    proof (cases r)
      case (Returned i)
      then obtain k where k: "k < 5" "draws_of env k ?i i" using law by auto
      then have "view s (ID i) = None"
        using assms(4) by (auto simp: fresh_draws_def draws_of_def)
      then show ?thesis using law Returned True a k by auto
    qed (use law in auto)
  qed
qed

text \<open>The caps hold again after the new invoice is in.\<close>

lemma created_within_caps:
  assumes "inv s" and "svc_st svc = st" and "sane w s" and "checkCaps svc w s (PayTo i) = None"
    and "view s (ID i) = None" and "pending i"
  shows "(svc_maxPending svc > 0 \<longrightarrow>
        int (card (pending_ids ((view s)(ID i \<mapsto> kept i)))) \<le> svc_maxPending svc)
    \<and> (svc_maxPendingPerAddr svc > 0 \<longrightarrow>
        int (card (pending_ids_for ((view s)(ID i \<mapsto> kept i)) (PayTo i))) \<le> svc_maxPendingPerAddr svc)"
proof -
  have k: "pending (kept i)" "PayTo (kept i) = PayTo i" using kept_fields [of i] assms(6) by auto
  have p: "pending_ids ((view s)(ID i \<mapsto> kept i)) = insert (ID i) (pending_ids (view s))"
    "pending_ids_for ((view s)(ID i \<mapsto> kept i)) (PayTo i) = insert (ID i) (pending_ids_for (view s) (PayTo i))"
    using pending_ids_new [of "view s", OF assms(5) k(1)] pending_ids_for_new [of "view s", OF assms(5) k(1)] k(2)
    by simp_all
  have "card (insert (ID i) A) \<le> Suc (card A)" for A :: "string set" by (rule card_insert_le_m1) simp_all
  then show ?thesis using checkCaps_law [OF assms(1,2,3,4)] unfolding p by (smt (verit) of_nat_Suc of_nat_le_iff)
qed

end


section \<open>The pieces of a status check\<close>

context invoice_store
begin

lemma settle_law:
  assumes "inv (db sys)" and "svc_st svc = st" and "settle svc env i tx sys = (a, sys')"
  shows "inv (db sys') \<and> ledger_develops (view (db sys)) (view (db sys')) \<and> verifier_state sys' = verifier_state sys
    \<and> (fired sys' = fired sys \<or>
       (\<exists>j. view (db sys) (ID i) = Some j \<and> pending j
          \<and> view (db sys') = (view (db sys))(ID i \<mapsto> settled j tx (stamp (settle_time env)))
          \<and> fired sys' = fired sys @ [settled i tx (settle_time env)]))"
proof -
  obtain won e s' where c: "ClaimInvoiceForSettlement st (change_world env) (db sys) (ID i) tx (settle_time env)
      = ((won, e), s')" by (metis surj_pair)
  note basic = claim_inv [OF assms(1) c] claim_develops [OF assms(1) c]
  show ?thesis
  proof (cases "won \<and> e = None")
    case True
    with c have c': "ClaimInvoiceForSettlement st (change_world env) (db sys) (ID i) tx (settle_time env)
      = ((True, None), s')" by simp
    obtain j where j: "view (db sys) (ID i) = Some j" "pending j"
      "view s' = (view (db sys))(ID i \<mapsto> settled j tx (stamp (settle_time env)))"
      using claim_won [OF assms(1) c'] by blast
    have "db sys' = s'" "verifier_state sys' = verifier_state sys"
      "fired sys' = (if svc_webhook svc then fired sys @ [settled i tx (settle_time env)] else fired sys)"
      using assms(2,3) c' by (auto simp: settle_def settled_def Let_def)
    then show ?thesis using basic j by auto
  next
    case False
    then have "db sys' = s'" "verifier_state sys' = verifier_state sys" "fired sys' = fired sys"
      using assms(2,3) c by (auto simp: settle_def Let_def split: option.splits bool.splits)
    then show ?thesis using basic by simp
  qed
qed

lemma expire_sys_law:
  assumes "inv (db sys)" and "svc_st svc = st" and "expire svc env i sys = (a, sys')"
  shows "inv (db sys') \<and> ledger_develops (view (db sys)) (view (db sys')) \<and> fired sys' = fired sys"
proof -
  obtain won e s' where c: "ExpireInvoice st (change_world env) (db sys) (ID i) = ((won, e), s')"
    by (metis surj_pair)
  have "db sys' = s'" "fired sys' = fired sys"
    using assms(2,3) c by (auto simp: expire_def Let_def split: option.splits bool.splits)
  then show ?thesis using expire_inv [OF assms(1) c] expire_develops [OF assms(1) c] by simp
qed

text \<open>What any check does to the shared state.\<close>

lemma CheckStatus_law:
  assumes "inv (db sys)" and "svc_st svc = st" and "CheckStatus svc env iid sys = (a, sys')"
  shows "inv (db sys') \<and> ledger_develops (view (db sys)) (view (db sys'))
    \<and> (fired sys' = fired sys \<or>
       (\<exists>i tx. view (db sys) iid = Some i \<and> pending i \<and> ID i = iid
          \<and> view (db sys') = (view (db sys))(iid \<mapsto> settled i tx (stamp (settle_time env)))
          \<and> fired sys' = fired sys @ [settled i tx (settle_time env)]))"
proof (cases "GetInvoice st (get_world env) (db sys) iid")
  case None
  then show ?thesis using assms by (simp add: CheckStatus_def)
next
  case (Some i)
  show ?thesis
  proof (cases "pending i")
    case False
    then show ?thesis using assms Some by (simp add: CheckStatus_def)
  next
    case p: True
    obtain paid tx err v' where v: "svc_verifier svc (outside env) (verifier_state sys) i = (((paid, tx), err), v')"
      by (metis surj_pair)
    let ?sys1 = "sys\<lparr>verifier_state := v'\<rparr>"
    consider (stay) "sys' = ?sys1"
      | (settled) i2 where "GetInvoice st (reread_world env) (db sys) iid = Some i2" "pending i2"
          "settle svc env i2 tx ?sys1 = (a, sys')"
      | (expired) "expire svc env i ?sys1 = (a, sys')"
      using assms(2,3) Some p v by (auto simp: CheckStatus_def Let_def split: if_splits option.splits)
    then show ?thesis
    proof cases
      case stay
      then show ?thesis using assms(1) by simp
    next
      case (settled i2)
      have g: "view (db sys) iid = Some i2" "ID i2 = iid"
        using get_sound [OF assms(1) settled(1)] view_id [OF assms(1)] by auto
      have "inv (db ?sys1)" using assms(1) by simp
      note law = settle_law [OF this assms(2) settled(3)]
      show ?thesis using law g settled(2) by auto
    next
      case expired
      have "inv (db ?sys1)" using assms(1) by simp
      from expire_sys_law [OF this assms(2) expired] show ?thesis by simp
    qed
  qed
qed

text \<open>The verdict of a check in a healthy world, branch by branch.\<close>

lemma CheckStatus_paid:
  assumes "inv (db sys)" and "svc_st svc = st" and "view (db sys) iid = Some i" and "pending i"
    and "healthy (get_world env) (db sys)" and "healthy (reread_world env) (db sys)"
    and "healthy (change_world env) (db sys)" and "nul_free tx"
    and "svc_verifier svc (outside env) (verifier_state sys) i = (((True, tx), None), v')"
    and "CheckStatus svc env iid sys = (a, sys')"
  shows "a = (settled i tx (settle_time env), None)
    \<and> view (db sys') = (view (db sys))(iid \<mapsto> settled i tx (stamp (settle_time env)))
    \<and> fired sys' = fired sys @ (if svc_webhook svc then [settled i tx (settle_time env)] else [])"
proof -
  have get: "GetInvoice st (get_world env) (db sys) iid = Some i"
    "GetInvoice st (reread_world env) (db sys) iid = Some i"
    using get_complete [OF assms(1)] assms(3,5,6) by auto
  have iid: "ID i = iid" using view_id [OF assms(1,3)] .
  obtain won e s' where c: "ClaimInvoiceForSettlement st (change_world env) (db sys) iid tx (settle_time env)
      = ((won, e), s')" by (metis surj_pair)
  have p: "is_pending (view (db sys)) iid" using assms(3,4) by (auto simp: is_pending_def)
  have w: "won" "e = None" using healthy_claim_wins [OF assms(1,7) p assms(8) c] by auto
  obtain j where j: "view (db sys) iid = Some j" "view s' = (view (db sys))(iid \<mapsto> settled j tx (stamp (settle_time env)))"
    using claim_won [of "db sys"] assms(1) c w by metis
  have "CheckStatus svc env iid sys = settle svc env i tx (sys\<lparr>verifier_state := v'\<rparr>)"
    using assms(2,4,9) get by (simp add: CheckStatus_def)
  then show ?thesis
    using assms(2,3,10) c w iid j by (auto simp: settle_def settled_def Let_def)
qed

lemma CheckStatus_unpaid:
  assumes "inv (db sys)" and "svc_st svc = st" and "view (db sys) iid = Some i" and "pending i"
    and "healthy (get_world env) (db sys)" and "healthy (change_world env) (db sys)"
    and "svc_verifier svc (outside env) (verifier_state sys) i = (((paid, tx), err), v')"
    and "\<not> (paid \<and> err = None)" and "CheckStatus svc env iid sys = (a, sys')"
  shows "fired sys' = fired sys \<and>
    (if ExpiresAt i \<noteq> 0 \<and> ExpiresAt i < check_time env
     then a = (expired i, None) \<and> view (db sys') = (view (db sys))(iid \<mapsto> expired i)
     else a = (i, None) \<and> db sys' = db sys)"
proof -
  have get: "GetInvoice st (get_world env) (db sys) iid = Some i"
    using get_complete [OF assms(1,5)] assms(3) by simp
  have iid: "ID i = iid" using view_id [OF assms(1,3)] .
  let ?sys1 = "sys\<lparr>verifier_state := v'\<rparr>"
  have r: "CheckStatus svc env iid sys = (if \<not> IsZero (ExpiresAt i) \<and> check_time env > ExpiresAt i
      then expire svc env i ?sys1 else ((i, None), ?sys1))"
    using assms(2,4,7,8) get by (auto simp: CheckStatus_def Let_def)
  obtain won e s' where c: "ExpireInvoice st (change_world env) (db sys) iid = ((won, e), s')" by (metis surj_pair)
  have p: "is_pending (view (db sys)) iid" using assms(3,4) by (auto simp: is_pending_def)
  have w: "won" "e = None" using healthy_expire_wins [OF assms(1,6) p c] by auto
  obtain j where j: "view (db sys) iid = Some j" "view s' = (view (db sys))(iid \<mapsto> expired j)"
    using expire_won [of "db sys"] assms(1) c w by metis
  have "expire svc env i ?sys1 = ((expired i, None), ?sys1\<lparr>db := s'\<rparr>)"
    using assms(2) c w iid by (simp add: expire_def expired_def)
  then show ?thesis using r assms(3,9) j by (auto simp: IsZero_def split: if_splits)
qed

lemma CheckStatus_terminal:
  assumes "inv (db sys)" and "svc_st svc = st" and "view (db sys) iid = Some i" and "\<not> pending i"
    and "CheckStatus svc env iid sys = (a, sys')"
  shows "sys' = sys \<and> (a = (i, None) \<or> a = (zero_invoice, Some NotFound))"
  using assms get_sound [OF assms(1), of "get_world env" iid]
  by (cases "GetInvoice st (get_world env) (db sys) iid") (auto simp: CheckStatus_def)

end

end
