(* ===== verification/Settlement.thy ===== *)
theory Settlement
  imports Service
begin

text \<open>
  Concurrent status checks (\<open>CheckStatus\<close>, \<open>settle\<close>, \<open>expire\<close> and \<open>keyedLocks\<close> of
  internal/service/service.go).  Any number of goroutines in any number of processes run the
  handler at the same time on one store; between any two store operations everything else may
  happen, including creations and the death of a process.  A goroutine is a program counter with
  its local variables, the per-invoice locks are a table per process, and a step is one access
  to shared state.  What the verifier says, what the clock shows and how the store operations
  fare is left open.
\<close>

section \<open>Goroutines, locks and steps\<close>

text \<open>
  Between reading a pending invoice and returning, a handler is verifying it, waiting for the
  invoice's lock, holding it before and after the second read, notifying, releasing it, or about
  to expire the invoice.
\<close>

datatype pc =
    Idle
  | Verifying string invoice
  | WantLock string invoice string
  | InLock string string string
  | Claiming string invoice string
  | Notify string invoice
  | Unlocking string
  | Expiring invoice

record 's config =
  shared :: 's
  sent_hooks :: "invoice list"
  pc_of :: "nat \<Rightarrow> pc"
  held :: "nat \<times> string \<Rightarrow> nat option"

definition goto :: "nat \<Rightarrow> pc \<Rightarrow> 's config \<Rightarrow> 's config" where
  "goto g p c = c\<lparr>pc_of := (pc_of c)(g := p)\<rparr>"

lemma goto_simps [simp]:
  "shared (goto g p c) = shared c" "sent_hooks (goto g p c) = sent_hooks c"
  "pc_of (goto g p c) = (pc_of c)(g := p)" "held (goto g p c) = held c"
  by (simp_all add: goto_def)

text \<open>
  \<open>st\<close> is the store, \<open>vw\<close> its content (used only to say that new ids are fresh), \<open>proc\<close> maps
  goroutines to processes and \<open>hook\<close> says whether a webhook is configured.  The label is the
  goroutine that moves, a creation request, or the death of a process.
\<close>

datatype actor = Handler nat | Request | Crash

inductive move ::
  "('s, 'w) Store \<Rightarrow> ('s \<Rightarrow> ledger) \<Rightarrow> (nat \<Rightarrow> nat) \<Rightarrow> bool \<Rightarrow> actor \<Rightarrow> 's config \<Rightarrow> 's config \<Rightarrow> bool"
  for st :: "('s, 'w) Store" and vw :: "'s \<Rightarrow> ledger" and proc :: "nat \<Rightarrow> nat" and hook :: bool where
  read: "pc_of c g = Idle \<Longrightarrow> GetInvoice st w (shared c) iid = Some i \<Longrightarrow> pending i \<Longrightarrow>
    move st vw proc hook (Handler g) c (goto g (Verifying iid i) c)"
| confirmed: "pc_of c g = Verifying iid i \<Longrightarrow>
    move st vw proc hook (Handler g) c (goto g (WantLock iid i tx) c)"
| unconfirmed: "pc_of c g = Verifying iid i \<Longrightarrow> move st vw proc hook (Handler g) c (goto g Idle c)"
| overdue: "pc_of c g = Verifying iid i \<Longrightarrow> \<not> IsZero (ExpiresAt i) \<Longrightarrow> ExpiresAt i < t \<Longrightarrow>
    move st vw proc hook (Handler g) c (goto g (Expiring i) c)"
| expire: "pc_of c g = Expiring i \<Longrightarrow> ExpireInvoice st w (shared c) (ID i) = (r, s') \<Longrightarrow>
    move st vw proc hook (Handler g) c (goto g Idle (c\<lparr>shared := s'\<rparr>))"
| lock: "pc_of c g = WantLock iid i tx \<Longrightarrow> held c (proc g, ID i) = None \<Longrightarrow>
    move st vw proc hook (Handler g) c
      (goto g (InLock iid (ID i) tx) (c\<lparr>held := (held c)((proc g, ID i) \<mapsto> g)\<rparr>))"
| gone: "pc_of c g = InLock iid key tx \<Longrightarrow>
    (case GetInvoice st w (shared c) iid of None \<Rightarrow> True | Some i \<Rightarrow> \<not> pending i) \<Longrightarrow>
    move st vw proc hook (Handler g) c (goto g (Unlocking key) c)"
| reread: "pc_of c g = InLock iid key tx \<Longrightarrow> GetInvoice st w (shared c) iid = Some i \<Longrightarrow> pending i \<Longrightarrow>
    move st vw proc hook (Handler g) c (goto g (Claiming key i tx) c)"
| won: "pc_of c g = Claiming key i tx \<Longrightarrow>
    ClaimInvoiceForSettlement st w (shared c) (ID i) tx t = ((True, None), s') \<Longrightarrow>
    move st vw proc hook (Handler g) c (goto g (Notify key (settled i tx t)) (c\<lparr>shared := s'\<rparr>))"
| lost: "pc_of c g = Claiming key i tx \<Longrightarrow>
    ClaimInvoiceForSettlement st w (shared c) (ID i) tx t = ((b, e), s') \<Longrightarrow> \<not> (b \<and> e = None) \<Longrightarrow>
    move st vw proc hook (Handler g) c (goto g (Unlocking key) (c\<lparr>shared := s'\<rparr>))"
| notify: "pc_of c g = Notify key i \<Longrightarrow>
    move st vw proc hook (Handler g) c
      (goto g (Unlocking key) (c\<lparr>sent_hooks := (if hook then sent_hooks c @ [i] else sent_hooks c)\<rparr>))"
| unlock: "pc_of c g = Unlocking key \<Longrightarrow>
    move st vw proc hook (Handler g) c (goto g Idle (c\<lparr>held := (held c)((proc g, key) := None)\<rparr>))"
| create: "vw (shared c) (ID i) = None \<Longrightarrow> nul_free (PayTo i) \<Longrightarrow> pending i \<Longrightarrow>
    CreateInvoice st w (shared c) i = (r, s') \<Longrightarrow> move st vw proc hook Request c (c\<lparr>shared := s'\<rparr>)"
| crash: "move st vw proc hook Crash c
    (c\<lparr>pc_of := (\<lambda>g. if proc g = p then Idle else pc_of c g),
       held := (\<lambda>(q, k). if q = p then None else held c (q, k))\<rparr>)"

definition step :: "('s, 'w) Store \<Rightarrow> ('s \<Rightarrow> ledger) \<Rightarrow> (nat \<Rightarrow> nat) \<Rightarrow> bool \<Rightarrow> 's config \<Rightarrow> 's config \<Rightarrow> bool" where
  "step st vw proc hook c c' \<longleftrightarrow> (\<exists>l. move st vw proc hook l c c')"

text \<open>One goroutine moving alone.\<close>

definition runs_to :: "('s, 'w) Store \<Rightarrow> ('s \<Rightarrow> ledger) \<Rightarrow> (nat \<Rightarrow> nat) \<Rightarrow> bool \<Rightarrow> nat \<Rightarrow> 's config \<Rightarrow> 's config \<Rightarrow> bool" where
  "runs_to st vw proc hook g = (move st vw proc hook (Handler g))\<^sup>*\<^sup>*"

definition start :: "'s \<Rightarrow> 's config" where
  "start s = \<lparr>shared = s, sent_hooks = [], pc_of = (\<lambda>_. Idle), held = (\<lambda>_. None)\<rparr>"

section \<open>Invariants\<close>

text \<open>The invoice a goroutine has read, and the lock it holds.\<close>

fun carried :: "pc \<Rightarrow> invoice option" where
  "carried (Verifying k i) = Some i"
| "carried (WantLock k i tx) = Some i"
| "carried (Claiming k i tx) = Some i"
| "carried (Expiring i) = Some i"
| "carried _ = None"

fun notifying :: "pc \<Rightarrow> invoice option" where
  "notifying (Notify k i) = Some i"
| "notifying _ = None"

fun section_key :: "pc \<Rightarrow> string option" where
  "section_key (InLock k key tx) = Some key"
| "section_key (Claiming key i tx) = Some key"
| "section_key (Notify key i) = Some key"
| "section_key (Unlocking key) = Some key"
| "section_key _ = None"

text \<open>A notification tells what the ledger says, up to the precision of the time.\<close>

definition announced :: "(gtime \<Rightarrow> gtime) \<Rightarrow> ledger \<Rightarrow> invoice \<Rightarrow> bool" where
  "announced stamp v f \<longleftrightarrow> (\<exists>i tx t. f = settled i tx t \<and> v (ID i) = Some (settled i tx (stamp t)))"

definition known :: "ledger \<Rightarrow> invoice \<Rightarrow> bool" where
  "known v i \<longleftrightarrow> (\<exists>j. v (ID i) = Some j \<and> develops i j)"

definition lock_inv :: "(nat \<Rightarrow> nat) \<Rightarrow> 's config \<Rightarrow> bool" where
  "lock_inv proc c \<longleftrightarrow> (\<forall>g key. section_key (pc_of c g) = Some key \<longleftrightarrow> held c (proc g, key) = Some g)
     \<and> (\<forall>p key h. held c (p, key) = Some h \<longrightarrow> proc h = p)"

definition hook_inv :: "(gtime \<Rightarrow> gtime) \<Rightarrow> ('s \<Rightarrow> ledger) \<Rightarrow> 's config \<Rightarrow> bool" where
  "hook_inv stamp vw c \<longleftrightarrow>
     (\<forall>f \<in> set (sent_hooks c). announced stamp (vw (shared c)) f)
     \<and> distinct (map ID (sent_hooks c))
     \<and> (\<forall>g i. carried (pc_of c g) = Some i \<longrightarrow> known (vw (shared c)) i)
     \<and> (\<forall>g i. notifying (pc_of c g) = Some i \<longrightarrow> announced stamp (vw (shared c)) i)
     \<and> (\<forall>g i f. notifying (pc_of c g) = Some i \<longrightarrow> f \<in> set (sent_hooks c) \<longrightarrow> ID f \<noteq> ID i)
     \<and> (\<forall>g h i j. notifying (pc_of c g) = Some i \<longrightarrow> notifying (pc_of c h) = Some j \<longrightarrow> ID i = ID j \<longrightarrow> g = h)"

lemma announced_mono: "ledger_develops v v' \<Longrightarrow> announced stamp v f \<Longrightarrow> announced stamp v' f"
  using ledger_develops_terminal unfolding announced_def by fastforce

lemma known_mono: "ledger_develops v v' \<Longrightarrow> known v i \<Longrightarrow> known v' i"
  unfolding known_def ledger_develops_def by (meson develops_trans)

lemma announced_not_pending: "announced stamp v f \<Longrightarrow> \<not> is_pending v (ID f)"
  by (auto simp: announced_def is_pending_def)

lemma hook_invD:
  assumes "hook_inv stamp vw c"
  shows "f \<in> set (sent_hooks c) \<Longrightarrow> announced stamp (vw (shared c)) f"
    and "distinct (map ID (sent_hooks c))"
    and "carried (pc_of c g) = Some i \<Longrightarrow> known (vw (shared c)) i"
    and "notifying (pc_of c g) = Some i \<Longrightarrow> announced stamp (vw (shared c)) i"
    and "notifying (pc_of c g) = Some i \<Longrightarrow> f \<in> set (sent_hooks c) \<Longrightarrow> ID f \<noteq> ID i"
    and "notifying (pc_of c g) = Some i \<Longrightarrow> notifying (pc_of c h) = Some j \<Longrightarrow> ID i = ID j \<Longrightarrow> g = h"
  using assms unfolding hook_inv_def by blast+

lemma hook_invI:
  assumes "\<And>f. f \<in> set (sent_hooks c) \<Longrightarrow> announced stamp (vw (shared c)) f"
    and "distinct (map ID (sent_hooks c))"
    and "\<And>g i. carried (pc_of c g) = Some i \<Longrightarrow> known (vw (shared c)) i"
    and "\<And>g i. notifying (pc_of c g) = Some i \<Longrightarrow> announced stamp (vw (shared c)) i"
    and "\<And>g i f. notifying (pc_of c g) = Some i \<Longrightarrow> f \<in> set (sent_hooks c) \<Longrightarrow> ID f \<noteq> ID i"
    and "\<And>g h i j. notifying (pc_of c g) = Some i \<Longrightarrow> notifying (pc_of c h) = Some j \<Longrightarrow> ID i = ID j \<Longrightarrow> g = h"
  shows "hook_inv stamp vw c"
  unfolding hook_inv_def using assms by blast

text \<open>A step that leaves the goroutines' notifications alone and lets the ledger develop.\<close>

lemma hook_inv_step:
  assumes "hook_inv stamp vw c" and "ledger_develops (vw (shared c)) (vw (shared c'))"
    and "sent_hooks c' = sent_hooks c"
    and "\<And>g i. notifying (pc_of c' g) = Some i \<Longrightarrow> notifying (pc_of c g) = Some i"
    and "\<And>g i. carried (pc_of c' g) = Some i \<Longrightarrow> carried (pc_of c g) = Some i \<or> known (vw (shared c')) i"
  shows "hook_inv stamp vw c'"
proof -
  note mono = announced_mono [OF assms(2)] known_mono [OF assms(2)]
  note d = hook_invD [OF assms(1)]
  show ?thesis
  proof (rule hook_invI)
    show "known (vw (shared c')) k" if "carried (pc_of c' g) = Some k" for g k
      using assms(5) [OF that] d(3) mono(2) by blast
    show "g = h" if "notifying (pc_of c' g) = Some k" "notifying (pc_of c' h) = Some l" "ID k = ID l" for g h k l
      using d(6) assms(4) that by blast
    show "announced stamp (vw (shared c')) k" if "notifying (pc_of c' g) = Some k" for g k
      using assms(4) [OF that] d(4) mono(1) by blast
    show "ID f \<noteq> ID k" if "notifying (pc_of c' g) = Some k" "f \<in> set (sent_hooks c')" for g k f
      using assms(3,4) that d(5) by metis
  qed (use d(1,2) mono(1) assms(3) in simp_all)
qed

lemma lock_invD:
  assumes "lock_inv proc c"
  shows "section_key (pc_of c g) = Some key \<longleftrightarrow> held c (proc g, key) = Some g"
    and "held c (p, key) = Some h \<Longrightarrow> proc h = p"
  using assms unfolding lock_inv_def by blast+

lemma lock_inv_frame:
  assumes "lock_inv proc c" and "held c' = held c"
    and "\<And>g. section_key (pc_of c' g) = section_key (pc_of c g)"
  shows "lock_inv proc c'"
  using assms by (simp add: lock_inv_def)

lemma lock_inv_move:
  assumes "lock_inv proc c" and "move st vw proc hook l c c'"
  shows "lock_inv proc c'"
proof -
  have inv: "section_key (pc_of c g) = Some key \<longleftrightarrow> held c (proc g, key) = Some g"
    and own: "held c (p, key) = Some h \<Longrightarrow> proc h = p" for g key p h
    using assms(1) by (simp_all add: lock_inv_def)
  show ?thesis
    using assms(2)
  proof cases
    case (lock g iid i tx)
    have "section_key (pc_of c' h) = Some key \<longleftrightarrow> held c' (proc h, key) = Some h" for h key
      using lock inv [of h key] by (cases "h = g") auto
    moreover have "proc h = p" if "held c' (p, key) = Some h" for p key h
      using lock own [of p key h] that by (auto split: if_splits)
    ultimately show ?thesis by (simp add: lock_inv_def)
  next
    case (unlock g key)
    have "section_key (pc_of c' h) = Some k \<longleftrightarrow> held c' (proc h, k) = Some h" for h k
      using unlock inv [of h k] inv [of g k] inv [of g key] by (cases "h = g"; cases "k = key") auto
    moreover have "proc h = p" if "held c' (p, k) = Some h" for p k h
      using unlock own [of p k h] that by (auto split: if_splits)
    ultimately show ?thesis by (simp add: lock_inv_def)
  next
    case (crash p)
    then show ?thesis using inv own by (auto simp: lock_inv_def split: if_splits)
  qed (rule lock_inv_frame [OF assms(1)]; simp)+
qed

section \<open>Preservation\<close>

context invoice_store
begin

lemma known_read: "inv s \<Longrightarrow> GetInvoice st w s k = Some i \<Longrightarrow> known (view s) i \<and> ID i = k"
  using get_sound [of s w k i] view_id [of s k i] by (simp add: known_def)

lemma claim_announces:
  assumes "inv s" and "known (view s) i" and "ClaimInvoiceForSettlement st w s (ID i) tx t = ((True, None), s')"
  shows "is_pending (view s) (ID i) \<and> announced stamp (view s') (settled i tx t)"
proof -
  obtain j where j: "view s (ID i) = Some j" "pending j" "view s' = (view s)(ID i \<mapsto> settled j tx (stamp t))"
    using claim_won [OF assms(1,3)] by blast
  then have "j = i" using assms(2) by (auto simp: known_def develops_def)
  then show ?thesis using j by (auto simp: announced_def is_pending_def)
qed

lemma move_inv:
  assumes "inv (shared c)" and "move st view proc hook l c c'"
  shows "inv (shared c') \<and> ledger_develops (view (shared c)) (view (shared c'))"
  using assms(2)
proof cases
  case (expire g i w r s')
  then show ?thesis using expire_inv [OF assms(1)] expire_develops [OF assms(1)] by auto
next
  case (won g key i tx w t s')
  then show ?thesis using claim_inv [OF assms(1)] claim_develops [OF assms(1)] by auto
next
  case (lost g key i tx w t b e s')
  then show ?thesis using claim_inv [OF assms(1)] claim_develops [OF assms(1)] by auto
next
  case (create i w r s')
  then show ?thesis
    using create_law [OF assms(1)] create_develops [OF assms(1)] by auto
qed (use assms(1) in simp_all)

lemma hook_inv_won:
  assumes "inv (shared c)" and "hook_inv stamp view c" and "pc_of c g = Claiming key i tx"
    and cl: "ClaimInvoiceForSettlement st w (shared c) (ID i) tx t = ((True, None), s')"
  shows "hook_inv stamp view (goto g (Notify key (settled i tx t)) (c\<lparr>shared := s'\<rparr>))"
proof -
  let ?v = "view (shared c)"
  let ?c = "goto g (Notify key (settled i tx t)) (c\<lparr>shared := s'\<rparr>)"
  note d = hook_invD [OF assms(2)]
  have "known ?v i" using d(3) [of g i] assms(3) by simp
  from claim_announces [OF assms(1) this cl]
  have p: "is_pending ?v (ID i)" and a: "announced stamp (view s') (settled i tx t)" by auto
  note dev = claim_develops [OF assms(1) cl]
  note mono = announced_mono [OF dev] known_mono [OF dev]
  have new: "ID i \<noteq> ID f" if "announced stamp ?v f" for f
    using announced_not_pending [OF that] p by auto
  have others: "notifying (pc_of c h) = Some k \<and> ID k \<noteq> ID i"
    if "notifying (pc_of ?c h) = Some k" "h \<noteq> g" for h k
    using that d(4) [of h k] new [of k] by auto
  have own: "ID k = ID i" if "notifying (pc_of ?c g) = Some k" for k
    using that by auto
  show ?thesis
  proof (rule hook_invI)
    show "announced stamp (view (shared ?c)) f" if "f \<in> set (sent_hooks ?c)" for f
      using that d(1) mono(1) by simp
    show "distinct (map ID (sent_hooks ?c))" using d(2) by simp
    show "known (view (shared ?c)) k" if "carried (pc_of ?c h) = Some k" for h k
      using d(3) mono(2) that by (auto split: if_splits)
    show "announced stamp (view (shared ?c)) k" if "notifying (pc_of ?c h) = Some k" for h k
      using that a d(4) mono(1) by (auto split: if_splits)
    show "ID f \<noteq> ID k" if "notifying (pc_of ?c h) = Some k" "f \<in> set (sent_hooks ?c)" for h k f
    proof (cases "h = g")
      case True
      then have "ID k = ID i" using own that(1) by blast
      moreover have "ID i \<noteq> ID f" using new d(1) that(2) by simp
      ultimately show ?thesis by metis
    next
      case False
      then show ?thesis using that d(5) by simp
    qed
    show "h = h'" if "notifying (pc_of ?c h) = Some k" "notifying (pc_of ?c h') = Some k'" "ID k = ID k'" for h h' k k'
      using that d(6) others own by metis
  qed
qed

lemma hook_inv_notify:
  assumes "hook_inv stamp view c" and "pc_of c g = Notify key i"
  shows "hook_inv stamp view
    (goto g (Unlocking key) (c\<lparr>sent_hooks := (if hook then sent_hooks c @ [i] else sent_hooks c)\<rparr>))"
proof (rule hook_invI)
  note d = hook_invD [OF assms(1)]
  have n: "notifying (pc_of c g) = Some i" using assms(2) by simp
  let ?c = "goto g (Unlocking key) (c\<lparr>sent_hooks := (if hook then sent_hooks c @ [i] else sent_hooks c)\<rparr>)"
  show "announced stamp (view (shared ?c)) f" if "f \<in> set (sent_hooks ?c)" for f
    using that d(1) d(4) [OF n] by (auto split: if_splits)
  have "ID i \<notin> set (map ID (sent_hooks c))" using d(5) [OF n] by (metis image_set imageE)
  then show "distinct (map ID (sent_hooks ?c))" using d(2) by simp
  show "known (view (shared ?c)) k" if "carried (pc_of ?c h) = Some k" for h k
    using that d(3) by (auto split: if_splits)
  have other: "notifying (pc_of c h) = Some k \<and> h \<noteq> g" if "notifying (pc_of ?c h) = Some k" for h k
    using that by (auto split: if_splits)
  show "announced stamp (view (shared ?c)) k" if "notifying (pc_of ?c h) = Some k" for h k
    using other [OF that] d(4) [of h k] by simp
  show "ID f \<noteq> ID k" if "notifying (pc_of ?c h) = Some k" "f \<in> set (sent_hooks ?c)" for h k f
    using other [OF that(1)] that(2) d(5) d(6) [OF n] by (auto split: if_splits)
  show "h = h'" if "notifying (pc_of ?c h) = Some k" "notifying (pc_of ?c h') = Some k'" "ID k = ID k'" for h h' k k'
    using other that d(6) by blast
qed

lemma hook_inv_move:
  assumes "inv (shared c)" and "hook_inv stamp view c" and "move st view proc hook l c c'"
  shows "hook_inv stamp view c'"
proof -
  have dev: "ledger_develops (view (shared c)) (view (shared c'))" using move_inv [OF assms(1,3)] by blast
  note frame = hook_inv_step [OF assms(2) dev]
  show ?thesis
    using assms(3)
  proof cases
    case (read g w iid i)
    then have "known (view (shared c)) i" using known_read [OF assms(1)] by blast
    then show ?thesis by (intro frame) (use read in \<open>auto split: if_splits\<close>)
  next
    case (reread g iid key tx w i)
    then have "known (view (shared c)) i" using known_read [OF assms(1)] by blast
    then show ?thesis by (intro frame) (use reread in \<open>auto split: if_splits\<close>)
  next
    case (won g key i tx w t s')
    then show ?thesis using hook_inv_won [OF assms(1,2)] by simp
  next
    case (notify g key i)
    then show ?thesis using hook_inv_notify [OF assms(2)] by simp
  qed (rule frame; force split: if_splits)+
qed

lemma steps_invariant:
  assumes "(step st view proc hook)\<^sup>*\<^sup>* (start s) c" and "inv s"
  shows "inv (shared c) \<and> hook_inv stamp view c \<and> lock_inv proc c \<and> ledger_develops (view s) (view (shared c))"
  using assms(1)
proof (induction rule: rtranclp_induct)
  case base
  then show ?case using assms(2) by (auto simp: start_def hook_inv_def lock_inv_def)
next
  case (step c c')
  then show ?case
    using move_inv hook_inv_move lock_inv_move unfolding step_def by (meson ledger_develops_trans)
qed

text \<open>A handler that runs on its own takes exactly the steps of \<open>CheckStatus\<close>.\<close>

lemma runs_step: "move st view proc hook (Handler g) c c1 \<Longrightarrow> runs_to st view proc hook g c1 c2 \<Longrightarrow> runs_to st view proc hook g c c2"
  unfolding runs_to_def by (rule converse_rtranclp_into_rtranclp)

lemma runs_refl: "runs_to st view proc hook g c c"
  by (simp add: runs_to_def)

definition released :: "(nat \<Rightarrow> nat) \<Rightarrow> nat \<Rightarrow> string \<Rightarrow> 's config \<Rightarrow> 's config" where
  "released proc g key c = goto g Idle (c\<lparr>held := (held c)((proc g, key) := None)\<rparr>)"

lemma released_simps:
  "shared (released proc g key c) = shared c" "sent_hooks (released proc g key c) = sent_hooks c"
  "pc_of (released proc g key c) = (pc_of c)(g := Idle)"
  "held (released proc g key c) = (held c)((proc g, key) := None)"
  by (simp_all add: released_def)

lemma run_unlock: "pc_of c g = Unlocking key \<Longrightarrow> runs_to st view proc hook g c (released proc g key c)"
  unfolding released_def by (rule runs_step [OF move.unlock runs_refl])

lemma run_settle:
  assumes "pc_of c g = Claiming key i tx"
    and "svc_st svc = st" and "svc_webhook svc = hook" and "shared c = db sys" and "sent_hooks c = fired sys"
    and "settle svc env i tx sys = (a, sys')"
  shows "\<exists>c'. runs_to st view proc hook g c c' \<and> shared c' = db sys' \<and> sent_hooks c' = fired sys'
    \<and> pc_of c' = (pc_of c)(g := Idle) \<and> held c' = (held c)((proc g, key) := None)"
proof -
  obtain won e s' where cl: "ClaimInvoiceForSettlement st (change_world env) (shared c) (ID i) tx (settle_time env)
      = ((won, e), s')" by (metis surj_pair)
  show ?thesis
  proof (cases "won \<and> e = None")
    case True
    then have cl': "ClaimInvoiceForSettlement st (change_world env) (shared c) (ID i) tx (settle_time env)
      = ((True, None), s')" using cl by simp
    let ?f = "settled i tx (settle_time env)"
    define c1 where "c1 = goto g (Notify key ?f) (c\<lparr>shared := s'\<rparr>)"
    define c2 where "c2 = goto g (Unlocking key)
      (c1\<lparr>sent_hooks := (if hook then sent_hooks c1 @ [?f] else sent_hooks c1)\<rparr>)"
    have m1: "move st view proc hook (Handler g) c c1" unfolding c1_def by (rule move.won [OF assms(1) cl'])
    have m2: "move st view proc hook (Handler g) c1 c2" unfolding c2_def by (rule move.notify) (simp add: c1_def)
    have "runs_to st view proc hook g c2 (released proc g key c2)" by (rule run_unlock) (simp add: c2_def)
    then have "runs_to st view proc hook g c (released proc g key c2)" by (rule runs_step [OF m1 runs_step [OF m2]])
    moreover have "db sys' = s'" "fired sys' = (if hook then sent_hooks c @ [?f] else sent_hooks c)"
      using assms(2-6) cl' by (auto simp: settle_def settled_def Let_def)
    ultimately show ?thesis
      by (intro exI [of _ "released proc g key c2"]) (simp add: released_simps c1_def c2_def)
  next
    case False
    define c1 where "c1 = goto g (Unlocking key) (c\<lparr>shared := s'\<rparr>)"
    have m1: "move st view proc hook (Handler g) c c1"
      unfolding c1_def by (rule move.lost [OF assms(1) cl]) (use False in simp)
    have "runs_to st view proc hook g c1 (released proc g key c1)" by (rule run_unlock) (simp add: c1_def)
    then have "runs_to st view proc hook g c (released proc g key c1)" by (rule runs_step [OF m1])
    moreover have "db sys' = s'" "fired sys' = sent_hooks c"
      using assms(2-6) cl False by (auto simp: settle_def Let_def split: option.splits bool.splits)
    ultimately show ?thesis
      by (intro exI [of _ "released proc g key c1"]) (simp add: released_simps c1_def)
  qed
qed

lemma run_locked:
  assumes "pc_of c g = WantLock iid i tx" and "held c (proc g, ID i) = None"
    and "svc_st svc = st" and "svc_webhook svc = hook" and "shared c = db sys" and "sent_hooks c = fired sys"
    and "(case GetInvoice st w (db sys) iid of
        None \<Rightarrow> sys' = sys
      | Some i2 \<Rightarrow> if \<not> pending i2 then sys' = sys else settle svc env i2 tx sys = (a, sys'))"
  shows "\<exists>c'. runs_to st view proc hook g c c' \<and> shared c' = db sys' \<and> sent_hooks c' = fired sys'
    \<and> pc_of c' = (pc_of c)(g := Idle) \<and> held c' = held c"
proof -
  have h: "(held c)((proc g, ID i) := None) = held c" using assms(2) by auto
  define c1 where "c1 = goto g (InLock iid (ID i) tx) (c\<lparr>held := (held c)((proc g, ID i) \<mapsto> g)\<rparr>)"
  have m1: "move st view proc hook (Handler g) c c1" unfolding c1_def by (rule move.lock) (fact assms(1), fact assms(2))
  have p1: "pc_of c1 g = InLock iid (ID i) tx" "shared c1 = db sys" by (simp_all add: c1_def assms(5))
  show ?thesis
  proof (cases "case GetInvoice st w (db sys) iid of None \<Rightarrow> True | Some i2 \<Rightarrow> \<not> pending i2")
    case True
    define c2 where "c2 = goto g (Unlocking (ID i)) c1"
    have m2: "move st view proc hook (Handler g) c1 c2"
      unfolding c2_def by (rule move.gone [OF p1(1), where w = w]) (use True p1(2) in simp)
    have "runs_to st view proc hook g c2 (released proc g (ID i) c2)" by (rule run_unlock) (simp add: c2_def)
    then have "runs_to st view proc hook g c (released proc g (ID i) c2)" by (rule runs_step [OF m1 runs_step [OF m2]])
    moreover have "sys' = sys" using assms(7) True by (auto split: option.splits)
    ultimately show ?thesis
      by (intro exI [of _ "released proc g (ID i) c2"]) (simp add: released_simps c1_def c2_def assms(5,6) h)
  next
    case False
    then obtain i2 where i2: "GetInvoice st w (db sys) iid = Some i2" "pending i2"
      by (auto split: option.splits)
    define c2 where "c2 = goto g (Claiming (ID i) i2 tx) c1"
    have m2: "move st view proc hook (Handler g) c1 c2"
      unfolding c2_def by (rule move.reread [OF p1(1) _ i2(2), where w = w]) (use i2 p1(2) in simp)
    have s: "settle svc env i2 tx sys = (a, sys')" using assms(7) i2 by simp
    have "pc_of c2 g = Claiming (ID i) i2 tx" "shared c2 = db sys" "sent_hooks c2 = fired sys"
      by (simp_all add: c2_def p1(2)) (simp add: c1_def assms(6))
    from run_settle [OF this(1) assms(3,4) this(2,3) s, of proc] obtain c' where
      "runs_to st view proc hook g c2 c'" "shared c' = db sys'" "sent_hooks c' = fired sys'"
      "pc_of c' = (pc_of c2)(g := Idle)" "held c' = (held c2)((proc g, ID i) := None)" by blast
    moreover have "(pc_of c2)(g := Idle) = (pc_of c)(g := Idle)"
      "(held c2)((proc g, ID i) := None) = held c"
      using h by (simp_all add: c1_def c2_def)
    ultimately show ?thesis using runs_step [OF m1 runs_step [OF m2]] by metis
  qed
qed

lemma run_overdue:
  assumes "pc_of c g = Verifying iid i" and "\<not> IsZero (ExpiresAt i)" and "ExpiresAt i < check_time env"
    and "svc_st svc = st" and "shared c = db sys" and "sent_hooks c = fired sys"
    and "expire svc env i sys = (a, sys')"
  shows "\<exists>c'. runs_to st view proc hook g c c' \<and> shared c' = db sys' \<and> sent_hooks c' = fired sys'
    \<and> pc_of c' = (pc_of c)(g := Idle) \<and> held c' = held c"
proof -
  obtain r s' where x: "ExpireInvoice st (change_world env) (db sys) (ID i) = (r, s')" by (metis surj_pair)
  define c2 where "c2 = goto g (Expiring i) c"
  define c3 where "c3 = goto g Idle (c2\<lparr>shared := s'\<rparr>)"
  have m2: "move st view proc hook (Handler g) c c2"
    unfolding c2_def by (rule move.overdue [OF assms(1-3)])
  have m3: "move st view proc hook (Handler g) c2 c3"
    unfolding c3_def
    by (rule move.expire [where i = i and w = "change_world env" and r = r]) (use x assms(5) in \<open>simp_all add: c2_def\<close>)
  have "db sys' = s'" "fired sys' = fired sys"
    using assms(4,7) x by (auto simp: expire_def split: option.splits bool.splits prod.splits)
  moreover have "pc_of c3 = (pc_of c)(g := Idle)" "held c3 = held c" "shared c3 = s'" "sent_hooks c3 = fired sys"
    by (simp_all add: c2_def c3_def assms(6))
  ultimately show ?thesis using runs_step [OF m2 runs_step [OF m3 runs_refl]] by metis
qed

lemma CheckStatus_is_a_run:
  assumes "svc_st svc = st" and "svc_webhook svc = hook" and "shared c = db sys" and "sent_hooks c = fired sys"
    and "pc_of c g = Idle" and "\<And>key. held c (proc g, key) = None"
    and "CheckStatus svc env iid sys = (a, sys')"
  shows "\<exists>c'. runs_to st view proc hook g c c' \<and> shared c' = db sys' \<and> sent_hooks c' = fired sys'
    \<and> pc_of c' = pc_of c \<and> held c' = held c"
proof -
  have idle: "(pc_of c)(g := Idle) = pc_of c" using assms(5) by auto
  have stay: ?thesis if "db sys' = db sys" "fired sys' = fired sys"
    using that assms(3,4) runs_refl by metis
  show ?thesis
  proof (cases "GetInvoice st (get_world env) (db sys) iid")
    case None
    then show ?thesis using assms(1,7) stay by (simp add: CheckStatus_def)
  next
    case (Some i)
    obtain paid tx err v' where v: "svc_verifier svc (outside env) (verifier_state sys) i = (((paid, tx), err), v')"
      by (metis surj_pair)
    let ?sys1 = "sys\<lparr>verifier_state := v'\<rparr>"
    define c1 where "c1 = goto g (Verifying iid i) c"
    have sh: "shared c1 = db ?sys1" "sent_hooks c1 = fired ?sys1" "pc_of c1 g = Verifying iid i" "held c1 = held c"
      "(pc_of c1)(g := Idle) = pc_of c"
      using assms(3,4) idle by (simp_all add: c1_def)
    consider (terminal) "\<not> pending i" | (paid) "pending i" "err = None" "paid"
      | (overdue) "pending i" "\<not> (err = None \<and> paid)" "\<not> IsZero (ExpiresAt i)" "ExpiresAt i < check_time env"
      | (waits) "pending i" "\<not> (err = None \<and> paid)" "\<not> (\<not> IsZero (ExpiresAt i) \<and> ExpiresAt i < check_time env)"
      by blast
    then show ?thesis
    proof cases
      case terminal
      then show ?thesis using assms(1,7) Some stay by (simp add: CheckStatus_def)
    next
      case paid
      have m1: "move st view proc hook (Handler g) c c1"
        unfolding c1_def by (rule move.read [where w = "get_world env"]) (use Some assms(3,5) paid(1) in simp_all)
      define c2 where "c2 = goto g (WantLock iid i tx) c1"
      have m2: "move st view proc hook (Handler g) c1 c2" unfolding c2_def by (rule move.confirmed [OF sh(3)])
      have p2: "pc_of c2 g = WantLock iid i tx" "held c2 (proc g, ID i) = None" "shared c2 = db ?sys1"
        "sent_hooks c2 = fired ?sys1"
        using sh assms(6) by (simp_all add: c2_def)
      have "case GetInvoice st (reread_world env) (db ?sys1) iid of None \<Rightarrow> sys' = ?sys1
        | Some i2 \<Rightarrow> if \<not> pending i2 then sys' = ?sys1 else settle svc env i2 tx ?sys1 = (a, sys')"
        using assms(1,7) Some v paid by (auto simp: CheckStatus_def split: option.splits if_splits)
      from run_locked [where c = c2 and g = g and proc = proc and i = i and sys = ?sys1 and sys' = sys'
          and w = "reread_world env" and iid = iid, OF p2(1,2) assms(1,2) p2(3,4) this] obtain c' where
        c': "runs_to st view proc hook g c2 c'" "shared c' = db sys'" "sent_hooks c' = fired sys'"
        "pc_of c' = (pc_of c2)(g := Idle)" "held c' = held c2" by blast
      have "(pc_of c2)(g := Idle) = pc_of c" "held c2 = held c" using sh by (simp_all add: c2_def)
      then show ?thesis using c' runs_step [OF m1 runs_step [OF m2 c'(1)]] by metis
    next
      case overdue
      have m1: "move st view proc hook (Handler g) c c1"
        unfolding c1_def by (rule move.read [where w = "get_world env"]) (use Some assms(3,5) overdue(1) in simp_all)
      have "expire svc env i ?sys1 = (a, sys')"
        using assms(1,7) Some v overdue by (auto simp: CheckStatus_def Let_def)
      from run_overdue [OF sh(3) overdue(3,4) assms(1) sh(1,2) this] sh(4,5) show ?thesis
        using runs_step [OF m1] by metis
    next
      case waits
      then have "sys' = ?sys1" using assms(1,7) Some v by (auto simp: CheckStatus_def Let_def)
      then show ?thesis using stay by simp
    qed
  qed
qed

end

end
