(* ===== verification/Service_Stores.thy ===== *)
theory Service_Stores
  imports Service
begin

text \<open>
  The service on its two stores: what a creation promises, how collisions of memos are
  retried, what the caps bound, and the three outcomes of a status check.  The lemmas of
  \<open>Service\<close> are used through the interpretations \<open>mem\<close> and \<open>pg\<close> of the store contract.
\<close>

section \<open>Creation\<close>

definition sample_service :: "(memory, mem_world, unit, mock) Service" where
  "sample_service = SetLimits (NewService memory_store MockVerify (String sample_address) 0 True) 0 2 0"

definition empty_memory :: memory where
  "empty_memory = \<lparr>dir = [], invoices = Map.empty, memos = Map.empty, store_file = NoFile, tmp_file = NoFile\<rparr>"

definition sample_env :: "mem_world create_env" where
  "sample_env = \<lparr>now = 1000, counts_world = world IoOk [], id_draw = (\<lambda>_. Some (replicate 9 0)),
     memo_draw = (\<lambda>n. Some (replicate 16 (of_nat n))), create_world = (\<lambda>_. world IoOk [])\<rparr>"

lemma sample_service_simps [simp]:
  "svc_st sample_service = memory_store" "svc_defaultPayTo sample_service = String sample_address"
  "svc_maxPending sample_service = 2" "svc_maxPendingPerAddr sample_service = 0"
  "svc_defaultTTL sample_service = 15 * Minute" "svc_maxTTL sample_service = MaxTTL"
  "svc_verifier sample_service = MockVerify" "svc_webhook sample_service = True"
  by (simp_all add: sample_service_def SetLimits_def NewService_def Let_def)

lemma empty_memory_inv: "mem_inv empty_memory"
  by (simp add: mem_inv_def empty_memory_def)

lemma sample_create:
  "\<exists>i s'. ServiceCreate sample_service sample_env [] 7 ttl [] empty_memory = (Returned i, s')"
proof -
  have r: "resolvePayTo sample_service [] = Inr (String sample_address)"
    using String_not_empty [OF wf_sample] by (simp add: resolvePayTo_def)
  have c: "checkCaps sample_service (counts_world sample_env) empty_memory a = None" for a
    by (simp add: checkCaps_def mem_counts_def range_invoices_def sample_env_def world_def
        List.map_filter_simps)
  have "\<exists>i s'. allocate sample_service sample_env 5 0 j empty_memory = (Returned i, s')" for j
    by (simp add: eval_nat_numeral sample_env_def NewID_def NewMemo_def mem_create_def empty_memory_def
        persist_def Let_def)
  then show ?thesis
    using r c by (simp add: ServiceCreate_def validateMetadata_def)
qed

lemma created_invoice:
  assumes "mem_inv s" and "svc_st svc = memory_store" and "nul_free (svc_defaultPayTo svc)"
    and "fresh_draws (invoices s) env" and "ServiceCreate svc env payTo n ttl md s = (Returned i, s')"
  shows "invoices s' = (invoices s)(ID i \<mapsto> i) \<and> invoices s (ID i) = None \<and> \<not> key_taken (invoices s) i
    \<and> 0 < n \<and> AmountNano i = n \<and> Status i = StatusPending \<and> TxHash i = [] \<and> PaidAt i = 0
    \<and> Currency i = svc_currency svc
    \<and> Metadata i = md \<and> length md \<le> 64 \<and> sum_list (map (\<lambda>(k, v). length k + length v) md) \<le> 8192
    \<and> PayTo i \<noteq> [] \<and> (if payTo = [] then PayTo i = svc_defaultPayTo svc
         else NormalizeOnNetwork payTo (svc_testnet svc) = Inr (PayTo i))
    \<and> CreatedAt i = now env \<and> ExpiresAt i = now env + effectiveTTL svc ttl
    \<and> effectiveTTL svc ttl \<le> svc_maxTTL svc"
proof -
  note law = mem.ServiceCreate_law [OF assms]
  then obtain addr k where r: "resolvePayTo svc payTo = Inr addr"
    and d: "draws_of env k (newInvoice svc (now env) addr n (effectiveTTL svc ttl) md) i" by auto
  have f: "PayTo i = addr" "AmountNano i = n" "Status i = StatusPending" "TxHash i = []" "PaidAt i = 0"
    "Currency i = svc_currency svc" "Metadata i = md" "CreatedAt i = now env"
    "ExpiresAt i = now env + effectiveTTL svc ttl"
    using d by (auto simp: draws_of_def newInvoice_def zero_invoice_def)
  have v: "length md \<le> 64" "sum_list (map (\<lambda>(k, v). length k + length v) md) \<le> 8192"
    using law validateMetadata_None [of md] by auto
  show ?thesis
    using law f v resolvePayTo_Inr [OF r] effectiveTTL_bounds [of svc ttl] by auto
qed

text \<open>
  C7: A creation that succeeds has stored exactly the invoice it returns, and that is the one
  asked for: the requested positive amount, the metadata unchanged and within its bounds, a
  receiving address that is the configured default or the normal form of the caller's address on
  the configured network, pending, and due at the requested time after its creation or as the
  default and the limit say. Its memo is not in use for that address.
\<close>

theorem created_invoice_is_as_requested:
  assumes "mem_inv s" and "svc_st svc = memory_store" and "nul_free (svc_defaultPayTo svc)"
    and "fresh_draws (invoices s) env" and "ServiceCreate svc env payTo n ttl md s = (Returned i, s')"
  shows "invoices s' = (invoices s)(ID i \<mapsto> i) \<and> invoices s (ID i) = None \<and> \<not> key_taken (invoices s) i
    \<and> 0 < n \<and> AmountNano i = n \<and> Status i = StatusPending \<and> TxHash i = [] \<and> PaidAt i = 0
    \<and> Currency i = svc_currency svc
    \<and> Metadata i = md \<and> length md \<le> 64 \<and> sum_list (map (\<lambda>(k, v). length k + length v) md) \<le> 8192
    \<and> PayTo i \<noteq> [] \<and> (if payTo = [] then PayTo i = svc_defaultPayTo svc
         else NormalizeOnNetwork payTo (svc_testnet svc) = Inr (PayTo i))
    \<and> CreatedAt i = now env \<and> ExpiresAt i = now env + effectiveTTL svc ttl
    \<and> effectiveTTL svc ttl \<le> svc_maxTTL svc"
  using assms by (rule created_invoice)

theorem created_invoice_is_as_requested_witness:
  "\<exists>i s'. ServiceCreate sample_service sample_env [] 7 0 [] empty_memory = (Returned i, s')
    \<and> invoices s' = [ID i \<mapsto> i] \<and> AmountNano i = 7 \<and> ExpiresAt i = 1000 + 15 * Minute
    \<and> PayTo i = String sample_address"
proof -
  obtain i s' where c: "ServiceCreate sample_service sample_env [] 7 0 [] empty_memory = (Returned i, s')"
    using sample_create by blast
  have "invoices empty_memory = Map.empty" by (simp add: empty_memory_def)
  moreover have "fresh_draws (invoices empty_memory) sample_env"
    by (simp add: fresh_draws_def empty_memory_def)
  moreover have "effectiveTTL sample_service 0 = 15 * Minute"
    by (simp add: effectiveTTL_def go_defs)
  moreover have "now sample_env = 1000" by (simp add: sample_env_def)
  ultimately show ?thesis
    using created_invoice_is_as_requested [OF empty_memory_inv _ _ _ c] c
    by (auto simp: String_nul_free)
qed







section \<open>Collisions of memos\<close>

text \<open>The invoice the n-th attempt tries to store, when the random generator works.\<close>

definition attempted :: "(nat \<Rightarrow> byte list) \<Rightarrow> (nat \<Rightarrow> byte list) \<Rightarrow> invoice \<Rightarrow> nat \<Rightarrow> invoice" where
  "attempted ids ms i n = i\<lparr>ID := ''inv_'' @ raw_b64_encode url_alphabet (ids n), Memo := ''TON-'' @ HexEncode (ms n)\<rparr>"

definition working_env :: "mem_world create_env \<Rightarrow> (nat \<Rightarrow> byte list) \<Rightarrow> (nat \<Rightarrow> byte list) \<Rightarrow> bool" where
  "working_env env ids ms \<longleftrightarrow> (\<forall>n. id_draw env n = Some (ids n) \<and> memo_draw env n = Some (ms n)
     \<and> disk_io (create_world env n) = IoOk)"

lemma allocate_finds:
  assumes "mem_inv s" and "svc_st svc = memory_store" and "nul_free (PayTo i)"
    and "fresh_draws (invoices s) env" and "working_env env ids ms" and "n + left \<le> 5"
  shows "fst (allocate svc env left n i s) =
    (case find (\<lambda>k. \<not> key_taken (invoices s) (attempted ids ms i k)) [n..<n + left] of
       Some k \<Rightarrow> Returned (attempted ids ms i k) | None \<Rightarrow> Failed NoUniqueMemo)"
  using assms(6,3)
proof (induction left arbitrary: n i)
  case (Suc left)
  let ?i = "attempted ids ms i n"
  have k: "NewID ''inv'' (id_draw env n) = Some (ID ?i)" "NewMemo (memo_draw env n) = Some (Memo ?i)"
    "i\<lparr>ID := ID ?i, Memo := Memo ?i\<rparr> = ?i"
    using assms(5) by (simp_all add: working_env_def NewID_def NewMemo_def attempted_def)
  obtain r1 s1 where c: "mem_create (create_world env n) s ?i = (r1, s1)" by (metis surj_pair)
  have n5: "n < 5" using Suc.prems(1) by simp
  have fresh: "invoices s (ID ?i) = None" using assms(4) k(1) n5 by (auto simp: fresh_draws_def)
  have nf: "nul_free (PayTo ?i)" using Suc.prems(2) by (simp add: attempted_def)
  have step: "allocate svc env (Suc left) n i s = (case r1 of None \<Rightarrow> (Returned ?i, s1)
     | Some ErrMemoExists \<Rightarrow> allocate svc env left (Suc n) ?i s1
     | Some (StoreFailure e) \<Rightarrow> (Failed (StoreError (StoreFailure e)), s1))"
    using c assms(2) k(3) by (simp add: k(1,2) Let_def)
  have upt: "[n..<n + Suc left] = n # [Suc n..<Suc n + left]" by (simp add: upt_rec)
  have same: "attempted ids ms ?i = attempted ids ms i" by (simp add: attempted_def fun_eq_iff)
  show ?case
    using assms(1) nf fresh c
  proof (cases rule: mem_create_cases)
    case taken
    then show ?thesis
      using Suc.IH [of "Suc n" ?i] Suc.prems(1) nf unfolding step upt same by simp
  next
    case (failed e)
    then show ?thesis using assms(5) by (simp add: working_env_def)
  next
    case created
    then show ?thesis unfolding step upt by simp
  qed
qed simp

text \<open>
  With a working random generator and disk, a memo collision is never an error of its own:
  the request succeeds with the first of its five draws that is free for the address, and is
  refused only when all five are taken.
\<close>

theorem collisions_are_retried:
  assumes "mem_inv s" and "svc_st svc = memory_store" and "nul_free (svc_defaultPayTo svc)"
    and "fresh_draws (invoices s) env" and "working_env env ids ms"
    and "0 < n" and "validateMetadata md = None" and "resolvePayTo svc payTo = Inr addr"
    and "checkCaps svc (counts_world env) s addr = None"
    and "i = newInvoice svc (now env) addr n (effectiveTTL svc ttl) md"
  shows "fst (ServiceCreate svc env payTo n ttl md s) =
    (case find (\<lambda>k. \<not> key_taken (invoices s) (attempted ids ms i k)) [0, 1, 2, 3, 4] of
       Some k \<Rightarrow> Returned (attempted ids ms i k) | None \<Rightarrow> Failed NoUniqueMemo)"
proof -
  have u: "[0..<0 + 5] = [0, 1, 2, 3, 4 :: nat]" by (simp add: upt_rec)
  have "nul_free (PayTo i)"
    using resolvePayTo_nul_free [OF assms(8,3)] assms(10) by (simp add: newInvoice_simps)
  from allocate_finds [OF assms(1,2) this assms(4,5), of 0 5, unfolded u]
  show ?thesis using assms(6-10) by (simp add: ServiceCreate_def)
qed

text \<open>A store in which the memo of the first draw is taken: the second draw is used.\<close>

definition crowded_memory :: memory where
  "crowded_memory = snd (mem_create (world IoOk []) empty_memory
     (zero_invoice\<lparr>ID := ''x'', PayTo := ''UQ'', Memo := ''TON-'' @ HexEncode (replicate 16 0)\<rparr>))"

theorem collisions_are_retried_witness:
  "let svc = NewService memory_store MockVerify ''UQ'' 0 False :: (memory, mem_world, unit, mock) Service in
   \<exists>i. fst (ServiceCreate svc sample_env [] 7 0 [] crowded_memory) = Returned i
     \<and> Memo i = ''TON-'' @ HexEncode (replicate 16 1)"
proof -
  let ?svc = "NewService memory_store MockVerify ''UQ'' 0 False :: (memory, mem_world, unit, mock) Service"
  let ?x = "zero_invoice\<lparr>ID := ''x'', PayTo := ''UQ'', Memo := ''TON-'' @ HexEncode (replicate 16 0)\<rparr>"
  let ?ids = "\<lambda>_ :: nat. replicate 9 0 :: byte list" and ?ms = "\<lambda>n. replicate 16 (of_nat n) :: byte list"
  let ?i = "newInvoice ?svc 1000 ''UQ'' 7 (effectiveTTL ?svc 0) []"
  obtain r where c: "mem_create (world IoOk []) empty_memory ?x = (r, crowded_memory)"
    by (metis crowded_memory_def prod.collapse)
  have inv: "mem_inv crowded_memory"
    by (rule mem_create_inv [OF empty_memory_inv _ _ c]) (simp_all add: nul_free_def empty_memory_def)
  have v: "invoices crowded_memory = [''x'' \<mapsto> ?x]"
    by (simp add: crowded_memory_def mem_create_def empty_memory_def persist_def Let_def)
  have fresh: "fresh_draws (invoices crowded_memory) sample_env"
    by (simp add: fresh_draws_def v sample_env_def NewID_def)
  have work: "working_env sample_env ?ids ?ms"
    by (simp add: working_env_def sample_env_def world_def)
  have "HexEncode (replicate 16 0) \<noteq> HexEncode (replicate 16 1)"
    using HexEncode_inj [of "replicate 16 0" "replicate 16 1"] by (auto simp: eval_nat_numeral)
  then have t: "key_taken (invoices crowded_memory) (attempted ?ids ?ms ?i 0)"
    "\<not> key_taken (invoices crowded_memory) (attempted ?ids ?ms ?i 1)"
    by (auto simp: key_taken_def same_key_def v attempted_def newInvoice_def split: if_splits)
  have "fst (ServiceCreate ?svc sample_env [] 7 0 [] crowded_memory) = Returned (attempted ?ids ?ms ?i 1)"
    using collisions_are_retried [OF inv _ _ fresh work, of ?svc 7 "[]" "[]" "''UQ''" ?i 0] t
    by (simp add: NewService_def nul_free_def validateMetadata_def resolvePayTo_def checkCaps_def sample_env_def)
  moreover have "Memo (attempted ?ids ?ms ?i 1) = ''TON-'' @ HexEncode (replicate 16 1)"
    by (simp add: attempted_def)
  ultimately show ?thesis unfolding Let_def by blast
qed


section \<open>Caps\<close>

text \<open>
  On Postgres, right after a creation that succeeds the number of pending invoices is within
  the global cap and that of the receiving address within its cap, when these are set, and the
  invoice does not stay pending longer than the maximum TTL. (Concurrent creations are the
  subject of \<open>Creation\<close>.)
\<close>

theorem caps_bound_pending:
  assumes "pg_inv s" and "svc_st svc = postgres_store" and "nul_free (svc_defaultPayTo svc)"
    and "fresh_draws (table s) env" and "pg_sane (counts_world env) s"
    and "ServiceCreate svc env payTo n ttl md s = (Returned i, s')"
  shows "(svc_maxPending svc > 0 \<longrightarrow> int (card (pending_ids (table s'))) \<le> svc_maxPending svc)
    \<and> (svc_maxPendingPerAddr svc > 0 \<longrightarrow>
         int (card (pending_ids_for (table s') (PayTo i))) \<le> svc_maxPendingPerAddr svc)
    \<and> ExpiresAt i - CreatedAt i \<le> svc_maxTTL svc"
proof -
  note law = pg.ServiceCreate_law [OF assms(1,2,3,4,6)]
  then obtain addr k where r: "checkCaps svc (counts_world env) s addr = None"
    and d: "draws_of env k (newInvoice svc (now env) addr n (effectiveTTL svc ttl) md) i" by auto
  have f: "PayTo i = addr" "pending i" "ExpiresAt i - CreatedAt i = effectiveTTL svc ttl"
    using d by (auto simp: draws_of_def newInvoice_def)
  have v: "table s (ID i) = None" "table s' = (table s)(ID i \<mapsto> micro_invoice i)" using law by auto
  have c: "checkCaps svc (counts_world env) s (PayTo i) = None" using r f(1) by simp
  show ?thesis
    using pg.created_within_caps [OF assms(1,2,5) c v(1) f(2)] v(2) f(3) effectiveTTL_bounds [of svc ttl]
    by simp
qed

definition capped_service :: "(row list, pg_world, unit, mock) Service" where
  "capped_service = SetLimits (NewService postgres_store MockVerify ''UQ'' 0 True) 0 1 1"

definition calm_env :: "pg_world create_env" where
  "calm_env = \<lparr>now = 1000, counts_world = pg_calm, id_draw = (\<lambda>_. Some (replicate 9 0)),
     memo_draw = (\<lambda>n. Some (replicate 16 (of_nat n))), create_world = (\<lambda>_. pg_calm)\<rparr>"

theorem caps_bound_pending_witness:
  "\<exists>i s'. ServiceCreate capped_service calm_env [] 7 0 [] [] = (Returned i, s')
     \<and> int (card (pending_ids (table s'))) \<le> 1"
proof -
  obtain r s' where c: "ServiceCreate capped_service calm_env [] 7 0 [] [] = (r, s')" by (metis surj_pair)
  have "nul_free (''inv_'' @ raw_b64_encode url_alphabet (replicate 9 0))"
    "nul_free (''TON-'' @ HexEncode (replicate 16 0))"
    using NewID_nul_free [of "''inv''" "Some (replicate 9 0)"] NewMemo_nul_free [of "Some (replicate 16 0)"]
    by (simp_all add: NewID_def NewMemo_def nul_free_def)
  then have "\<exists>i. r = Returned i"
    using c by (auto simp: ServiceCreate_def capped_service_def SetLimits_def NewService_def resolvePayTo_def
        validateMetadata_def checkCaps_def pg_counts_def calm_env_def pg_calm_def nul_free_def
        eval_nat_numeral NewID_def NewMemo_def pg_create_def exec_def sql_insert_def texts_ok_def
        newInvoice_def zero_invoice_def StatusPending_def Let_def)
  then obtain i where i: "r = Returned i" by blast
  have st: "svc_st capped_service = postgres_store" "nul_free (svc_defaultPayTo capped_service)"
    "svc_maxPending capped_service = 1"
    by (simp_all add: capped_service_def SetLimits_def NewService_def Let_def nul_free_def)
  have w: "fresh_draws (table []) calm_env" "pg_sane (counts_world calm_env) []" "pg_inv []"
    by (simp_all add: fresh_draws_def table_def pg_sane_def calm_env_def pg_calm_def pg_inv_def)
  have "int (card (pending_ids (table s'))) \<le> 1"
    using caps_bound_pending [OF w(3) st(1,2) w(1,2), of "[]" 7 0 "[]" i s'] c i st(3) by simp
  then show ?thesis using c i by blast
qed

section \<open>Status checks\<close>

text \<open>
  C5: Payment takes priority over expiry. On a healthy Postgres, a check of a pending invoice
  whose verifier sees a payment answers with the invoice paid by that transaction, stores exactly
  that, and hands it to the webhook once, however late the check comes.
\<close>

theorem payment_beats_expiry:
  assumes "pg_inv (db sys)" and "svc_st svc = postgres_store" and "table (db sys) iid = Some i" and "pending i"
    and "pg_healthy (get_world env) (db sys)" and "pg_healthy (reread_world env) (db sys)"
    and "pg_healthy (change_world env) (db sys)" and "nul_free tx"
    and "svc_verifier svc (outside env) (verifier_state sys) i = (((True, tx), None), v')"
    and "CheckStatus svc env iid sys = (a, sys')"
  shows "a = (settled i tx (settle_time env), None)
    \<and> table (db sys') = (table (db sys))(iid \<mapsto> settled i tx (micro (settle_time env)))
    \<and> fired sys' = fired sys @ (if svc_webhook svc then [settled i tx (settle_time env)] else [])"
  using assms by (rule pg.CheckStatus_paid)

definition late_invoice :: invoice where
  "late_invoice = sample_row_invoice\<lparr>ExpiresAt := 2000\<rparr>"

definition late_env :: "(pg_world, unit) check_env" where
  "late_env = (let w = \<lparr>fault = PgOk, scan_order = [row_of late_invoice]\<rparr> in
     \<lparr>get_world = w, outside = (), reread_world = w, change_world = w, final_world = w,
      settle_time = 9000, check_time = 10 ^ 20\<rparr>)"

definition late_system :: "(row list, mock) system" where
  "late_system = \<lparr>db = [row_of late_invoice], verifier_state = NewMockVerifier 1, fired = []\<rparr>"

lemma late_invoice_simps [simp]:
  "ID late_invoice = ''inv_1''" "PayTo late_invoice = ''EQ1''" "Memo late_invoice = ''TON-1''"
  "Status late_invoice = StatusPending" "ExpiresAt late_invoice = 2000"
  by (simp_all add: late_invoice_def sample_row_invoice_def)

lemma late_system_facts:
  "pg_inv (db late_system)" "table (db late_system) ''inv_1'' = Some late_invoice"
  "pg_healthy (get_world late_env) (db late_system)" "pg_healthy (reread_world late_env) (db late_system)"
  "pg_healthy (change_world late_env) (db late_system)"
proof -
  have "micro_invoice late_invoice = late_invoice"
    by (simp add: late_invoice_def sample_row_invoice_def micro_invoice_def micro_def zero_invoice_def)
  then show "table (db late_system) ''inv_1'' = Some late_invoice"
    by (simp add: late_system_def table_def scan_row_of)
qed (simp_all add: late_system_def late_env_def pg_inv_def nul_free_def pg_healthy_def pg_sane_def Let_def)

theorem payment_beats_expiry_witness:
  "let (a, sys') = CheckStatus capped_service late_env ''inv_1'' late_system in
     a = (settled late_invoice ''mock-tx-TON-1'' 9000, None)
     \<and> fired sys' = [settled late_invoice ''mock-tx-TON-1'' 9000] \<and> ExpiresAt late_invoice < check_time late_env"
proof -
  obtain a sys' where c: "CheckStatus capped_service late_env ''inv_1'' late_system = (a, sys')"
    by (metis surj_pair)
  have v: "\<exists>v'. svc_verifier capped_service (outside late_env) (verifier_state late_system) late_invoice
      = (((True, ''mock-tx-TON-1''), None), v')"
    by (simp add: capped_service_def SetLimits_def NewService_def Let_def MockVerify_def late_system_def
        NewMockVerifier_def)
  then obtain v' where v': "svc_verifier capped_service (outside late_env) (verifier_state late_system) late_invoice
      = (((True, ''mock-tx-TON-1''), None), v')" by blast
  have st: "svc_st capped_service = postgres_store" "svc_webhook capped_service" "settle_time late_env = 9000"
    "fired late_system = []"
    by (simp_all add: capped_service_def SetLimits_def NewService_def Let_def late_env_def late_system_def)
  have "nul_free ''mock-tx-TON-1''" by (simp add: nul_free_def)
  from payment_beats_expiry [OF late_system_facts(1) st(1) late_system_facts(2) _ late_system_facts(3-5) this v' c]
  show ?thesis using c st by (simp add: late_env_def Let_def)
qed

text \<open>
  C27: What happens to an invoice that was not confirmed, because it is unpaid or because the
  verifier failed: past its deadline it is expired, in the answer and in the store; up to and at
  its deadline, or when it has none, it stays pending and nothing changes; and the webhook is
  silent. So a verifier error does not keep an overdue invoice pending.
\<close>

theorem unconfirmed_expires:
  assumes "mem_inv (db sys)" and "svc_st svc = memory_store" and "invoices (db sys) iid = Some i" and "pending i"
    and "mem_healthy (get_world env) (db sys)" and "mem_healthy (change_world env) (db sys)"
    and "svc_verifier svc (outside env) (verifier_state sys) i = (((paid, tx), err), v')"
    and "\<not> (paid \<and> err = None)" and "CheckStatus svc env iid sys = (a, sys')"
  shows "fired sys' = fired sys \<and>
    (if ExpiresAt i \<noteq> 0 \<and> ExpiresAt i < check_time env
     then a = (expired i, None) \<and> invoices (db sys') = (invoices (db sys))(iid \<mapsto> expired i)
     else a = (i, None) \<and> db sys' = db sys)"
  using assms by (rule mem.CheckStatus_unpaid)

definition overdue_env :: "(mem_world, string \<Rightarrow> http_outcome) check_env" where
  "overdue_env = (let w = world IoOk [''inv_1''] in
     \<lparr>get_world = w, outside = (\<lambda>_. ExchangeFailed), reread_world = w, change_world = w, final_world = w,
      settle_time = 101, check_time = 101\<rparr>)"

text \<open>Toncenter is unreachable one nanosecond after the deadline.\<close>

theorem unconfirmed_expires_witness:
  "let svc = NewService memory_store (TonVerify sample_verifier) [] 0 True;
       sys = \<lparr>db = sample_memory, verifier_state = (), fired = []\<rparr>;
       (a, sys') = CheckStatus svc overdue_env ''inv_1'' sys in
     a = (expired sample_invoice, None) \<and> fired sys' = []"
proof -
  let ?svc = "NewService memory_store (TonVerify sample_verifier) [] 0 True"
  let ?sys = "\<lparr>db = sample_memory, verifier_state = (), fired = []\<rparr>"
  obtain a sys' where c: "CheckStatus ?svc overdue_env ''inv_1'' ?sys = (a, sys')" by (metis surj_pair)
  have f: "invoices (db ?sys) ''inv_1'' = Some sample_invoice" "mem_inv (db ?sys)" "svc_st ?svc = memory_store"
    "pending sample_invoice" "ExpiresAt sample_invoice = 100" "check_time overdue_env = 101"
    using sample_mem_inv
    by (simp_all add: sample_memory_def NewService_def sample_invoice_def overdue_env_def Let_def)
  have h: "mem_healthy (get_world overdue_env) (db ?sys)" "mem_healthy (change_world overdue_env) (db ?sys)"
    by (simp_all add: overdue_env_def mem_healthy_def mem_sane_def world_def sample_memory_def Let_def)
  have v: "svc_verifier ?svc (outside overdue_env) (verifier_state ?sys) sample_invoice
      = (((False, []), Some HttpFailed), ())"
    by (simp add: NewService_def TonVerify_def overdue_env_def sample_invoice_def Let_def)
  show ?thesis
    using unconfirmed_expires [OF f(2,3,1,4) h v _ c] c f(5,6) by (simp add: Let_def)
qed

text \<open>
  Paid and expired are final. Whatever the database connection does, a check of an invoice
  that is not pending asks no verifier, changes nothing, fires nothing, and answers with the
  invoice as stored (or, when the read fails, that it was not found).
\<close>

theorem terminal_is_final:
  assumes "pg_inv (db sys)" and "svc_st svc = postgres_store" and "table (db sys) iid = Some i"
    and "\<not> pending i" and "CheckStatus svc env iid sys = (a, sys')"
  shows "sys' = sys \<and> (a = (i, None) \<or> a = (zero_invoice, Some NotFound))"
  using assms by (rule pg.CheckStatus_terminal)

definition paid_system :: "(row list, mock) system" where
  "paid_system = \<lparr>db = [row_of (late_invoice\<lparr>Status := StatusPaid\<rparr>)], verifier_state = NewMockVerifier 1, fired = []\<rparr>"

theorem terminal_is_final_witness:
  "snd (CheckStatus capped_service late_env ''inv_1'' paid_system) = paid_system"
proof -
  obtain a sys' where c: "CheckStatus capped_service late_env ''inv_1'' paid_system = (a, sys')"
    by (metis surj_pair)
  have i: "pg_inv (db paid_system)"
    by (simp add: paid_system_def pg_inv_def nul_free_def)
  have t: "table (db paid_system) ''inv_1'' = Some (micro_invoice (late_invoice\<lparr>Status := StatusPaid\<rparr>))"
    by (simp add: paid_system_def table_def scan_row_of)
  have np: "\<not> pending (micro_invoice (late_invoice\<lparr>Status := StatusPaid\<rparr>))"
    by (simp add: micro_invoice_def)
  have "svc_st capped_service = postgres_store"
    by (simp add: capped_service_def SetLimits_def NewService_def Let_def)
  from terminal_is_final [OF i this t np c] show ?thesis using c by simp
qed

end
