(* ===== verification/Settlement_Stores.thy ===== *)
theory Settlement_Stores
  imports Settlement Service_Stores
begin

text \<open>
  What concurrency cannot break, on the two stores: at most one notification per invoice across
  processes, mutual exclusion per invoice inside a process, progress, and, as long as no process
  dies, no notification lost.
\<close>

section \<open>At most once\<close>

text \<open>
  C1: Exactly-once settlement, across processes. However many goroutines in however many
  processes check, create and expire invoices on one Postgres, and whatever the database
  connections and process deaths do in between, no invoice is handed to the webhook twice; each
  one handed over is stored as paid by the very transaction reported, under the terms it was
  created with; and an invoice that was final stays as it was.
\<close>

theorem webhook_at_most_once:
  assumes "pg_inv s" and "(step postgres_store table proc hook)\<^sup>*\<^sup>* (start s) c"
  shows "distinct (map ID (sent_hooks c))
    \<and> (\<forall>f \<in> set (sent_hooks c). \<exists>i tx t. f = settled i tx t
         \<and> table (shared c) (ID f) = Some (settled i tx (micro t)))
    \<and> ledger_develops (table s) (table (shared c)) \<and> unique_keys (table (shared c))"
proof -
  note i = pg.steps_invariant [OF assms(2,1)]
  have "\<exists>i tx t. f = settled i tx t \<and> table (shared c) (ID f) = Some (settled i tx (micro t))"
    if "f \<in> set (sent_hooks c)" for f
    using i hook_invD(1) [of micro table c, OF _ that] by (fastforce simp: announced_def)
  then show ?thesis using i hook_invD(2) [of micro table c] pg_unique_keys by blast
qed

text \<open>A run that notifies: the late check of \<open>payment_beats_expiry\<close>, step by step.\<close>

lemma runs_to_steps:
  assumes "runs_to st vw proc hook g c c'"
  shows "(step st vw proc hook)\<^sup>*\<^sup>* c c'"
  using assms unfolding runs_to_def
  by (induction rule: rtranclp_induct) (auto simp: step_def intro: rtranclp.rtrancl_into_rtrancl)

lemma late_check:
  obtains sys' where "CheckStatus capped_service late_env ''inv_1'' late_system
      = ((settled late_invoice ''mock-tx-TON-1'' 9000, None), sys')"
    and "fired sys' = [settled late_invoice ''mock-tx-TON-1'' 9000]"
proof -
  obtain a sys' where c: "CheckStatus capped_service late_env ''inv_1'' late_system = (a, sys')"
    by (metis surj_pair)
  obtain v' where v: "svc_verifier capped_service (outside late_env) (verifier_state late_system) late_invoice
      = (((True, ''mock-tx-TON-1''), None), v')"
    by (auto simp: capped_service_def SetLimits_def NewService_def Let_def MockVerify_def late_system_def
        NewMockVerifier_def)
  have st: "svc_st capped_service = postgres_store" "svc_webhook capped_service" "settle_time late_env = 9000"
    "fired late_system = []"
    by (simp_all add: capped_service_def SetLimits_def NewService_def Let_def late_env_def late_system_def)
  have "nul_free ''mock-tx-TON-1''" by (simp add: nul_free_def)
  from pg.CheckStatus_paid [OF late_system_facts(1) st(1) late_system_facts(2) _ late_system_facts(3-5) this v c]
  show thesis using that c st by simp
qed

lemma late_runs_to:
  obtains c where "runs_to postgres_store table (\<lambda>_. 0) True 0 (start (db late_system)) c"
    and "sent_hooks c = [settled late_invoice ''mock-tx-TON-1'' 9000]"
proof -
  obtain sys' where s: "CheckStatus capped_service late_env ''inv_1'' late_system
      = ((settled late_invoice ''mock-tx-TON-1'' 9000, None), sys')"
    "fired sys' = [settled late_invoice ''mock-tx-TON-1'' 9000]" by (rule late_check)
  have st: "svc_st capped_service = postgres_store" "svc_webhook capped_service = True"
    "sent_hooks (start (db late_system)) = fired late_system"
    by (simp_all add: capped_service_def SetLimits_def NewService_def Let_def start_def late_system_def)
  obtain c where "runs_to postgres_store table (\<lambda>_. 0) True 0 (start (db late_system)) c"
    "sent_hooks c = fired sys'"
    using pg.CheckStatus_is_a_run [OF st(1,2) _ st(3) _ _ s(1), of 0 "\<lambda>_. 0"] by (auto simp: start_def)
  then show thesis using that s(2) by metis
qed

lemma late_run:
  obtains c where "(step postgres_store table (\<lambda>_. 0) True)\<^sup>*\<^sup>* (start (db late_system)) c"
    and "sent_hooks c = [settled late_invoice ''mock-tx-TON-1'' 9000]"
  using late_runs_to runs_to_steps by metis

theorem webhook_at_most_once_witness:
  "\<exists>c. (step postgres_store table (\<lambda>_. 0) True)\<^sup>*\<^sup>* (start (db late_system)) c
     \<and> map ID (sent_hooks c) = [''inv_1''] \<and> distinct (map ID (sent_hooks c))
     \<and> ledger_develops (table (db late_system)) (table (shared c))"
proof -
  obtain c where c: "(step postgres_store table (\<lambda>_. 0) True)\<^sup>*\<^sup>* (start (db late_system)) c"
    "sent_hooks c = [settled late_invoice ''mock-tx-TON-1'' 9000]" by (rule late_run)
  show ?thesis using webhook_at_most_once [OF late_system_facts(1) c(1)] c by (intro exI [of _ c]) simp
qed



section \<open>Locks\<close>

text \<open>
  The keyed locks work: in one process two goroutines are never between lock and unlock of
  the same invoice, and a lock that is held is held by a goroutine that is there.
\<close>

theorem lock_is_exclusive:
  assumes "mem_inv s" and "(step memory_store invoices proc hook)\<^sup>*\<^sup>* (start s) c"
    and "proc g = proc h" and "section_key (pc_of c g) = Some key" and "section_key (pc_of c h) = Some key"
  shows "g = h \<and> held c (proc g, key) = Some g"
proof -
  have l: "lock_inv proc c" using mem.steps_invariant [OF assms(2,1)] by blast
  note hg = lock_invD(1) [OF l, THEN iffD1, OF assms(4)]
  note hh = lock_invD(1) [OF l, THEN iffD1, OF assms(5)]
  have "Some g = Some h" using hg hh unfolding assms(3) by (rule trans [OF sym])
  then show ?thesis using hg by simp
qed

definition check_world :: mem_world where
  "check_world = world IoOk [''inv_1'']"

definition locked_config :: "memory config" where
  "locked_config = goto 3 (InLock ''inv_1'' ''inv_1'' ''tx'') ((goto 3 (WantLock ''inv_1'' sample_invoice ''tx'')
     (goto 3 (Verifying ''inv_1'' sample_invoice) (start sample_memory)))\<lparr>held := [(0, ''inv_1'') \<mapsto> 3]\<rparr>)"

lemma locked_run: "runs_to memory_store invoices (\<lambda>_. 0) True 3 (start sample_memory) locked_config"
proof -
  let ?m = "move memory_store invoices (\<lambda>_ :: nat. 0 :: nat) True (Handler 3)"
  define c1 where "c1 = goto 3 (Verifying ''inv_1'' sample_invoice) (start sample_memory)"
  define c2 where "c2 = goto 3 (WantLock ''inv_1'' sample_invoice ''tx'') c1"
  have i: "ID sample_invoice = ''inv_1''" "pending sample_invoice" by (simp_all add: sample_invoice_def)
  have "?m (start sample_memory) c1"
    unfolding c1_def by (rule move.read [where w = check_world])
      (simp_all add: start_def mem_get_def sample_memory_def i)
  moreover have "?m c1 c2" unfolding c2_def by (rule move.confirmed) (simp add: c1_def)
  moreover have "?m c2 (goto 3 (InLock ''inv_1'' (ID sample_invoice) ''tx'')
      (c2\<lparr>held := (held c2)((0, ID sample_invoice) \<mapsto> 3)\<rparr>))"
    by (rule move.lock) (simp_all add: c2_def c1_def start_def)
  then have "?m c2 locked_config"
    by (simp add: locked_config_def c2_def c1_def start_def goto_def i)
  ultimately show ?thesis
    unfolding runs_to_def by (meson converse_rtranclp_into_rtranclp rtranclp.rtrancl_refl)
qed

lemmas locked_reachable = runs_to_steps [OF locked_run]

theorem lock_is_exclusive_witness:
  "held locked_config (0, ''inv_1'') = Some 3 \<and> section_key (pc_of locked_config 3) = Some ''inv_1''"
proof -
  have k: "section_key (pc_of locked_config 3) = Some ''inv_1''" by (simp add: locked_config_def)
  from lock_is_exclusive [OF conjunct1 [OF sample_mem_inv] locked_reachable refl k k] k show ?thesis by simp
qed


section \<open>Progress\<close>

definition can_move :: "(nat \<Rightarrow> nat) \<Rightarrow> bool \<Rightarrow> memory config \<Rightarrow> nat \<Rightarrow> bool" where
  "can_move proc hook c g \<longleftrightarrow> (\<exists>c'. move memory_store invoices proc hook (Handler g) c c')"

lemma can_moveI: "move memory_store invoices proc hook (Handler g) c c' \<Longrightarrow> can_move proc hook c g"
  by (auto simp: can_move_def)

lemma can_move_unless_waiting:
  assumes "pc_of c g \<noteq> Idle" and "\<And>iid i tx. pc_of c g = WantLock iid i tx \<Longrightarrow> held c (proc g, ID i) = None"
  shows "can_move proc hook c g"
proof (cases "pc_of c g")
  case (Verifying iid i)
  then show ?thesis by (rule move.unconfirmed [THEN can_moveI])
next
  case (WantLock iid i tx)
  then show ?thesis using assms(2) by (intro move.lock [THEN can_moveI])
next
  case (InLock iid key tx)
  show ?thesis
  proof (cases "case invoices (shared c) iid of None \<Rightarrow> True | Some i \<Rightarrow> \<not> pending i")
    case True
    then show ?thesis
      by (intro move.gone [where w = check_world, OF InLock, THEN can_moveI]) (simp add: mem_get_def)
  next
    case False
    then obtain i where "invoices (shared c) iid = Some i" "pending i" by (auto split: option.splits)
    then show ?thesis
      by (intro move.reread [where w = check_world, OF InLock, THEN can_moveI]) (simp_all add: mem_get_def)
  qed
next
  case (Claiming key i tx)
  obtain b e s' where cl: "ClaimInvoiceForSettlement memory_store check_world (shared c) (ID i) tx 0 = ((b, e), s')"
    by (metis surj_pair)
  show ?thesis
  proof (cases "b \<and> e = None")
    case True
    then show ?thesis using cl by (intro move.won [OF Claiming, THEN can_moveI]) simp
  next
    case False
    from move.lost [OF Claiming cl this] show ?thesis by (rule can_moveI)
  qed
next
  case (Notify key i)
  then show ?thesis by (rule move.notify [THEN can_moveI])
next
  case (Unlocking key)
  then show ?thesis by (rule move.unlock [THEN can_moveI])
next
  case (Expiring i)
  obtain r s' where "ExpireInvoice memory_store check_world (shared c) (ID i) = (r, s')" by (metis surj_pair)
  from move.expire [OF Expiring this] show ?thesis by (rule can_moveI)
qed (use assms(1) in simp)

text \<open>
  C21: No deadlock. In every reachable situation a handler that has begun can take its next step,
  or it waits for the lock of its invoice, and then the goroutine that holds that lock is in the
  same process and can take its next step itself.
\<close>

theorem no_deadlock:
  assumes "mem_inv s" and "(step memory_store invoices proc hook)\<^sup>*\<^sup>* (start s) c" and "pc_of c g \<noteq> Idle"
  shows "can_move proc hook c g \<or>
    (\<exists>iid i tx h. pc_of c g = WantLock iid i tx \<and> held c (proc g, ID i) = Some h
       \<and> proc h = proc g \<and> can_move proc hook c h)"
proof (cases "\<exists>iid i tx. pc_of c g = WantLock iid i tx \<and> held c (proc g, ID i) \<noteq> None")
  case False
  then show ?thesis using can_move_unless_waiting [OF assms(3)] by blast
next
  case True
  then obtain iid i tx h where w: "pc_of c g = WantLock iid i tx" "held c (proc g, ID i) = Some h" by blast
  have l: "lock_inv proc c" using mem.steps_invariant [OF assms(2,1)] by blast
  have h: "proc h = proc g" by (rule lock_invD(2) [OF l w(2)])
  then have "held c (proc h, ID i) = Some h" using w(2) by (rule ssubst)
  then have "section_key (pc_of c h) = Some (ID i)" by (rule lock_invD(1) [OF l, THEN iffD2])
  then have "can_move proc hook c h" by (intro can_move_unless_waiting) auto
  with h w show ?thesis by blast
qed

theorem no_deadlock_witness: "can_move (\<lambda>_. 0) True locked_config 3"
  using no_deadlock [OF conjunct1 [OF sample_mem_inv] locked_reachable, of 3] by (simp add: locked_config_def)

section \<open>No notification is lost\<close>

text \<open>Every paid invoice was paid before, has been notified, or is just being notified.\<close>

definition accounted :: "ledger \<Rightarrow> memory config \<Rightarrow> bool" where
  "accounted v0 c \<longleftrightarrow> (\<forall>k j. invoices (shared c) k = Some j \<longrightarrow> Status j = StatusPaid \<longrightarrow>
     (\<exists>j0. v0 k = Some j0 \<and> Status j0 = StatusPaid) \<or> k \<in> ID ` set (sent_hooks c)
     \<or> (\<exists>g i. notifying (pc_of c g) = Some i \<and> ID i = k))"

lemma accounted_frame:
  assumes "accounted v0 c" and "set (sent_hooks c) \<subseteq> set (sent_hooks c')"
    and "\<And>g i. notifying (pc_of c g) = Some i \<Longrightarrow>
          (\<exists>h. notifying (pc_of c' h) = Some i) \<or> i \<in> set (sent_hooks c')"
    and "\<And>k j. invoices (shared c') k = Some j \<Longrightarrow> Status j = StatusPaid \<Longrightarrow>
          invoices (shared c) k = Some j \<or> (\<exists>g i. notifying (pc_of c' g) = Some i \<and> ID i = k)"
  shows "accounted v0 c'"
  unfolding accounted_def
proof (intro allI impI)
  fix k j
  assume j: "invoices (shared c') k = Some j" "Status j = StatusPaid"
  show "(\<exists>j0. v0 k = Some j0 \<and> Status j0 = StatusPaid) \<or> k \<in> ID ` set (sent_hooks c')
     \<or> (\<exists>g i. notifying (pc_of c' g) = Some i \<and> ID i = k)"
  proof (cases "\<exists>g i. notifying (pc_of c' g) = Some i \<and> ID i = k")
    case False
    with assms(4) [OF j] have "invoices (shared c) k = Some j" by (elim disjE) simp_all
    from assms(1) [unfolded accounted_def, rule_format, OF this j(2)]
    consider "\<exists>j0. v0 k = Some j0 \<and> Status j0 = StatusPaid" | "k \<in> ID ` set (sent_hooks c)"
      | g i where "notifying (pc_of c g) = Some i" "ID i = k"
      by blast
    then show ?thesis
    proof cases
      case 1
      then show ?thesis by (rule disjI1)
    next
      case 2
      then show ?thesis using image_mono [OF assms(2), of ID] by (intro disjI2 disjI1) (rule subsetD)
    next
      case (3 g i)
      from assms(3) [OF 3(1)] show ?thesis
      proof
        assume "\<exists>h. notifying (pc_of c' h) = Some i"
        then show ?thesis using False 3(2) by blast
      next
        assume "i \<in> set (sent_hooks c')"
        then have "ID i \<in> ID ` set (sent_hooks c')" by (rule imageI)
        then show ?thesis unfolding 3(2) by (intro disjI2 disjI1)
      qed
    qed
  qed blast
qed

lemma accounted_goto:
  assumes "accounted v0 c" and "notifying (pc_of c g) = None" and "sent_hooks c' = sent_hooks c"
    and "pc_of c' = (pc_of c)(g := p)"
    and "\<And>k j. invoices (shared c') k = Some j \<Longrightarrow> Status j = StatusPaid \<Longrightarrow>
          invoices (shared c) k = Some j \<or> (\<exists>i. notifying p = Some i \<and> ID i = k)"
  shows "accounted v0 c'"
proof (rule accounted_frame [OF assms(1)])
  show "(\<exists>h. notifying (pc_of c' h) = Some i) \<or> i \<in> set (sent_hooks c')" if "notifying (pc_of c h) = Some i" for h i
  proof -
    have "h \<noteq> g" using that assms(2) by auto
    then have "notifying (pc_of c' h) = Some i" using that by (simp add: assms(4))
    then show ?thesis by blast
  qed
  show "invoices (shared c) k = Some j \<or> (\<exists>h i. notifying (pc_of c' h) = Some i \<and> ID i = k)"
    if "invoices (shared c') k = Some j" "Status j = StatusPaid" for k j
    using assms(5) [OF that] by (auto simp: assms(4))
qed (simp add: assms(3))

lemma claim_paid:
  assumes "ClaimInvoiceForSettlement memory_store w s k tx t = ((b, e), s')" and "invoices s' k' = Some j"
  shows "invoices s k' = Some j \<or> b \<and> e = None \<and> k' = k"
proof -
  have "replace_pending (disk_io w) s k (\<lambda>i. settled i tx t) = ((b, e), s')"
    using assms(1) by (simp add: mem_claim_replace)
  then show ?thesis using assms(2) by (cases rule: replace_pending_cases) (auto split: if_splits)
qed

lemma expire_paid:
  assumes "ExpireInvoice memory_store w s k = (r, s')" and "invoices s' k' = Some j" and "Status j = StatusPaid"
  shows "invoices s k' = Some j"
proof -
  obtain b e where "replace_pending (disk_io w) s k expired = ((b, e), s')"
    using assms(1) by (cases r) (simp add: mem_expire_replace)
  then show ?thesis
    using assms(2,3) by (cases rule: replace_pending_cases) (auto simp: expired_def split: if_splits)
qed

lemma create_paid:
  assumes "mem_inv s" and "invoices s (ID i) = None" and "nul_free (PayTo i)" and "pending i"
    and "CreateInvoice memory_store w s i = (r, s')" and "invoices s' k = Some j" and "Status j = StatusPaid"
  shows "invoices s k = Some j"
proof -
  have "mem_create w s i = (r, s')" using assms(5) by simp
  from assms(1,3,2) this show ?thesis
    by (cases rule: mem_create_cases) (use assms(4,6,7) in \<open>auto split: if_splits\<close>)
qed

lemma accounted_move:
  assumes "mem_inv (shared c)" and "accounted v0 c" and "move memory_store invoices proc True l c c'" and "l \<noteq> Crash"
  shows "accounted v0 c'"
  using assms(3)
proof cases
  case (expire g i w r s')
  show ?thesis
    by (rule accounted_goto [OF assms(2), where g = g]) (use expire expire_paid in auto)
next
  case (won g key i tx w t s')
  have keep: "invoices (shared c) k = Some j \<or> ID i = k" if "invoices s' k = Some j" for k j
    using claim_paid [OF won(4) that] by blast
  let ?p = "Notify key (settled i tx t)"
  show ?thesis
  proof (rule accounted_goto [OF assms(2), where g = g and p = ?p])
    show "invoices (shared c) k = Some j \<or> (\<exists>i'. notifying ?p = Some i' \<and> ID i' = k)"
      if "invoices (shared c') k = Some j" for k j
      using keep [of k j] that won(2) by auto
  qed (use won in simp_all)
next
  case (lost g key i tx w t b e s')
  have "invoices (shared c) k = Some j" if "invoices s' k = Some j" for k j
    using claim_paid [OF lost(4) that] lost(5) by blast
  then show ?thesis
    by (intro accounted_goto [OF assms(2), where g = g]) (use lost in auto)
next
  case (notify g key i)
  have "(\<exists>h'. notifying (pc_of c' h') = Some i') \<or> i' \<in> set (sent_hooks c')" if "notifying (pc_of c h) = Some i'" for h i'
  proof (cases "h = g")
    case True
    then show ?thesis using notify that by simp
  next
    case False
    then have "notifying (pc_of c' h) = Some i'" using notify that by simp
    then show ?thesis by blast
  qed
  then show ?thesis
    by (rule accounted_frame [OF assms(2), rotated]) (use notify in auto)
next
  case (create i w r s')
  then have "invoices (shared c) k = Some j" if "invoices s' k = Some j" "Status j = StatusPaid" for k j
    using create_paid [OF assms(1)] that by blast
  then show ?thesis
    by (intro accounted_frame [OF assms(2)]) (use create in auto)
qed (use assms(4) in simp; rule accounted_goto [OF assms(2)]; simp)+

definition alive_step :: "(nat \<Rightarrow> nat) \<Rightarrow> memory config \<Rightarrow> memory config \<Rightarrow> bool" where
  "alive_step proc c c' \<longleftrightarrow> (\<exists>l. l \<noteq> Crash \<and> move memory_store invoices proc True l c c')"

lemma paid_is_accounted:
  assumes "mem_inv s" and "(alive_step proc)\<^sup>*\<^sup>* (start s) c"
  shows "mem_inv (shared c) \<and> accounted (invoices s) c"
  using assms(2)
proof (induction rule: rtranclp_induct)
  case base
  then show ?case using assms(1) by (auto simp: start_def accounted_def)
next
  case (step c c')
  then obtain l where "l \<noteq> Crash" "move memory_store invoices proc True l c c'"
    by (auto simp: alive_step_def)
  then show ?case using step.IH mem.move_inv accounted_move by blast
qed

text \<open>
  No notification is lost. With the in-memory store and a webhook configured, as long as no
  process dies, every invoice that is paid was paid at the start, has been handed to the
  webhook, or is about to be by a goroutine that has committed the claim and has not yet called
  it. A failing disk does not change this: a claim that cannot be written is undone, and then
  nothing is announced.
\<close>

theorem no_notification_lost:
  assumes "mem_inv s" and "(alive_step proc)\<^sup>*\<^sup>* (start s) c"
    and "invoices (shared c) k = Some j" and "Status j = StatusPaid"
  shows "(\<exists>j0. invoices s k = Some j0 \<and> Status j0 = StatusPaid) \<or> k \<in> ID ` set (sent_hooks c)
     \<or> (\<exists>g i. notifying (pc_of c g) = Some i \<and> ID i = k)"
proof -
  from paid_is_accounted [OF assms(1,2)] have "accounted (invoices s) c" by blast
  then show ?thesis using assms(3,4) unfolding accounted_def by blast
qed

text \<open>The goroutine of \<open>locked_config\<close> goes on, claims and notifies.\<close>

definition paid_memory :: memory where
  "paid_memory = snd (mem_claim check_world sample_memory ''inv_1'' ''tx'' 5000)"

lemma paid_memory_claim:
  "mem_claim check_world sample_memory ''inv_1'' ''tx'' 5000 = ((True, None), paid_memory)"
  "invoices paid_memory ''inv_1'' = Some (settled sample_invoice ''tx'' 5000)"
  by (simp_all add: paid_memory_def mem_claim_def check_world_def world_def sample_memory_def sample_invoice_def
      persist_def settled_def Let_def)

lemma notified_run:
  "\<exists>c. (alive_step (\<lambda>_. 0))\<^sup>*\<^sup>* (start sample_memory) c \<and> shared c = paid_memory
     \<and> sent_hooks c = [settled sample_invoice ''tx'' 5000] \<and> (\<forall>g. notifying (pc_of c g) = None)"
proof -
  let ?m = "move memory_store invoices (\<lambda>_ :: nat. 0 :: nat) True (Handler 3)"
  define c1 where "c1 = goto 3 (Claiming ''inv_1'' sample_invoice ''tx'') locked_config"
  define c2 where "c2 = goto 3 (Notify ''inv_1'' (settled sample_invoice ''tx'' 5000)) (c1\<lparr>shared := paid_memory\<rparr>)"
  define c3 where "c3 = goto 3 (Unlocking ''inv_1'')
    (c2\<lparr>sent_hooks := (if True then sent_hooks c2 @ [settled sample_invoice ''tx'' 5000] else sent_hooks c2)\<rparr>)"
  have i: "ID sample_invoice = ''inv_1''" "pending sample_invoice" by (simp_all add: sample_invoice_def)
  have "?m locked_config c1" unfolding c1_def
    by (rule move.reread [where w = check_world and iid = "''inv_1''"])
      (simp_all add: locked_config_def start_def mem_get_def sample_memory_def i)
  moreover have "?m c1 c2" unfolding c2_def
    by (rule move.won [where w = check_world])
      (use paid_memory_claim(1) in \<open>simp_all add: c1_def locked_config_def start_def i\<close>)
  moreover have "?m c2 c3" unfolding c3_def by (rule move.notify) (simp add: c2_def)
  ultimately have "?m\<^sup>*\<^sup>* (start sample_memory) c3"
    using locked_run unfolding runs_to_def by (meson rtranclp.rtrancl_into_rtrancl)
  then have "(alive_step (\<lambda>_. 0))\<^sup>*\<^sup>* (start sample_memory) c3"
    by (rule rtranclp_mono [THEN predicate2D, rotated]) (auto simp: alive_step_def)
  then show ?thesis
    by (intro exI [of _ c3]) (simp add: c3_def c2_def c1_def locked_config_def start_def)
qed

theorem no_notification_lost_witness:
  "\<exists>c :: memory config. invoices (shared c) ''inv_1'' = Some (settled sample_invoice ''tx'' 5000)
     \<and> ''inv_1'' \<in> ID ` set (sent_hooks c)"
proof -
  obtain c where c: "(alive_step (\<lambda>_. 0))\<^sup>*\<^sup>* (start sample_memory) c" "shared c = paid_memory"
    "\<forall>g. notifying (pc_of c g) = None" using notified_run by blast
  have paid: "invoices (shared c) ''inv_1'' = Some (settled sample_invoice ''tx'' 5000)"
    using paid_memory_claim(2) c(2) by simp
  have unpaid: "\<not> (\<exists>j0. invoices sample_memory ''inv_1'' = Some j0 \<and> Status j0 = StatusPaid)"
    by (simp add: sample_memory_def sample_invoice_def)
  have "Status (settled sample_invoice ''tx'' 5000) = StatusPaid" by simp
  from no_notification_lost [OF conjunct1 [OF sample_mem_inv] c(1) paid this] unpaid
  have "''inv_1'' \<in> ID ` set (sent_hooks c)" using c(3) by (elim disjE) simp_all
  with paid show ?thesis by blast
qed

end
