(* ===== verification/Bounded_Runs.thy ===== *)
theory Bounded_Runs
  imports Prelude
begin

text \<open>
  What the concurrent parts of the service promise about ending, as an interface: while its
  invariant holds, every step uses up work and whoever is not over has a step.  The poller's tick
  and the webhook's deliveries provide it; the lemmas here are what main relies on when it waits
  for them.
\<close>

locale bounded_runs =
  fixes step :: "'s \<Rightarrow> 's \<Rightarrow> bool"
    and left :: "'s \<Rightarrow> nat"
    and good :: "'s \<Rightarrow> bool"
    and over :: "'s \<Rightarrow> bool"
  assumes good_step: "good s \<Longrightarrow> step s s' \<Longrightarrow> good s'"
    and step_less: "good s \<Longrightarrow> step s s' \<Longrightarrow> left s' < left s"
    and step_exists: "good s \<Longrightarrow> \<not> over s \<Longrightarrow> \<exists>s'. step s s'"
begin

lemma run_bounded:
  assumes "(step ^^ k) s s'" and "good s"
  shows "good s' \<and> k + left s' \<le> left s"
  using assms
proof (induction k arbitrary: s')
  case (Suc k)
  then obtain d where d: "(step ^^ k) s d" "step d s'" by auto
  with Suc have "good d" "k + left d \<le> left s" by blast+
  with good_step [OF _ d(2)] step_less [OF _ d(2)] show ?case by simp
qed simp

lemma good_run: "step\<^sup>*\<^sup>* s s' \<Longrightarrow> good s \<Longrightarrow> good s'"
  using run_bounded by (auto simp: rtranclp_power)

text \<open>However far a run has come, it can be completed, and it cannot be extended for ever.\<close>

lemma run_completes:
  assumes "good s"
  shows "\<exists>s'. step\<^sup>*\<^sup>* s s' \<and> over s'"
  using assms
proof (induction "left s" arbitrary: s rule: less_induct)
  case less
  show ?case
  proof (cases "over s")
    case False
    with less.prems step_exists obtain s1 where s1: "step s s1" by blast
    with less good_step step_less obtain s' where "step\<^sup>*\<^sup>* s1 s'" "over s'" by blast
    with s1 show ?thesis by (meson converse_rtranclp_into_rtranclp)
  qed blast
qed

lemma stuck_is_over: "good s \<Longrightarrow> \<forall>s'. \<not> step s s' \<Longrightarrow> over s"
  using step_exists by blast

end

end
