(* ===== verification/Poller.thy ===== *)
theory Poller
  imports Settlement_Stores Bounded_Runs
begin

text \<open>
  internal/poller/poller.go: the background poller.  One tick lists the pending invoices and
  checks each in a goroutine of its own, at most \<open>concurrency\<close> at a time; it is a step relation
  over the loop's position and the goroutines that run.  A check is one step here; that its
  interleavings with other checks do no harm is shown in \<open>Settlement\<close>.  Between the steps other
  requests may change the system as a relation \<open>R\<close> allows, and \<open>ok\<close> says which surroundings a
  check may meet.
\<close>

section \<open>The code\<close>

record ('s, 'w, 'e, 'v) Poller =
  poll_svc :: "('s, 'w, 'e, 'v) Service"
  interval :: duration
  concurrency :: int

definition NewPoller :: "('s, 'w, 'e, 'v) Service \<Rightarrow> duration \<Rightarrow> int \<Rightarrow> ('s, 'w, 'e, 'v) Poller" where
  "NewPoller svc every n = \<lparr>poll_svc = svc, interval = (if every \<le> 0 then 10 * Second else every),
     concurrency = (if n < 1 then 4 else n)\<rparr>"

text \<open>The loop over the list, waiting for the goroutines, and having returned.\<close>

datatype phase = Looping | Draining | Finished

record ('s, 'v) tick =
  tsys :: "('s, 'v) system"
  cancelled :: bool
  phase :: phase
  todo :: "invoice list"
  running :: "invoice list"
  checked :: "invoice list"

definition tick_start :: "('s, 'w, 'e, 'v) Poller \<Rightarrow> 'w \<Rightarrow> bool \<Rightarrow> ('s, 'v) system \<Rightarrow> ('s, 'v) tick" where
  "tick_start p w c sys =
     (let l = ServiceListPending (poll_svc p) w (db sys) in
      \<lparr>tsys = sys, cancelled = c, phase = (if l = [] then Finished else Looping), todo = l,
       running = [], checked = []\<rparr>)"

inductive tick_step ::
  "('s, 'w, 'e, 'v) Poller \<Rightarrow> (('w, 'e) check_env \<Rightarrow> ('s, 'v) system \<Rightarrow> bool)
    \<Rightarrow> (('s, 'v) system \<Rightarrow> ('s, 'v) system \<Rightarrow> bool) \<Rightarrow> ('s, 'v) tick \<Rightarrow> ('s, 'v) tick \<Rightarrow> bool"
  for p :: "('s, 'w, 'e, 'v) Poller" and ok R where
  spawn: "phase c = Looping \<Longrightarrow> todo c = i # rest \<Longrightarrow> int (length (running c)) < concurrency p \<Longrightarrow>
    tick_step p ok R c (c\<lparr>todo := rest, running := running c @ [i]\<rparr>)"
| abandon: "phase c = Looping \<Longrightarrow> todo c \<noteq> [] \<Longrightarrow> cancelled c \<Longrightarrow>
    tick_step p ok R c (c\<lparr>phase := Draining\<rparr>)"
| exhausted: "phase c = Looping \<Longrightarrow> todo c = [] \<Longrightarrow> tick_step p ok R c (c\<lparr>phase := Draining\<rparr>)"
| check: "i \<in> set (running c) \<Longrightarrow> ok env (tsys c) \<Longrightarrow>
    CheckStatus (poll_svc p) env (ID i) (tsys c) = (a, sys') \<Longrightarrow>
    tick_step p ok R c (c\<lparr>tsys := sys', running := remove1 i (running c), checked := checked c @ [i]\<rparr>)"
| drained: "phase c = Draining \<Longrightarrow> running c = [] \<Longrightarrow> tick_step p ok R c (c\<lparr>phase := Finished\<rparr>)"
| cancel: "\<not> cancelled c \<Longrightarrow> tick_step p ok R c (c\<lparr>cancelled := True\<rparr>)"
| others: "R (tsys c) sys' \<Longrightarrow> tick_step p ok R c (c\<lparr>tsys := sys'\<rparr>)"

definition ticks where
  "ticks p ok R = (tick_step p ok R)\<^sup>*\<^sup>*"

text \<open>
  \<open>Run\<close>: each round waits for the ticker or the cancellation; a tick is always finished before
  the next round.  The relation gives the systems the loop can be at between its ticks, and
  whether it has stopped.
\<close>

inductive Run ::
  "('s, 'w, 'e, 'v) Poller \<Rightarrow> (('w, 'e) check_env \<Rightarrow> ('s, 'v) system \<Rightarrow> bool)
    \<Rightarrow> (('s, 'v) system \<Rightarrow> ('s, 'v) system \<Rightarrow> bool) \<Rightarrow> ('s, 'v) system \<Rightarrow> ('s, 'v) system \<Rightarrow> bool \<Rightarrow> bool \<Rightarrow> bool"
  for p :: "('s, 'w, 'e, 'v) Poller" and ok R sys0 where
  begun: "Run p ok R sys0 sys0 c False"
| waited: "Run p ok R sys0 sys c False \<Longrightarrow> R sys sys' \<Longrightarrow> Run p ok R sys0 sys' c False"
| ctx_done: "Run p ok R sys0 sys False False \<Longrightarrow> Run p ok R sys0 sys True False"
| ticked: "Run p ok R sys0 sys c False \<Longrightarrow> ticks p ok R (tick_start p w c sys) t \<Longrightarrow>
    phase t = Finished \<Longrightarrow> Run p ok R sys0 (tsys t) (cancelled t) False"
| stopped: "Run p ok R sys0 sys True False \<Longrightarrow> Run p ok R sys0 sys True True"

section \<open>The shape of a tick\<close>

text \<open>
  What every reachable tick of a list \<open>l\<close> looks like: the list is what is still to do after
  what has been started, and what has been started runs or has been checked.
\<close>

definition tick_shape :: "int \<Rightarrow> invoice list \<Rightarrow> ('s, 'v) tick \<Rightarrow> bool" where
  "tick_shape n l c \<longleftrightarrow>
     (\<exists>started. l = started @ todo c \<and> mset started = mset (running c) + mset (checked c))
     \<and> int (length (running c)) \<le> n
     \<and> (phase c \<noteq> Looping \<longrightarrow> \<not> cancelled c \<longrightarrow> todo c = [])
     \<and> (phase c = Finished \<longrightarrow> running c = [])"

lemma tick_shape_start:
  "0 \<le> n \<Longrightarrow> tick_shape n (ServiceListPending (poll_svc p) w (db sys)) (tick_start p w c sys)"
  by (simp add: tick_shape_def tick_start_def Let_def)

lemma tick_shape_step:
  assumes "tick_shape (concurrency p) l c" and "tick_step p ok R c c'"
  shows "tick_shape (concurrency p) l c'"
proof -
  from assms(1) obtain started where s: "l = started @ todo c"
    "mset started = mset (running c) + mset (checked c)" by (auto simp: tick_shape_def)
  show ?thesis
    using assms(2)
  proof cases
    case (spawn i rest)
    have "l = (started @ [i]) @ todo c'" "mset (started @ [i]) = mset (running c') + mset (checked c')"
      using s spawn by simp_all
    then have "\<exists>started. l = started @ todo c' \<and> mset started = mset (running c') + mset (checked c')" by blast
    then show ?thesis using assms(1) spawn by (simp add: tick_shape_def)
  next
    case (check i env a sys')
    have "mset started = mset (running c') + mset (checked c')"
      using s(2) check(1,2) by simp
    moreover have "length (remove1 i (running c)) \<le> length (running c)" by (simp add: length_remove1)
    ultimately show ?thesis using assms(1) s(1) check(1,2) by (auto simp: tick_shape_def)
  qed (use assms(1) in \<open>auto simp: tick_shape_def\<close>)
qed

lemma ticks_shape:
  assumes "ticks p ok R c0 c" and "tick_shape (concurrency p) l c0"
  shows "tick_shape (concurrency p) l c"
  using assms unfolding ticks_def
  by (induction rule: rtranclp_induct) (auto intro: tick_shape_step)

text \<open>
  C25: The poller's workload is bounded and complete. At every moment of a tick at most
  \<open>concurrency\<close> checks are running, every listed invoice is checked at most once, in the order
  of the list as far as starting goes, and when a tick returns nothing is still running and, if
  it was not cancelled, every listed invoice has been checked exactly once.
\<close>

theorem tick_is_bounded_and_complete:
  assumes "p = NewPoller svc every n" and "ticks p ok R (tick_start p w c0 sys) c"
  shows "int (length (running c)) \<le> (if n < 1 then 4 else n)
    \<and> (\<exists>started. ServiceListPending svc w (db sys) = started @ todo c
         \<and> mset (running c) + mset (checked c) = mset started)
    \<and> (phase c = Finished \<longrightarrow> running c = [] \<and>
         (\<not> cancelled c \<longrightarrow> mset (checked c) = mset (ServiceListPending svc w (db sys))))"
proof -
  have p: "concurrency p = (if n < 1 then 4 else n)" "poll_svc p = svc" by (simp_all add: assms(1) NewPoller_def)
  have "tick_shape (concurrency p) (ServiceListPending svc w (db sys)) c"
    using ticks_shape [OF assms(2) tick_shape_start] p by simp
  then show ?thesis unfolding tick_shape_def p(1) by auto
qed

section \<open>A tick ends\<close>

definition work :: "('s, 'v) tick \<Rightarrow> nat" where
  "work c = 2 * length (todo c) + length (running c)
     + (case phase c of Looping \<Rightarrow> 2 | Draining \<Rightarrow> 1 | Finished \<Rightarrow> 0) + (if cancelled c then 0 else 1)"

lemma work_decreases:
  assumes "tick_step p ok (\<lambda>_ _. False) c c'"
  shows "work c' < work c"
  using assms
proof cases
  case (check i env a sys')
  then have "length (running c') < length (running c)"
    using length_pos_if_in_set [of i "running c"] by (simp add: length_remove1)
  then show ?thesis using check(1) by (simp add: work_def)
qed (auto simp: work_def)

lemma tick_progress:
  assumes "0 < concurrency p" and "\<And>s. \<exists>env. ok env s" and "phase c \<noteq> Finished"
  shows "\<exists>c'. tick_step p ok R c c' \<and> cancelled c' = cancelled c"
proof (cases "running c")
  case (Cons i rest)
  obtain env where "ok env (tsys c)" using assms(2) by blast
  moreover obtain a sys' where "CheckStatus (poll_svc p) env (ID i) (tsys c) = (a, sys')" by (metis surj_pair)
  moreover have "i \<in> set (running c)" by (simp add: Cons)
  ultimately have "tick_step p ok R c
      (c\<lparr>tsys := sys', running := remove1 i (running c), checked := checked c @ [i]\<rparr>)" (is "tick_step _ _ _ _ ?c")
    by (intro tick_step.check)
  then show ?thesis by (intro exI [of _ ?c]) simp
next
  case Nil
  show ?thesis
  proof (cases "phase c")
    case Draining
    from tick_step.drained [OF this Nil] show ?thesis by fastforce
  next
    case Looping
    show ?thesis
    proof (cases "todo c")
      case todo: Nil
      from tick_step.exhausted [OF Looping todo] show ?thesis by fastforce
    next
      case (Cons i rest)
      from tick_step.spawn [OF Looping Cons] assms(1) Nil show ?thesis by fastforce
    qed
  qed (use assms(3) in simp)
qed

interpretation tick: bounded_runs "tick_step p ok (\<lambda>_ _. False)" work
    "\<lambda>_. 0 < concurrency p \<and> (\<forall>s. \<exists>env. ok env s)" "\<lambda>c. phase c = Finished"
  for p :: "('s, 'w, 'e, 'v) Poller" and ok
  by unfold_locales (use tick_progress [of p ok] work_decreases [of p ok] in blast)+

text \<open>
  C24: A tick always ends. When nothing outside interferes it takes at most two steps per listed
  invoice and three more, and until it has returned the poller itself always has a next step,
  cancelled or not; so it cannot run forever and cannot get stuck.
\<close>

theorem tick_terminates:
  assumes "p = NewPoller svc every n" and "\<And>s. \<exists>env. ok env s"
    and "(tick_step p ok (\<lambda>_ _. False) ^^ k) (tick_start p w c0 sys) c"
  shows "k \<le> 2 * length (ServiceListPending svc w (db sys)) + 3
    \<and> (phase c \<noteq> Finished \<longrightarrow> (\<exists>c'. tick_step p ok (\<lambda>_ _. False) c c' \<and> cancelled c' = cancelled c))"
proof -
  have p: "0 < concurrency p" "poll_svc p = svc" by (simp_all add: assms(1) NewPoller_def)
  have "work (tick_start p w c0 sys) \<le> 2 * length (ServiceListPending svc w (db sys)) + 3"
    by (simp add: work_def tick_start_def p(2) Let_def)
  then show ?thesis using tick.run_bounded [OF assms(3)] tick_progress [OF p(1) assms(2)] p(1) assms(2) by fastforce
qed

section \<open>What a tick achieves\<close>

text \<open>In these surroundings a check of the pending invoice would settle or expire it.\<close>

definition due :: "('s, 'w, 'e, 'v) Service \<Rightarrow> ('w, 'e) check_env \<Rightarrow> ('s, 'v) system \<Rightarrow> invoice \<Rightarrow> bool" where
  "due svc env sys i = (case fst (svc_verifier svc (outside env) (verifier_state sys) i) of
     ((paid, tx), err) \<Rightarrow>
       if paid \<and> err = None then nul_free tx else ExpiresAt i \<noteq> 0 \<and> ExpiresAt i < check_time env)"

definition good_env :: "('w \<Rightarrow> 's \<Rightarrow> bool) \<Rightarrow> ('w, 'e) check_env \<Rightarrow> 's \<Rightarrow> bool" where
  "good_env h env s \<longleftrightarrow> h (get_world env) s \<and> h (reread_world env) s \<and> h (change_world env) s"

lemma develops_pending: "develops i j \<Longrightarrow> pending j \<Longrightarrow> j = i"
  by (auto simp: develops_def)

lemma develops_not_pending:
  assumes "ledger_develops v v'" and "v k \<noteq> None" and "\<not> is_pending v k"
  shows "\<not> is_pending v' k"
proof -
  obtain i where i: "v k = Some i" "\<not> pending i" using assms(2,3) by (auto simp: is_pending_def)
  show ?thesis using ledger_develops_terminal [OF assms(1) i] i(2) by (simp add: is_pending_def)
qed

inductive request ::
  "('s, 'w, 'e, 'v) Service \<Rightarrow> ('s \<Rightarrow> ledger) \<Rightarrow> ('s, 'v) system \<Rightarrow> ('s, 'v) system \<Rightarrow> bool"
  for svc :: "('s, 'w, 'e, 'v) Service" and vw :: "'s \<Rightarrow> ledger" where
  status: "CheckStatus svc env iid s = (a, s') \<Longrightarrow> request svc vw s s'"
| create: "fresh_draws (vw (db s)) env \<Longrightarrow> ServiceCreate svc env payTo n ttl md (db s) = (r, s1) \<Longrightarrow>
    request svc vw s (s\<lparr>db := s1\<rparr>)"

definition announced_once :: "(gtime \<Rightarrow> gtime) \<Rightarrow> ledger \<Rightarrow> invoice list \<Rightarrow> bool" where
  "announced_once stamp v fs \<longleftrightarrow> distinct (map ID fs) \<and> (\<forall>f \<in> set fs. announced stamp v f)"

lemma announced_once_mono:
  "ledger_develops v v' \<Longrightarrow> announced_once stamp v fs \<Longrightarrow> announced_once stamp v' fs"
  using announced_mono by (auto simp: announced_once_def)

context invoice_store
begin

lemma check_clears:
  assumes "inv (db sys)" and "svc_st svc = st" and "view (db sys) k = Some j" and "develops i j" and "ID i = k"
    and "good_env healthy env (db sys)" and "due svc env sys i"
    and "CheckStatus svc env k sys = (a, sys')"
  shows "\<not> is_pending (view (db sys')) k"
proof (cases "pending j")
  case False
  then have "sys' = sys" using CheckStatus_terminal [OF assms(1,2,3) False assms(8)] by simp
  then show ?thesis using assms(3) False by (simp add: is_pending_def)
next
  case True
  then have j: "j = i" using assms(4) develops_pending by blast
  note v0 = assms(3) [unfolded j] and p = True [unfolded j]
  note h = assms(6) [unfolded good_env_def]
  obtain paid tx err v' where v: "svc_verifier svc (outside env) (verifier_state sys) i = (((paid, tx), err), v')"
    by (metis surj_pair)
  show ?thesis
  proof (cases "paid \<and> err = None")
    case True
    then have "nul_free tx" using assms(7) v by (simp add: due_def)
    from CheckStatus_paid [OF assms(1,2) v0 p _ _ _ this _ assms(8)] h v True
    show ?thesis by (auto simp: is_pending_def)
  next
    case False
    then have "ExpiresAt i \<noteq> 0 \<and> ExpiresAt i < check_time env" using assms(7) v by (simp add: due_def)
    with CheckStatus_unpaid [OF assms(1,2) v0 p _ _ v False assms(8)] h
    show ?thesis by (auto simp: is_pending_def)
  qed
qed

text \<open>What the handlers of requests do meanwhile, and what has been announced so far.\<close>

lemma check_announced:
  assumes "inv (db sys)" and "svc_st svc = st" and "CheckStatus svc env iid sys = (a, sys')"
    and "announced_once stamp (view (db sys)) (fired sys)"
  shows "announced_once stamp (view (db sys')) (fired sys')"
proof -
  note law = CheckStatus_law [OF assms(1-3)]
  then have dev: "ledger_develops (view (db sys)) (view (db sys'))" by blast
  from law consider "fired sys' = fired sys"
    | i tx where "view (db sys) iid = Some i" "pending i" "ID i = iid"
        "view (db sys') = (view (db sys))(iid \<mapsto> settled i tx (stamp (settle_time env)))"
        "fired sys' = fired sys @ [settled i tx (settle_time env)]" by blast
  then show ?thesis
  proof cases
    case 1
    then show ?thesis using announced_once_mono [OF dev assms(4)] by simp
  next
    case (2 i tx)
    then have "is_pending (view (db sys)) iid" by (simp add: is_pending_def)
    then have "iid \<notin> ID ` set (fired sys)"
      using assms(4) announced_not_pending unfolding announced_once_def by blast
    moreover have "announced stamp (view (db sys')) (settled i tx (settle_time env))"
      using 2 by (auto simp: announced_def)
    ultimately show ?thesis
      using announced_once_mono [OF dev assms(4)] 2(3,5) by (auto simp: announced_once_def)
  qed
qed

lemma request_law:
  assumes "inv (db s)" and "svc_st svc = st" and "nul_free (svc_defaultPayTo svc)" and "request svc view s s'"
  shows "inv (db s') \<and> ledger_develops (view (db s)) (view (db s'))
    \<and> (announced_once stamp (view (db s)) (fired s) \<longrightarrow> announced_once stamp (view (db s')) (fired s'))"
  using assms(4)
proof cases
  case (status env iid a)
  then show ?thesis using CheckStatus_law [OF assms(1,2)] check_announced [OF assms(1,2)] by blast
next
  case (create env payTo n ttl md r s1)
  note law = ServiceCreate_law [OF assms(1,2,3) create(2,3)]
  have dev: "ledger_develops (view (db s)) (view s1)"
    using law by (auto split: outcome.splits service_error.splits intro: ledger_develops_new)
  then show ?thesis using law create(1) announced_once_mono [OF dev] by auto
qed

text \<open>The system a tick works on, and what the checks made so far have done to it.\<close>

definition tick_inv :: "(invoice \<Rightarrow> bool) \<Rightarrow> ledger \<Rightarrow> invoice list \<Rightarrow> ('s, 'v) tick \<Rightarrow> bool" where
  "tick_inv D v0 l c \<longleftrightarrow> inv (db (tsys c)) \<and> ledger_develops v0 (view (db (tsys c)))
     \<and> set (running c) \<union> set (todo c) \<union> set (checked c) \<subseteq> set l
     \<and> (\<forall>i \<in> set (checked c). D i \<longrightarrow> \<not> is_pending (view (db (tsys c))) (ID i))"

lemma tick_inv_db:
  assumes "tick_inv D v0 l c" and "inv (db (tsys c'))"
    and "ledger_develops (view (db (tsys c))) (view (db (tsys c')))"
    and "set (running c') \<union> set (todo c') \<union> set (checked c') \<subseteq> set l"
    and "\<And>i. i \<in> set (checked c') \<Longrightarrow> i \<in> set (checked c) \<or> (D i \<longrightarrow> \<not> is_pending (view (db (tsys c'))) (ID i))"
    and "\<And>i. i \<in> set l \<Longrightarrow> v0 (ID i) = Some i"
  shows "tick_inv D v0 l c'"
proof -
  have dev: "ledger_develops v0 (view (db (tsys c')))"
    using assms(1,3) ledger_develops_trans unfolding tick_inv_def by blast
  have "\<not> is_pending (view (db (tsys c'))) (ID i)" if "i \<in> set (checked c')" "D i" for i
    using assms(5) [OF that(1)]
  proof
    assume i: "i \<in> set (checked c)"
    then have "v0 (ID i) = Some i" using assms(1,6) unfolding tick_inv_def by blast
    then have "view (db (tsys c)) (ID i) \<noteq> None"
      using assms(1) unfolding tick_inv_def ledger_develops_def by fastforce
    then show ?thesis using develops_not_pending [OF assms(3)] assms(1) i that(2) unfolding tick_inv_def by blast
  qed (use that(2) in blast)
  then show ?thesis using assms(2,4) dev unfolding tick_inv_def by blast
qed

lemma tick_inv_step:
  assumes "svc_st (poll_svc p) = st" and "tick_inv D v0 l c" and "tick_step p ok R c c'"
    and "\<And>i. i \<in> set l \<Longrightarrow> v0 (ID i) = Some i"
    and R: "\<And>s s'. R s s' \<Longrightarrow> inv (db s) \<Longrightarrow> inv (db s') \<and> ledger_develops (view (db s)) (view (db s'))"
    and ok: "\<And>env s. ok env s \<Longrightarrow> good_env healthy env (db s)"
    and D: "\<And>env s i. ok env s \<Longrightarrow> D i \<Longrightarrow> due (poll_svc p) env s i"
  shows "tick_inv D v0 l c'"
proof -
  have i0: "inv (db (tsys c))" "ledger_develops v0 (view (db (tsys c)))"
    "set (running c) \<union> set (todo c) \<union> set (checked c) \<subseteq> set l"
    using assms(2) unfolding tick_inv_def by blast+
  show ?thesis
    using assms(3)
  proof cases
    case (check i env a sys')
    note law = CheckStatus_law [OF i0(1) assms(1) check(4)]
    have il: "i \<in> set l" using check(2) i0(3) by blast
    then obtain j where j: "view (db (tsys c)) (ID i) = Some j" "develops i j"
      using assms(4) i0(2) unfolding ledger_develops_def by blast
    have "\<not> is_pending (view (db sys')) (ID i)" if "D i"
      using check_clears [OF i0(1) assms(1) j refl ok [OF check(3)] D [OF check(3) that] check(4)] .
    then show ?thesis
      using check(1) law il i0(3) set_remove1_subset [of i "running c"]
      by (intro tick_inv_db [OF assms(2) _ _ _ _ assms(4)]) auto
  next
    case (others sys')
    then show ?thesis
      using R [OF others(2) i0(1)] i0(3) by (intro tick_inv_db [OF assms(2) _ _ _ _ assms(4)]) auto
  qed (use i0 in \<open>intro tick_inv_db [OF assms(2) _ _ _ _ assms(4)]; auto\<close>)+
qed

lemma ticks_inv:
  assumes "ticks p ok R c0 c" and "svc_st (poll_svc p) = st" and "tick_inv D v0 l c0"
    and "\<And>i. i \<in> set l \<Longrightarrow> v0 (ID i) = Some i"
    and "\<And>s s'. R s s' \<Longrightarrow> inv (db s) \<Longrightarrow> inv (db s') \<and> ledger_develops (view (db s)) (view (db s'))"
    and "\<And>env s. ok env s \<Longrightarrow> good_env healthy env (db s)"
    and "\<And>env s i. ok env s \<Longrightarrow> D i \<Longrightarrow> due (poll_svc p) env s i"
  shows "tick_inv D v0 l c"
  using assms(1,3) unfolding ticks_def
  by (induction rule: rtranclp_induct) (auto intro: tick_inv_step [OF assms(2) _ _ assms(4-7)])

lemma tick_announced:
  assumes "ticks p ok R c0 c" and "svc_st (poll_svc p) = st" and "nul_free (svc_defaultPayTo (poll_svc p))"
    and "R = request (poll_svc p) view" and "inv (db (tsys c0))"
    and "announced_once stamp (view (db (tsys c0))) (fired (tsys c0))"
  shows "inv (db (tsys c)) \<and> ledger_develops (view (db (tsys c0))) (view (db (tsys c)))
    \<and> announced_once stamp (view (db (tsys c))) (fired (tsys c))"
  using assms(1,5,6) unfolding ticks_def
proof (induction rule: rtranclp_induct)
  case (step c c')
  let ?good = "\<lambda>s s'. inv (db s') \<and> ledger_develops (view (db s)) (view (db s'))
    \<and> announced_once stamp (view (db s')) (fired s')"
  have i: "?good (tsys c0) (tsys c)" using step by blast
  have "?good (tsys c) (tsys c')"
    using step(2)
  proof cases
    case (check i env a sys')
    then show ?thesis using CheckStatus_law [OF _ assms(2) check(4)] check_announced [OF _ assms(2) check(4)] i
      by simp
  next
    case (others sys')
    then show ?thesis using request_law [OF _ assms(2,3), of "tsys c" sys'] i assms(4) by simp
  qed (use i in simp_all)
  then show ?case using i ledger_develops_trans by blast
qed simp

lemma Run_announced:
  assumes "Run p ok R sys0 sys c fin" and "svc_st (poll_svc p) = st" and "nul_free (svc_defaultPayTo (poll_svc p))"
    and "R = request (poll_svc p) view" and "inv (db sys0)"
    and "announced_once stamp (view (db sys0)) (fired sys0)"
  shows "inv (db sys) \<and> ledger_develops (view (db sys0)) (view (db sys))
    \<and> announced_once stamp (view (db sys)) (fired sys)"
  using assms(1)
proof induction
  case (waited sys c sys')
  then show ?case using request_law [OF _ assms(2,3)] assms(4) ledger_develops_trans by blast
next
  case (ticked sys c w t)
  have "tsys (tick_start p w c sys) = sys" by (simp add: tick_start_def Let_def)
  then show ?case
    using tick_announced [OF ticked.hyps(2) assms(2-4)] ticked.IH ledger_develops_trans by metis
qed (use assms(5,6) in simp_all)

end

text \<open>
  C13: A tick does what the poller is for. On the in-memory store, when a tick returns without
  having been cancelled and its store accesses worked, no invoice that was pending at its start
  and was due, being paid or overdue as the checks saw it, is still pending, whatever requests
  were served meanwhile; nor has anything else than settlement, expiry and creation happened.
\<close>

theorem due_invoices_are_closed:
  assumes "p = NewPoller svc every n" and "svc_st svc = memory_store" and "nul_free (svc_defaultPayTo svc)"
    and "mem_inv (db sys)" and "mem_healthy w (db sys)"
    and "\<And>env s. ok env s \<Longrightarrow> good_env mem_healthy env (db s)"
    and "ticks p ok (request svc invoices) (tick_start p w c0 sys) c"
    and "phase c = Finished" and "\<not> cancelled c"
    and "invoices (db sys) k = Some i" and "pending i" and "\<And>env s. ok env s \<Longrightarrow> due svc env s i"
  shows "\<not> is_pending (invoices (db (tsys c))) k \<and> ledger_develops (invoices (db sys)) (invoices (db (tsys c)))"
proof -
  let ?l = "ServiceListPending svc w (db sys)"
  have p: "poll_svc p = svc" by (simp add: assms(1) NewPoller_def)
  have set_l: "set ?l = {i. invoices (db sys) (ID i) = Some i \<and> pending i}"
    using mem.list_pending_healthy [OF assms(4,5)] assms(2) by (simp add: ServiceListPending_def)
  have "mem.tick_inv (\<lambda>j. j = i) (invoices (db sys)) ?l (tick_start p w c0 sys)"
    using assms(4) by (simp add: mem.tick_inv_def tick_start_def p Let_def)
  then have t: "mem.tick_inv (\<lambda>j. j = i) (invoices (db sys)) ?l c"
    by (rule mem.ticks_inv [OF assms(7), unfolded p, OF assms(2)])
      (use set_l mem.request_law [OF _ assms(2,3)] assms(6,12) in blast)+
  have "ID i = k" using assms(4,10) by (simp add: mem_inv_def well_keyed_def)
  moreover from this have "i \<in> set ?l" using set_l assms(10,11) by simp
  moreover have "mset (checked c) = mset ?l"
    using tick_is_bounded_and_complete [OF assms(1,7)] assms(8,9) by blast
  then have "set (checked c) = set ?l" by (rule mset_eq_setD)
  ultimately show ?thesis using t unfolding mem.tick_inv_def by blast
qed

text \<open>
  However long the poller runs, and whatever requests are served between and during its
  ticks: on Postgres every invoice is announced at most once, each announced one is stored as
  paid by the transaction announced, and the table only develops.
\<close>

theorem polling_announces_once:
  assumes "Run (NewPoller svc every n) ok (request svc table) sys0 sys c fin"
    and "svc_st svc = postgres_store" and "nul_free (svc_defaultPayTo svc)" and "pg_inv (db sys0)" and "fired sys0 = []"
  shows "distinct (map ID (fired sys))
    \<and> (\<forall>f \<in> set (fired sys). \<exists>i tx t. f = settled i tx t
         \<and> table (db sys) (ID i) = Some (settled i tx (micro t)))
    \<and> ledger_develops (table (db sys0)) (table (db sys))"
proof -
  have p: "poll_svc (NewPoller svc every n) = svc" by (simp add: NewPoller_def)
  have "announced_once micro (table (db sys0)) (fired sys0)" by (simp add: announced_once_def assms(5))
  with pg.Run_announced [OF assms(1), unfolded p, OF assms(2,3) refl assms(4)]
  show ?thesis unfolding announced_once_def announced_def by blast
qed

section \<open>A tick on the sample store\<close>

text \<open>One listed invoice: it is started, the loop ends, it is checked, the tick returns.\<close>

lemma one_invoice_tick:
  assumes "p = NewPoller svc every n" and "ServiceListPending svc w (db sys) = [i]" and "ok env sys"
    and "CheckStatus svc env (ID i) sys = (a, sys')"
  shows "(tick_step p ok R ^^ 4) (tick_start p w False sys)
    \<lparr>tsys = sys', cancelled = False, phase = Finished, todo = [], running = [], checked = [i]\<rparr>"
proof -
  let ?c = "\<lambda>s ph td rn ck. \<lparr>tsys = s, cancelled = False, phase = ph, todo = td, running = rn, checked = ck\<rparr>"
  have p: "poll_svc p = svc" "0 < concurrency p" by (simp_all add: assms(1) NewPoller_def)
  have s: "tick_start p w False sys = ?c sys Looping [i] [] []" using assms(2) by (simp add: tick_start_def p Let_def)
  have m: "tick_step p ok R (?c sys Looping [i] [] []) (?c sys Looping [] [i] [])"
    "tick_step p ok R (?c sys Looping [] [i] []) (?c sys Draining [] [i] [])"
    "tick_step p ok R (?c sys Draining [] [i] []) (?c sys' Draining [] [] [i])"
    "tick_step p ok R (?c sys' Draining [] [] [i]) (?c sys' Finished [] [] [i])"
    using tick_step.spawn [of "?c sys Looping [i] [] []" i "[]" p ok R]
      tick_step.exhausted [of "?c sys Looping [] [i] []" p ok R]
      tick_step.check [of i "?c sys Draining [] [i] []" ok env p a sys' R]
      tick_step.drained [of "?c sys' Draining [] [] [i]" p ok R] assms(3,4) p
    by simp_all
  show ?thesis unfolding s using m by (simp add: numeral_eq_Suc) blast
qed

definition sample_shop :: "(memory, mem_world, string \<Rightarrow> http_outcome, unit) Service" where
  "sample_shop = NewService memory_store (TonVerify sample_verifier) [] 0 True"

definition sample_site :: "(memory, unit) system" where
  "sample_site = \<lparr>db = sample_memory, verifier_state = (), fired = []\<rparr>"

definition sample_ok :: "(mem_world, string \<Rightarrow> http_outcome) check_env \<Rightarrow> (memory, unit) system \<Rightarrow> bool" where
  "sample_ok env s \<longleftrightarrow> env = overdue_env \<and> good_env mem_healthy env (db s)"

lemma sample_site_facts:
  "svc_st sample_shop = memory_store" "nul_free (svc_defaultPayTo sample_shop)" "mem_inv (db sample_site)"
  "mem_healthy check_world (db sample_site)" "sample_ok overdue_env sample_site"
  "invoices (db sample_site) ''inv_1'' = Some sample_invoice" "pending sample_invoice" "ID sample_invoice = ''inv_1''"
  "ServiceListPending sample_shop check_world (db sample_site) = [sample_invoice]"
  using sample_mem_inv
  by (simp_all add: sample_shop_def NewService_def nul_free_def sample_site_def sample_ok_def good_env_def
      overdue_env_def mem_healthy_def mem_sane_def world_def check_world_def sample_memory_def sample_invoice_def
      ServiceListPending_def mem_list_pending_def range_invoices_def Let_def)

lemma sample_due: "due sample_shop overdue_env s sample_invoice"
  by (simp add: due_def sample_shop_def NewService_def TonVerify_def overdue_env_def sample_invoice_def Let_def)

lemma sample_tick:
  assumes "ok overdue_env sample_site"
  obtains c where "(tick_step (NewPoller sample_shop 0 0) ok R ^^ 4)
      (tick_start (NewPoller sample_shop 0 0) check_world False sample_site) c"
    and "phase c = Finished" and "\<not> cancelled c" and "checked c = [sample_invoice]"
proof -
  obtain a sys' where "CheckStatus sample_shop overdue_env (ID sample_invoice) sample_site = (a, sys')"
    by (metis surj_pair)
  from one_invoice_tick [where ok = ok and env = overdue_env and R = R, OF refl sample_site_facts(9) assms this]
  show thesis by (rule that) simp_all
qed

theorem tick_is_bounded_and_complete_witness:
  "\<exists>c. ticks (NewPoller sample_shop 0 0) sample_ok (request sample_shop invoices)
       (tick_start (NewPoller sample_shop 0 0) check_world False sample_site) c
     \<and> phase c = Finished \<and> mset (checked c) = {#sample_invoice#}"
proof -
  obtain c where c: "(tick_step (NewPoller sample_shop 0 0) sample_ok (request sample_shop invoices) ^^ 4)
      (tick_start (NewPoller sample_shop 0 0) check_world False sample_site) c" "phase c = Finished" "\<not> cancelled c"
    by (rule sample_tick [where ok = sample_ok, OF sample_site_facts(5)])
  have "ticks (NewPoller sample_shop 0 0) sample_ok (request sample_shop invoices)
       (tick_start (NewPoller sample_shop 0 0) check_world False sample_site) c"
    unfolding ticks_def by (rule relpowp_imp_rtranclp [OF c(1)])
  with tick_is_bounded_and_complete [OF refl this] c(2,3) sample_site_facts(9) show ?thesis
    by (intro exI [of _ c]) simp
qed

theorem tick_terminates_witness:
  "\<exists>c. (tick_step (NewPoller sample_shop 0 0) (\<lambda>env s. env = overdue_env) (\<lambda>_ _. False) ^^ 4)
       (tick_start (NewPoller sample_shop 0 0) check_world False sample_site) c
     \<and> phase c = Finished \<and> 4 \<le> 2 * length [sample_invoice] + 3"
proof -
  obtain c where c: "(tick_step (NewPoller sample_shop 0 0) (\<lambda>env s. env = overdue_env) (\<lambda>_ _. False) ^^ 4)
       (tick_start (NewPoller sample_shop 0 0) check_world False sample_site) c" "phase c = Finished"
    by (rule sample_tick [where ok = "\<lambda>env s. env = overdue_env", OF refl])
  show ?thesis
    using tick_terminates [OF refl _ c(1)] c sample_site_facts(9) by (intro exI [of _ c]) simp
qed

theorem due_invoices_are_closed_witness:
  "\<exists>c. ticks (NewPoller sample_shop 0 0) sample_ok (request sample_shop invoices)
       (tick_start (NewPoller sample_shop 0 0) check_world False sample_site) c
     \<and> is_pending (invoices (db sample_site)) ''inv_1'' \<and> \<not> is_pending (invoices (db (tsys c))) ''inv_1''"
proof -
  obtain c where c: "(tick_step (NewPoller sample_shop 0 0) sample_ok (request sample_shop invoices) ^^ 4)
      (tick_start (NewPoller sample_shop 0 0) check_world False sample_site) c" "phase c = Finished" "\<not> cancelled c"
    by (rule sample_tick [where ok = sample_ok, OF sample_site_facts(5)])
  have t: "ticks (NewPoller sample_shop 0 0) sample_ok (request sample_shop invoices)
       (tick_start (NewPoller sample_shop 0 0) check_world False sample_site) c"
    unfolding ticks_def by (rule relpowp_imp_rtranclp [OF c(1)])
  have ok: "good_env mem_healthy env (db s)" "due sample_shop env s sample_invoice" if "sample_ok env s" for env s
    using that sample_due by (auto simp: sample_ok_def)
  have "\<not> is_pending (invoices (db (tsys c))) ''inv_1''"
    using due_invoices_are_closed [OF refl sample_site_facts(1-4) ok(1) t c(2,3) sample_site_facts(6,7) ok(2)] by blast
  then show ?thesis using t sample_site_facts(6,7) by (intro exI [of _ c]) (simp add: is_pending_def)
qed

theorem polling_announces_once_witness:
  "\<exists>sys. Run (NewPoller capped_service 0 1) (\<lambda>_ _. True) (request capped_service table) late_system sys False False
     \<and> fired sys = [settled late_invoice ''mock-tx-TON-1'' 9000] \<and> distinct (map ID (fired sys))"
proof -
  obtain sys' where s: "CheckStatus capped_service late_env ''inv_1'' late_system
      = ((settled late_invoice ''mock-tx-TON-1'' 9000, None), sys')"
    "fired sys' = [settled late_invoice ''mock-tx-TON-1'' 9000]" by (rule late_check)
  have "micro_invoice late_invoice = late_invoice"
    by (simp add: late_invoice_def sample_row_invoice_def micro_invoice_def micro_def zero_invoice_def)
  then have l: "ServiceListPending capped_service (get_world late_env) (db late_system) = [late_invoice]"
    by (simp add: ServiceListPending_def capped_service_def SetLimits_def NewService_def pg_list_pending_def
        late_env_def scan_rows_def sql_query_def scan_row_of StatusPending_def Let_def)
  let ?t = "\<lparr>tsys = sys', cancelled = False, phase = Finished, todo = [], running = [], checked = [late_invoice]\<rparr>"
  have "ticks (NewPoller capped_service 0 1) (\<lambda>_ _. True) (request capped_service table)
      (tick_start (NewPoller capped_service 0 1) (get_world late_env) False late_system) ?t"
    unfolding ticks_def
    by (rule relpowp_imp_rtranclp [OF one_invoice_tick [where ok = "\<lambda>_ _. True" and env = late_env, OF refl l TrueI]])
      (use s in simp)
  from Run.ticked [OF Run.begun this]
  have r: "Run (NewPoller capped_service 0 1) (\<lambda>_ _. True) (request capped_service table) late_system sys' False False"
    by simp
  have "svc_st capped_service = postgres_store" "nul_free (svc_defaultPayTo capped_service)" "fired late_system = []"
    by (simp_all add: capped_service_def SetLimits_def NewService_def Let_def late_system_def nul_free_def)
  from polling_announces_once [OF r this(1,2) late_system_facts(1) this(3)] r s(2) show ?thesis by blast
qed

end
