(* ===== verification/Webhook.thy ===== *)
theory Webhook
  imports Store Go_Strings
begin

text \<open>
  internal/webhook/webhook.go: the signed notification of a settled invoice with its retries.
  A delivery is described by the trace of what it does: the requests it posts and the pauses
  between them.  The JSON encoder and HMAC-SHA256 are parameters (\<open>Merchant\<close> puts
  the encoder in), and so is the receiver, as the outcome of each attempt.  The goroutines that run deliveries side by side are in \<open>Delivery\<close>.
\<close>

section \<open>The code\<close>

record Sender =
  hook_url :: string
  secret :: string
  retries :: nat
  sem_cap :: nat

definition NewSender :: "string \<Rightarrow> string \<Rightarrow> Sender option" where
  "NewSender url sec = (if url = [] then None
     else Some \<lparr>hook_url = url, secret = sec, retries = 5, sem_cap = 32\<rparr>)"

datatype post_outcome = BadRequest | ConnFailed | Status_code int

datatype event =
    Post string "(string \<times> string) list" string
  | Sleep duration

datatype delivery = NotMarshalled | Delivered | GaveUp

text \<open>One attempt; \<open>None\<close> for success.  A URL that does not parse sends nothing.\<close>

definition attempt :: "Sender \<Rightarrow> string \<Rightarrow> string \<Rightarrow> post_outcome \<Rightarrow> event list \<times> bool" where
  "attempt s body sig out = (case out of
     BadRequest \<Rightarrow> ([], False)
   | _ \<Rightarrow>
      (let headers = [(''Content-Type'', ''application/json''), (''User-Agent'', ''TONpayment-webhook/1'')]
             @ (if sig \<noteq> [] then [(''X-Signature'', sig)] else [])
       in ([Post (hook_url s) headers body],
           case out of Status_code c \<Rightarrow> \<not> (c < 200 \<or> c \<ge> 300) | _ \<Rightarrow> False)))"

definition first_backoff :: duration where [go_defs]: "first_backoff = 500000000"

definition next_backoff :: "duration \<Rightarrow> duration" where
  "next_backoff d = (if d * 2 > 30 * Second then 30 * Second else d * 2)"

text \<open>The loop, by the number of attempts left; \<open>outs\<close> gives the outcomes from here on.\<close>

fun attempts :: "Sender \<Rightarrow> string \<Rightarrow> string \<Rightarrow> nat \<Rightarrow> duration \<Rightarrow> (nat \<Rightarrow> post_outcome) \<Rightarrow> event list \<times> delivery" where
  "attempts s body sig 0 backoff outs = ([], GaveUp)"
| "attempts s body sig (Suc left) backoff outs =
     (case attempt s body sig (outs 0) of
        (evs, True) \<Rightarrow> (evs, Delivered)
      | (evs, False) \<Rightarrow>
          if left > 0 then
            (case attempts s body sig left (next_backoff backoff) (\<lambda>n. outs (Suc n)) of
               (later, d) \<Rightarrow> (evs @ Sleep backoff # later, d))
          else (evs, GaveUp))"

definition signature :: "(string \<Rightarrow> string \<Rightarrow> byte list) \<Rightarrow> Sender \<Rightarrow> string \<Rightarrow> string" where
  "signature hmac s body = (if length (secret s) > 0 then ''sha256='' @ HexEncode (hmac (secret s) body) else [])"

definition deliver ::
  "(string \<Rightarrow> string \<Rightarrow> byte list) \<Rightarrow> (invoice \<Rightarrow> string option) \<Rightarrow> Sender \<Rightarrow> (nat \<Rightarrow> post_outcome)
    \<Rightarrow> invoice \<Rightarrow> event list \<times> delivery" where
  "deliver hmac marshal s outs i = (case marshal i of
     None \<Rightarrow> ([], NotMarshalled)
   | Some body \<Rightarrow> attempts s body (signature hmac s body) (retries s) first_backoff outs)"

section \<open>What a delivery does\<close>

definition accepted :: "post_outcome \<Rightarrow> bool" where
  "accepted out = (case out of Status_code c \<Rightarrow> 200 \<le> c \<and> c < 300 | _ \<Rightarrow> False)"

definition sent :: "event list \<Rightarrow> nat" where
  "sent evs = length (filter (\<lambda>e. case e of Post _ _ _ \<Rightarrow> True | _ \<Rightarrow> False) evs)"

definition pauses :: "event list \<Rightarrow> duration list" where
  "pauses evs = concat (map (\<lambda>e. case e of Sleep d \<Rightarrow> [d] | _ \<Rightarrow> []) evs)"

lemma attempt_simps:
  "snd (attempt s body sig out) = accepted out"
  "pauses (fst (attempt s body sig out)) = []"
  "sent (fst (attempt s body sig out)) \<le> 1"
  "e \<in> set (fst (attempt s body sig out)) \<Longrightarrow> e = Post (hook_url s)
     ([(''Content-Type'', ''application/json''), (''User-Agent'', ''TONpayment-webhook/1'')]
        @ (if sig \<noteq> [] then [(''X-Signature'', sig)] else [])) body"
  by (auto simp: attempt_def accepted_def pauses_def sent_def Let_def split: post_outcome.splits)

lemma pauses_append [simp]: "pauses (xs @ ys) = pauses xs @ pauses ys"
  by (simp add: pauses_def)

lemma pauses_Sleep [simp]: "pauses (Sleep d # xs) = d # pauses xs"
  by (simp add: pauses_def)

lemma sent_append [simp]: "sent (xs @ ys) = sent xs + sent ys"
  by (simp add: sent_def)

lemma sent_Sleep [simp]: "sent (Sleep d # xs) = sent xs"
  by (simp add: sent_def)

lemma attempts_Suc:
  "attempts s body sig (Suc left) b outs =
     (if accepted (outs 0) then (fst (attempt s body sig (outs 0)), Delivered)
      else if left = 0 then (fst (attempt s body sig (outs 0)), GaveUp)
      else (fst (attempt s body sig (outs 0)) @ Sleep b #
              fst (attempts s body sig left (next_backoff b) (\<lambda>n. outs (Suc n))),
            snd (attempts s body sig left (next_backoff b) (\<lambda>n. outs (Suc n)))))"
  using attempt_simps(1) [of s body sig "outs 0"]
  by (cases "attempt s body sig (outs 0)") (auto split: prod.splits)

lemma attempts_delivered:
  "snd (attempts s body sig n b outs) = (if \<exists>k<n. accepted (outs k) then Delivered else GaveUp)"
proof (induction n arbitrary: b outs)
  case (Suc n)
  have "(\<exists>k<Suc n. accepted (outs k)) \<longleftrightarrow> accepted (outs 0) \<or> (\<exists>k<n. accepted (outs (Suc k)))"
    by (metis Suc_less_eq less_Suc_eq_0_disj zero_less_Suc)
  then show ?case using Suc by (simp add: attempts_Suc del: attempts.simps)
qed simp

lemma attempts_sent: "sent (fst (attempts s body sig n b outs)) \<le> n"
proof (induction n arbitrary: b outs)
  case (Suc n)
  show ?case
    using Suc [of "next_backoff b" "\<lambda>n. outs (Suc n)"] attempt_simps(3) [of s body sig "outs 0"]
    by (auto simp: attempts_Suc simp del: attempts.simps)
qed (simp add: sent_def)

lemma attempts_length: "length (fst (attempts s body sig n b outs)) \<le> 2 * n - 1"
proof (induction n arbitrary: b outs)
  case (Suc n)
  have "length (fst (attempt s body sig (outs 0))) \<le> 1"
    by (auto simp: attempt_def Let_def split: post_outcome.splits)
  then show ?case
    using Suc [of "next_backoff b" "\<lambda>n. outs (Suc n)"]
    by (cases n) (auto simp: attempts_Suc simp del: attempts.simps)
qed simp

lemma deliver_length: "length (fst (deliver hmac marshal s outs i)) \<le> 2 * retries s - 1"
  using attempts_length by (simp add: deliver_def split: option.splits)

lemma attempts_posts:
  assumes "Post u hs p \<in> set (fst (attempts s body sig n b outs))"
  shows "u = hook_url s \<and> p = body \<and> (sig \<noteq> [] \<longrightarrow> (''X-Signature'', sig) \<in> set hs)
    \<and> (sig = [] \<longrightarrow> ''X-Signature'' \<notin> fst ` set hs)"
  using assms
proof (induction n arbitrary: b outs)
  case (Suc n)
  then show ?case
    using attempt_simps(4) [of "Post u hs p" s body sig "outs 0"]
    by (auto simp: attempts_Suc simp del: attempts.simps split: if_splits)
qed simp

lemma deliver_sent: "sent (fst (deliver hmac marshal s outs i)) \<le> retries s"
  using attempts_sent by (simp add: deliver_def sent_def split: option.splits)

lemma deliver_posts:
  "Post u hs p \<in> set (fst (deliver hmac marshal s outs i)) \<Longrightarrow> u = hook_url s \<and> marshal i = Some p"
  using attempts_posts by (fastforce simp: deliver_def split: option.splits)

lemma five_pauses:
  "pauses (fst (attempts s body sig 5 first_backoff outs)) =
     take (length (takeWhile (\<lambda>out. \<not> accepted out) (map outs [0..<4])))
       [500000000, 1000000000, 2000000000, 4000000000]"
  by (simp add: eval_nat_numeral attempts_Suc attempt_simps(2) next_backoff_def go_defs
      upt_rec del: attempts.simps)

text \<open>
  C36: A settled invoice is announced with at most five identical requests to the configured URL.
  It is delivered exactly when one of the first five outcomes is a 2xx, nothing is sent after
  that one, and the pauses before it are 0.5, 1, 2 and 4 seconds. Each request carries the body
  and, when a secret is configured and only then, the hex signature of exactly that body.
\<close>

theorem delivery_behaviour:
  assumes "NewSender url sec = Some s" and "marshal i = Some body"
    and "deliver hmac marshal s outs i = (evs, d)"
  shows "sent evs \<le> 5 \<and> (d = Delivered \<longleftrightarrow> (\<exists>k<5. accepted (outs k)))
    \<and> (\<forall>u hs p. Post u hs p \<in> set evs \<longrightarrow> u = url \<and> p = body
        \<and> (if sec \<noteq> [] then (''X-Signature'', ''sha256='' @ HexEncode (hmac sec body)) \<in> set hs
           else ''X-Signature'' \<notin> fst ` set hs))
    \<and> pauses evs = take (length (takeWhile (\<lambda>out. \<not> accepted out) (map outs [0..<4])))
        [500000000, 1000000000, 2000000000, 4000000000]"
proof -
  define sig where "sig = signature hmac s body"
  have s: "hook_url s = url" "secret s = sec" "retries s = 5"
    using assms(1) by (auto simp: NewSender_def split: if_splits)
  have a: "evs = fst (attempts s body sig 5 first_backoff outs)"
    "d = snd (attempts s body sig 5 first_backoff outs)"
    using assms(2,3) s by (simp_all add: deliver_def sig_def)
  have g: "sig = (if sec \<noteq> [] then ''sha256='' @ HexEncode (hmac sec body) else [])"
    by (simp add: sig_def signature_def s)
  have posts: "u = url \<and> p = body \<and> (if sec \<noteq> [] then (''X-Signature'', sig) \<in> set hs
      else ''X-Signature'' \<notin> fst ` set hs)" if "Post u hs p \<in> set evs" for u hs p
    using attempts_posts [of u hs p s body sig 5 first_backoff outs] that a(1) s(1) g by auto
  have "d = Delivered \<longleftrightarrow> (\<exists>k<5. accepted (outs k))"
    using a(2) attempts_delivered [of s body sig 5 first_backoff outs] by simp
  moreover have "sent evs \<le> 5" using a(1) attempts_sent [of s body sig 5] by simp
  moreover have "pauses evs = take (length (takeWhile (\<lambda>out. \<not> accepted out) (map outs [0..<4])))
        [500000000, 1000000000, 2000000000, 4000000000]"
    using a(1) five_pauses by simp
  moreover have "Post u hs p \<in> set evs \<longrightarrow> u = url \<and> p = body
        \<and> (if sec \<noteq> [] then (''X-Signature'', ''sha256='' @ HexEncode (hmac sec body)) \<in> set hs
           else ''X-Signature'' \<notin> fst ` set hs)" for u hs p
    using posts [of u hs p] g by (cases "sec = []") auto
  ultimately show ?thesis by blast
qed

theorem delivery_behaviour_witness:
  "\<exists>evs. deliver (\<lambda>_ _. [1, 2]) (\<lambda>_. Some ''{}'')
      \<lparr>hook_url = ''http://h'', secret = ''k'', retries = 5, sem_cap = 32\<rparr>
      (\<lambda>n. if n < 2 then ConnFailed else Status_code 204) zero_invoice = (evs, Delivered)
    \<and> pauses evs = [500000000, 1000000000]"
proof -
  let ?s = "\<lparr>hook_url = ''http://h'', secret = ''k'', retries = 5, sem_cap = 32\<rparr>"
  let ?outs = "\<lambda>n :: nat. if n < 2 then ConnFailed else Status_code 204"
  obtain evs d where e: "deliver (\<lambda>_ _. [1, 2]) (\<lambda>_. Some ''{}'') ?s ?outs zero_invoice = (evs, d)"
    by (metis surj_pair)
  have "accepted (?outs 2)" by (simp add: accepted_def)
  then have "\<exists>k<5. accepted (?outs k)" by (intro exI [of _ 2]) simp
  moreover have "takeWhile (\<lambda>out. \<not> accepted out) (map ?outs [0..<4]) = [ConnFailed, ConnFailed]"
    by (simp add: accepted_def upt_rec)
  ultimately have "d = Delivered \<and> pauses evs = [500000000, 1000000000]"
    using delivery_behaviour [of "''http://h''" "''k''" ?s "\<lambda>_. Some ''{}''" zero_invoice "''{}''", OF _ _ e]
    by (simp add: NewSender_def)
  then show ?thesis using e by blast
qed

end
