(* ===== verification/Startup.thy ===== *)
theory Startup
  imports Config Poller Webhook
begin

text \<open>
  cmd/server: the gates of validate.go and the wiring of main.go from the environment to the
  parts the process runs with.  Whether the store opens is up to the surroundings.
\<close>

section \<open>The code\<close>

datatype config_error = NoReceiverAndNoKey | NoDurableStore | UnsignedWebhook | InsecureWebhook

definition validate :: "environment \<Rightarrow> Config \<Rightarrow> config_error option" where
  "validate e c =
     (if \<not> IsProd c then None
      else if TONReceiving c = [] \<and> CreateAPIKey c = [] then Some NoReceiverAndNoKey
      else if DatabaseURL c = [] \<and> e ''TON_ALLOW_FILE_STORE'' \<noteq> ''1'' then Some NoDurableStore
      else if WebhookURL c \<noteq> [] then
        (if WebhookSecret c = [] then Some UnsignedWebhook
         else if \<not> HasPrefix (map lower (WebhookURL c)) ''https://'' then Some InsecureWebhook
         else None)
      else None)"

datatype chosen_store = UsePostgres string | UseMemory string

datatype chosen_verifier = UseToncenter TonVerifier | UseMock mock

datatype fatal = ConfigFatal config_error | StoreFatal | ReceivingFatal addr_error

record boot =
  boot_cfg :: Config
  boot_store :: chosen_store
  boot_verifier :: chosen_verifier
  boot_sender :: "Sender option"

definition chooseStore :: "Config \<Rightarrow> chosen_store" where
  "chooseStore c = (if DatabaseURL c \<noteq> [] then UsePostgres (DatabaseURL c) else UseMemory (DataDir c))"

definition normalizeReceiving :: "Config \<Rightarrow> fatal + Config" where
  "normalizeReceiving c =
     (if TONReceiving c \<noteq> [] then
        (case NormalizeOnNetwork (TONReceiving c) (IsTestnet c) of
           Inl err \<Rightarrow> (if IsProd c then Inl (ReceivingFatal err) else Inr c)
         | Inr norm \<Rightarrow> Inr (c\<lparr>TONReceiving := norm\<rparr>))
      else Inr c)"

definition chooseVerifier :: "Config \<Rightarrow> chosen_verifier" where
  "chooseVerifier c =
     (if IsProd c then UseToncenter (NewTonVerifier (TONAPIBase c) (TONAPIKey c))
      else UseMock (NewMockVerifier 2))"

definition start_up :: "environment \<Rightarrow> (chosen_store \<Rightarrow> bool) \<Rightarrow> fatal + boot" where
  "start_up e opens =
     (let cfg = Load e in
      case validate e cfg of
        Some err \<Rightarrow> Inl (ConfigFatal err)
      | None \<Rightarrow>
         (if \<not> opens (chooseStore cfg) then Inl StoreFatal
          else case normalizeReceiving cfg of
             Inl err \<Rightarrow> Inl err
           | Inr cfg \<Rightarrow> Inr \<lparr>boot_cfg = cfg, boot_store = chooseStore cfg, boot_verifier = chooseVerifier cfg,
               boot_sender = NewSender (WebhookURL cfg) (WebhookSecret cfg)\<rparr>))"

text \<open>The service and the poller, over the store and verifier that were chosen.\<close>

definition wire_service :: "('s, 'w) Store \<Rightarrow> ('e, 'v) Verifier \<Rightarrow> boot \<Rightarrow> ('s, 'w, 'e, 'v) Service" where
  "wire_service st v b =
     (let c = boot_cfg b;
          svc = NewService st v (TONReceiving c) (DefaultTTL c) (boot_sender b \<noteq> None)
      in SetNetwork (SetLimits svc (CfgMaxTTL c) (MaxPending c) (MaxPendingPerAddr c)) (IsTestnet c))"

definition wire_poller :: "('s, 'w, 'e, 'v) Service \<Rightarrow> boot \<Rightarrow> ('s, 'w, 'e, 'v) Poller option" where
  "wire_poller svc b = (let c = boot_cfg b in
     if PollEnabled c then Some (NewPoller svc (PollInterval c) (PollConcurrency c)) else None)"

section \<open>The production gates\<close>

lemma normalizeReceiving_Inr:
  assumes "normalizeReceiving c = Inr c'"
  shows "c' = c \<and> (TONReceiving c = [] \<or> \<not> IsProd c)
    \<or> (\<exists>t. c' = c\<lparr>TONReceiving := t\<rparr> \<and> TONReceiving c \<noteq> []
        \<and> NormalizeOnNetwork (TONReceiving c) (IsTestnet c) = Inr t)"
  using assms by (auto simp: normalizeReceiving_def split: if_splits sum.splits)

lemma start_up_Inr:
  assumes "start_up e opens = Inr b"
  obtains "validate e (Load e) = None" and "opens (chooseStore (Load e))"
    and "normalizeReceiving (Load e) = Inr (boot_cfg b)"
    and "b = \<lparr>boot_cfg = boot_cfg b, boot_store = chooseStore (boot_cfg b), boot_verifier = chooseVerifier (boot_cfg b),
      boot_sender = NewSender (WebhookURL (boot_cfg b)) (WebhookSecret (boot_cfg b))\<rparr>"
  using assms by (auto simp: start_up_def Let_def split: option.splits if_splits sum.splits)


definition prod_environment :: environment where
  "prod_environment = (\<lambda>_. [])(''TON_ENV'' := ''prod'', ''TON_CREATE_API_KEY'' := ''k'',
     ''TON_DATABASE_URL'' := ''postgres://db'', ''TON_WEBHOOK_URL'' := ''HTTPS://shop/hook'', ''TON_WEBHOOK_SECRET'' := ''s'',
     ''TON_DEFAULT_TTL_SECONDS'' := ''-1'', ''TON_POLL_CONCURRENCY'' := ''0'')"

definition prod_boot :: boot where
  "prod_boot = \<lparr>boot_cfg = Load prod_environment, boot_store = UsePostgres ''postgres://db'',
     boot_verifier = UseToncenter \<lparr>apiBase = ''https://toncenter.com/api/v2'', apiKey = []\<rparr>,
     boot_sender = Some \<lparr>hook_url = ''HTTPS://shop/hook'', secret = ''s'', retries = 5, sem_cap = 32\<rparr>\<rparr>"

lemma prod_start_up: "start_up prod_environment (\<lambda>_. True) = Inr prod_boot"
proof -
  have "HasPrefix (map lower ''HTTPS://shop/hook'') ''https://''" by code_simp
  then show ?thesis
    by (simp add: start_up_def validate_def normalizeReceiving_def chooseStore_def chooseVerifier_def NewTonVerifier_def IsProd_def
        Load_def prod_environment_def prod_boot_def getenv_def NewSender_def Let_def)
qed


section \<open>What the parts can rely on\<close>

text \<open>
  C32: Whatever the environment says, also when a number is missing, malformed, negative or so
  large that its seconds overflow, the service and the poller of a started process are well
  formed: every lifetime given to an invoice is positive and within a positive maximum, the poller
  has a positive interval and at least one worker, and the default receiving address has no NUL byte.
\<close>

theorem started_parts_are_well_formed:
  assumes "start_up e opens = Inr b" and "\<And>k. nul_free (e k)"
  shows "0 < effectiveTTL (wire_service st v b) ttl
    \<and> effectiveTTL (wire_service st v b) ttl \<le> svc_maxTTL (wire_service st v b)
    \<and> nul_free (svc_defaultPayTo (wire_service st v b))
    \<and> (\<forall>p. wire_poller svc b = Some p \<longrightarrow> 0 < interval p \<and> 1 \<le> concurrency p)"
proof -
  have "0 < svc_defaultTTL (wire_service st v b)" "0 < svc_maxTTL (wire_service st v b)"
    by (simp_all add: wire_service_def NewService_def SetLimits_def SetNetwork_def go_defs Let_def)
  then have "0 < effectiveTTL (wire_service st v b) ttl
      \<and> effectiveTTL (wire_service st v b) ttl \<le> svc_maxTTL (wire_service st v b)"
    using effectiveTTL_bounds [of "wire_service st v b" ttl] by blast
  moreover have "nul_free (TONReceiving (boot_cfg b))"
  proof -
    have "normalizeReceiving (Load e) = Inr (boot_cfg b)" using assms(1) by (auto elim!: start_up_Inr)
    moreover have "nul_free (TONReceiving (Load e))" using assms(2) by (simp add: Load_def)
    ultimately show ?thesis
      using normalizeReceiving_Inr [of "Load e" "boot_cfg b"] NormalizeOnNetwork_nul_free by auto
  qed
  then have "nul_free (svc_defaultPayTo (wire_service st v b))"
    by (simp add: wire_service_def NewService_def SetLimits_def SetNetwork_def Let_def)
  moreover have "0 < interval p \<and> 1 \<le> concurrency p" if "wire_poller svc b = Some p" for p
    using that by (auto simp: wire_poller_def NewPoller_def go_defs Let_def split: if_splits)
  ultimately show ?thesis by blast
qed

theorem started_parts_are_well_formed_witness:
  "0 < effectiveTTL (wire_service memory_store MockVerify prod_boot) 0"
proof -
  have "nul_free (prod_environment k)" for k by (simp add: prod_environment_def nul_free_def)
  from started_parts_are_well_formed [OF prod_start_up this] show ?thesis by blast
qed

end
