(* ===== verification/Delivery.thy ===== *)
theory Delivery
  imports Webhook Bounded_Runs "HOL-Library.Sublist"
begin

text \<open>
  internal/webhook/webhook.go, the concurrent half of \<open>Sender\<close>: \<open>Fire\<close> adds to the wait group and
  starts a goroutine, the goroutine waits for one of the semaphore's places, delivers as
  \<open>Webhook.deliver\<close> says, gives the place back and leaves the wait group, and \<open>Wait\<close> returns when
  nobody is left in it.  A goroutine runs by itself once the outcomes of its requests are
  given, so its next step is a function; the scheduler picks whose step comes next.
\<close>

section \<open>The code\<close>

text \<open>Where a goroutine is; while delivering, with what it still has to do.\<close>

datatype stage =
    AtSemaphore
  | Delivering "event list" delivery
  | PlaceReturned delivery
  | Gone delivery

record job =
  for_invoice :: invoice
  stage :: stage

record hooks =
  jobs :: "job list"
  places_taken :: nat
  wait_group :: nat
  hook_log :: "(nat \<times> event) list"

definition no_hooks :: hooks where
  "no_hooks = \<lparr>jobs = [], places_taken = 0, wait_group = 0, hook_log = []\<rparr>"

definition Fire :: "Sender option \<Rightarrow> invoice \<Rightarrow> hooks \<Rightarrow> hooks" where
  "Fire sender i h = (case sender of
     None \<Rightarrow> h
   | Some _ \<Rightarrow> h\<lparr>wait_group := wait_group h + 1,
       jobs := jobs h @ [\<lparr>for_invoice = i, stage = AtSemaphore\<rparr>]\<rparr>)"

text \<open>
  One step of goroutine \<open>k\<close>; \<open>None\<close> when it is blocked or has ended.  The channel \<open>sem\<close> holds
  \<open>sem_cap\<close> elements, so the send blocks while as many places are taken.
\<close>

definition run_job ::
  "(string \<Rightarrow> string \<Rightarrow> byte list) \<Rightarrow> (invoice \<Rightarrow> string option) \<Rightarrow> Sender \<Rightarrow> (nat \<Rightarrow> nat \<Rightarrow> post_outcome)
    \<Rightarrow> nat \<Rightarrow> hooks \<Rightarrow> hooks option" where
  "run_job hmac marshal s outs k h =
     (if k < length (jobs h) then
        let j = jobs h ! k; moved = (\<lambda>st. (jobs h)[k := j\<lparr>stage := st\<rparr>]) in
        (case stage j of
           AtSemaphore \<Rightarrow>
             if places_taken h < sem_cap s then
               (case deliver hmac marshal s (outs k) (for_invoice j) of (evs, d) \<Rightarrow>
                  Some (h\<lparr>places_taken := places_taken h + 1, jobs := moved (Delivering evs d)\<rparr>))
             else None
         | Delivering (e # evs) d \<Rightarrow>
             Some (h\<lparr>hook_log := hook_log h @ [(k, e)], jobs := moved (Delivering evs d)\<rparr>)
         | Delivering [] d \<Rightarrow>
             Some (h\<lparr>places_taken := places_taken h - 1, jobs := moved (PlaceReturned d)\<rparr>)
         | PlaceReturned d \<Rightarrow> Some (h\<lparr>wait_group := wait_group h - 1, jobs := moved (Gone d)\<rparr>)
         | Gone d \<Rightarrow> None)
      else None)"

definition hook_step ::
  "(string \<Rightarrow> string \<Rightarrow> byte list) \<Rightarrow> (invoice \<Rightarrow> string option) \<Rightarrow> Sender \<Rightarrow> (nat \<Rightarrow> nat \<Rightarrow> post_outcome)
    \<Rightarrow> hooks \<Rightarrow> hooks \<Rightarrow> bool" where
  "hook_step hmac marshal s outs h h' \<longleftrightarrow> (\<exists>k < length (jobs h). run_job hmac marshal s outs k h = Some h')"

text \<open>What the sender can have come to, with \<open>Fire\<close> called at any time.\<close>

inductive hooks_reach ::
  "(string \<Rightarrow> string \<Rightarrow> byte list) \<Rightarrow> (invoice \<Rightarrow> string option) \<Rightarrow> Sender \<Rightarrow> (nat \<Rightarrow> nat \<Rightarrow> post_outcome)
    \<Rightarrow> hooks \<Rightarrow> bool"
  for hmac marshal s outs where
  none_yet: "hooks_reach hmac marshal s outs no_hooks"
| fired: "hooks_reach hmac marshal s outs h \<Longrightarrow> hooks_reach hmac marshal s outs (Fire (Some s) i h)"
| moved: "hooks_reach hmac marshal s outs h \<Longrightarrow> hook_step hmac marshal s outs h h' \<Longrightarrow>
    hooks_reach hmac marshal s outs h'"

text \<open>\<open>Wait\<close> can return; on a nil sender at once.\<close>

definition Wait :: "Sender option \<Rightarrow> hooks \<Rightarrow> bool" where
  "Wait sender h = (case sender of None \<Rightarrow> True | Some _ \<Rightarrow> wait_group h = 0)"

text \<open>A schedule names the goroutine of each step; a blocked one lets the next go on.\<close>

fun run_schedule ::
  "(string \<Rightarrow> string \<Rightarrow> byte list) \<Rightarrow> (invoice \<Rightarrow> string option) \<Rightarrow> Sender \<Rightarrow> (nat \<Rightarrow> nat \<Rightarrow> post_outcome)
    \<Rightarrow> nat list \<Rightarrow> hooks \<Rightarrow> hooks" where
  "run_schedule hmac marshal s outs [] h = h"
| "run_schedule hmac marshal s outs (k # ks) h =
     (case run_job hmac marshal s outs k h of
        None \<Rightarrow> run_schedule hmac marshal s outs ks h
      | Some h' \<Rightarrow> run_schedule hmac marshal s outs ks h')"

section \<open>Counting\<close>

definition in_delivery :: "job \<Rightarrow> bool" where
  "in_delivery j \<longleftrightarrow> (case stage j of Delivering _ _ \<Rightarrow> True | _ \<Rightarrow> False)"

definition unfinished :: "job \<Rightarrow> bool" where
  "unfinished j \<longleftrightarrow> (case stage j of Gone _ \<Rightarrow> False | _ \<Rightarrow> True)"

text \<open>The steps a goroutine still takes.\<close>

definition steps_left ::
  "(invoice \<Rightarrow> event list \<times> delivery) \<Rightarrow> job \<Rightarrow> nat" where
  "steps_left dl j = (case stage j of
     AtSemaphore \<Rightarrow> length (fst (dl (for_invoice j))) + 3
   | Delivering evs _ \<Rightarrow> length evs + 2 | PlaceReturned _ \<Rightarrow> 1 | Gone _ \<Rightarrow> 0)"

definition events_of :: "nat \<Rightarrow> (nat \<times> event) list \<Rightarrow> event list" where
  "events_of k xs = map snd (filter (\<lambda>(n, _). n = k) xs)"

lemma events_of_simps [simp]:
  "events_of k [] = []"
  "events_of k (xs @ [(n, e)]) = events_of k xs @ (if n = k then [e] else [])"
  by (simp_all add: events_of_def)

lemma sum_list_set:
  fixes f :: "'a \<Rightarrow> nat"
  assumes "k < length xs"
  shows "sum_list (map f (xs[k := y])) + f (xs ! k) = sum_list (map f xs) + f y"
  using assms by (simp add: map_update sum_list_update) (metis add.commute elem_le_sum_list le_add_diff_inverse
    length_map map_update nth_map sum_list_update trans_le_add1)

lemma count_set:
  assumes "k < length xs"
  shows "length (filter P (xs[k := y])) + of_bool (P (xs ! k)) = length (filter P xs) + of_bool (P y)"
proof -
  have "length (filter P zs) = sum_list (map (\<lambda>x. of_bool (P x)) zs)" for zs by (induction zs) auto
  then show ?thesis using sum_list_set [OF assms, of "\<lambda>x. of_bool (P x)" y] by simp
qed

section \<open>The invariant\<close>

text \<open>
  A goroutine has done the part of its delivery that its place says, and no more.
\<close>

fun stage_ok :: "event list \<Rightarrow> event list \<times> delivery \<Rightarrow> stage \<Rightarrow> bool" where
  "stage_ok did dl AtSemaphore = (did = [])"
| "stage_ok did dl (Delivering rest d) = (did @ rest = fst dl \<and> d = snd dl)"
| "stage_ok did dl (PlaceReturned d) = ((did, d) = dl)"
| "stage_ok did dl (Gone d) = ((did, d) = dl)"

definition job_ok :: "(nat \<Rightarrow> invoice \<Rightarrow> event list \<times> delivery) \<Rightarrow> hooks \<Rightarrow> nat \<Rightarrow> bool" where
  "job_ok dl h k \<longleftrightarrow>
     stage_ok (events_of k (hook_log h)) (dl k (for_invoice (jobs h ! k))) (stage (jobs h ! k))"

definition hooks_inv :: "nat \<Rightarrow> (nat \<Rightarrow> invoice \<Rightarrow> event list \<times> delivery) \<Rightarrow> hooks \<Rightarrow> bool" where
  "hooks_inv cap dl h \<longleftrightarrow>
     places_taken h = length (filter in_delivery (jobs h)) \<and> places_taken h \<le> cap
     \<and> wait_group h = length (filter unfinished (jobs h))
     \<and> (\<forall>(k, e) \<in> set (hook_log h). k < length (jobs h))
     \<and> (\<forall>k < length (jobs h). job_ok dl h k)"

lemma hooks_inv_none: "hooks_inv cap dl no_hooks"
  by (simp add: hooks_inv_def no_hooks_def)

lemma events_of_none: "\<forall>(k, e) \<in> set xs. k < n \<Longrightarrow> events_of n xs = []"
  by (auto simp: events_of_def filter_empty_conv)

lemma hooks_inv_fire:
  assumes "hooks_inv cap dl h"
  shows "hooks_inv cap dl (Fire (Some s) i h)"
proof -
  have "job_ok dl (Fire (Some s) i h) k" if "k < Suc (length (jobs h))" for k
    using assms that events_of_none [of "hook_log h" "length (jobs h)"]
    by (auto simp: hooks_inv_def job_ok_def Fire_def nth_append less_Suc_eq)
  then show ?thesis
    using assms by (auto simp: hooks_inv_def Fire_def in_delivery_def unfinished_def)
qed

text \<open>The four moves of a goroutine.\<close>

lemma run_job_cases:
  assumes "run_job hmac marshal s outs k h = Some h'"
  obtains (take) evs d where "stage (jobs h ! k) = AtSemaphore" and "places_taken h < sem_cap s"
      and "deliver hmac marshal s (outs k) (for_invoice (jobs h ! k)) = (evs, d)"
      and "h' = h\<lparr>places_taken := places_taken h + 1, jobs := (jobs h)[k := (jobs h ! k)\<lparr>stage := Delivering evs d\<rparr>]\<rparr>"
    | (act) e evs d where "stage (jobs h ! k) = Delivering (e # evs) d"
      and "h' = h\<lparr>hook_log := hook_log h @ [(k, e)], jobs := (jobs h)[k := (jobs h ! k)\<lparr>stage := Delivering evs d\<rparr>]\<rparr>"
    | (give) d where "stage (jobs h ! k) = Delivering [] d"
      and "h' = h\<lparr>places_taken := places_taken h - 1, jobs := (jobs h)[k := (jobs h ! k)\<lparr>stage := PlaceReturned d\<rparr>]\<rparr>"
    | (leave) d where "stage (jobs h ! k) = PlaceReturned d"
      and "h' = h\<lparr>wait_group := wait_group h - 1, jobs := (jobs h)[k := (jobs h ! k)\<lparr>stage := Gone d\<rparr>]\<rparr>"
  using assms
  by (auto simp: run_job_def Let_def split: if_splits stage.splits list.splits prod.splits)

lemma hooks_inv_job:
  assumes inv: "hooks_inv (sem_cap s) (\<lambda>k. deliver hmac marshal s (outs k)) h"
    and k: "k < length (jobs h)" and step: "run_job hmac marshal s outs k h = Some h'"
  shows "hooks_inv (sem_cap s) (\<lambda>k. deliver hmac marshal s (outs k)) h'"
proof -
  let ?dl = "\<lambda>k. deliver hmac marshal s (outs k)"
  have ok: "job_ok ?dl h n" if "n < length (jobs h)" for n using inv that by (simp add: hooks_inv_def)
  have other: "job_ok ?dl h' n" if "n < length (jobs h)" "n \<noteq> k" for n
    using step ok [OF that(1)] that by (cases rule: run_job_cases) (auto simp: job_ok_def)
  have mine: "job_ok ?dl h' k"
    using step ok [OF k] k by (cases rule: run_job_cases) (auto simp: job_ok_def)
  have len: "length (jobs h') = length (jobs h)"
    using step by (cases rule: run_job_cases) auto
  have log: "\<forall>(n, e) \<in> set (hook_log h'). n < length (jobs h)"
    using step inv k by (cases rule: run_job_cases) (auto simp: hooks_inv_def)
  have "places_taken h' = length (filter in_delivery (jobs h')) \<and> places_taken h' \<le> sem_cap s
      \<and> wait_group h' = length (filter unfinished (jobs h'))"
    using step
  proof (cases rule: run_job_cases)
    case (take evs d)
    then show ?thesis using inv count_set [OF k, of in_delivery "(jobs h ! k)\<lparr>stage := Delivering evs d\<rparr>"]
        count_set [OF k, of unfinished "(jobs h ! k)\<lparr>stage := Delivering evs d\<rparr>"]
      by (simp add: hooks_inv_def in_delivery_def unfinished_def)
  next
    case (act e evs d)
    then show ?thesis using inv count_set [OF k, of in_delivery "(jobs h ! k)\<lparr>stage := Delivering evs d\<rparr>"]
        count_set [OF k, of unfinished "(jobs h ! k)\<lparr>stage := Delivering evs d\<rparr>"]
      by (simp add: hooks_inv_def in_delivery_def unfinished_def)
  next
    case (give d)
    then show ?thesis using inv count_set [OF k, of in_delivery "(jobs h ! k)\<lparr>stage := PlaceReturned d\<rparr>"]
        count_set [OF k, of unfinished "(jobs h ! k)\<lparr>stage := PlaceReturned d\<rparr>"]
      by (simp add: hooks_inv_def in_delivery_def unfinished_def, arith)
  next
    case (leave d)
    then show ?thesis using inv count_set [OF k, of in_delivery "(jobs h ! k)\<lparr>stage := Gone d\<rparr>"]
        count_set [OF k, of unfinished "(jobs h ! k)\<lparr>stage := Gone d\<rparr>"]
      by (simp add: hooks_inv_def in_delivery_def unfinished_def)
  qed
  with mine other len log show ?thesis by (auto simp: hooks_inv_def)
qed

lemma reach_inv:
  assumes "hooks_reach hmac marshal s outs h"
  shows "hooks_inv (sem_cap s) (\<lambda>k. deliver hmac marshal s (outs k)) h"
  using assms
proof induction
  case (moved h h')
  then show ?case unfolding hook_step_def using hooks_inv_job by blast
qed (simp_all add: hooks_inv_none hooks_inv_fire)

lemma reach_prefix:
  assumes "hooks_reach hmac marshal s outs h" and "k < length (jobs h)"
  shows "prefix (events_of k (hook_log h)) (fst (deliver hmac marshal s (outs k) (for_invoice (jobs h ! k))))"
proof -
  have "job_ok (\<lambda>k. deliver hmac marshal s (outs k)) h k"
    using reach_inv [OF assms(1)] assms(2) by (simp add: hooks_inv_def)
  then show ?thesis
    by (cases "stage (jobs h ! k)") (auto simp: job_ok_def prefix_def dest: sym)
qed

lemma reach_log:
  assumes "hooks_reach hmac marshal s outs h" and "(k, e) \<in> set (hook_log h)"
  shows "k < length (jobs h) \<and> e \<in> set (fst (deliver hmac marshal s (outs k) (for_invoice (jobs h ! k))))"
proof -
  have k: "k < length (jobs h)" using reach_inv [OF assms(1)] assms(2) by (auto simp: hooks_inv_def)
  have "e \<in> set (events_of k (hook_log h))" using assms(2) by (force simp: events_of_def)
  then show ?thesis using k set_mono_prefix [OF reach_prefix [OF assms(1) k]] by blast
qed

lemma reach_sent:
  assumes "hooks_reach hmac marshal s outs h" and "k < length (jobs h)"
  shows "sent (events_of k (hook_log h)) \<le> retries s"
  using reach_prefix [OF assms] deliver_sent [of hmac marshal s "outs k" "for_invoice (jobs h ! k)"]
  by (auto simp: prefix_def)

section \<open>Deliveries end\<close>

definition hooks_left :: "(nat \<Rightarrow> invoice \<Rightarrow> event list \<times> delivery) \<Rightarrow> hooks \<Rightarrow> nat" where
  "hooks_left dl h = (\<Sum>k < length (jobs h). steps_left (dl k) (jobs h ! k))"

lemma run_job_less:
  assumes k: "k < length (jobs h)" and step: "run_job hmac marshal s outs k h = Some h'"
  shows "hooks_left (\<lambda>k. deliver hmac marshal s (outs k)) h' < hooks_left (\<lambda>k. deliver hmac marshal s (outs k)) h"
proof -
  let ?f = "\<lambda>h n. steps_left (deliver hmac marshal s (outs n)) (jobs h ! n)"
  have len: "length (jobs h') = length (jobs h)" using step by (cases rule: run_job_cases) auto
  have "?f h' k < ?f h k" using step k by (cases rule: run_job_cases) (auto simp: steps_left_def)
  moreover have "?f h' n = ?f h n" if "n \<noteq> k" for n
    using step that by (cases rule: run_job_cases) auto
  ultimately show ?thesis
    unfolding hooks_left_def len using k
    by (intro sum_strict_mono_ex1) (simp, metis less_or_eq_imp_le, blast)
qed

lemma waiting_place:
  assumes "hooks_inv cap dl h" and "0 < cap" and "places_taken h = cap"
  obtains k evs d where "k < length (jobs h)" and "stage (jobs h ! k) = Delivering evs d"
proof -
  from assms have "filter in_delivery (jobs h) \<noteq> []" by (auto simp: hooks_inv_def)
  then obtain j where "j \<in> set (jobs h)" "in_delivery j" by (auto simp: filter_empty_conv)
  with that show ?thesis by (auto simp: in_set_conv_nth in_delivery_def split: stage.splits)
qed

lemma run_job_None:
  "k < length (jobs h) \<Longrightarrow> run_job hmac marshal s outs k h = None \<longleftrightarrow>
     (case stage (jobs h ! k) of AtSemaphore \<Rightarrow> \<not> places_taken h < sem_cap s | Gone _ \<Rightarrow> True | _ \<Rightarrow> False)"
  by (simp add: run_job_def Let_def split: stage.splits list.splits prod.splits)

text \<open>Whoever is in the wait group can go on, or waits for a place whose holder can.\<close>

lemma hooks_progress:
  assumes inv: "hooks_inv (sem_cap s) (\<lambda>k. deliver hmac marshal s (outs k)) h"
    and cap: "0 < sem_cap s" and left: "wait_group h \<noteq> 0"
  shows "\<exists>h'. hook_step hmac marshal s outs h h'"
proof -
  have runs: "\<exists>h'. hook_step hmac marshal s outs h h'"
    if "n < length (jobs h)" "run_job hmac marshal s outs n h \<noteq> None" for n
    using that unfolding hook_step_def by blast
  have "filter unfinished (jobs h) \<noteq> []" using inv left by (auto simp: hooks_inv_def)
  then obtain j where "j \<in> set (jobs h)" "unfinished j" by (auto simp: filter_empty_conv)
  then obtain k where k: "k < length (jobs h)" "unfinished (jobs h ! k)" by (auto simp: in_set_conv_nth)
  show ?thesis
  proof (cases "stage (jobs h ! k) = AtSemaphore \<and> \<not> places_taken h < sem_cap s")
    case True
    then have "places_taken h = sem_cap s" using inv by (simp add: hooks_inv_def)
    then obtain n evs d where "n < length (jobs h)" "stage (jobs h ! n) = Delivering evs d"
      using waiting_place [OF inv cap] by blast
    then show ?thesis using runs [of n] by (simp add: run_job_None)
  next
    case False
    with k show ?thesis using runs [of k] by (auto simp: run_job_None unfinished_def split: stage.splits)
  qed
qed

lemma nobody_left:
  assumes "hooks_inv cap dl h" and "wait_group h = 0"
  shows "\<not> hook_step hmac marshal s outs h h'"
proof -
  have "run_job hmac marshal s outs k h = None" if k: "k < length (jobs h)" for k
  proof -
    have "\<not> unfinished (jobs h ! k)" using assms k by (simp add: hooks_inv_def filter_empty_conv)
    then show ?thesis using k by (auto simp: run_job_None unfinished_def split: stage.splits)
  qed
  then show ?thesis by (auto simp: hook_step_def)
qed

interpretation deliveries: bounded_runs
    "hook_step hmac marshal s outs" "hooks_left (\<lambda>k. deliver hmac marshal s (outs k))"
    "\<lambda>h. 0 < sem_cap s \<and> hooks_inv (sem_cap s) (\<lambda>k. deliver hmac marshal s (outs k)) h"
    "\<lambda>h. wait_group h = 0"
  for hmac marshal s outs
  by unfold_locales
    (auto simp: hook_step_def intro: hooks_inv_job run_job_less hooks_progress [unfolded hook_step_def])

section \<open>What main can rely on\<close>

lemma NewSender_Some:
  "NewSender url sec = Some s \<Longrightarrow> hook_url s = url \<and> secret s = sec \<and> retries s = 5 \<and> sem_cap s = 32"
  by (auto simp: NewSender_def split: if_splits)

lemma reach_good:
  assumes "NewSender url sec = Some s" and "hooks_reach hmac marshal s outs h"
  shows "0 < sem_cap s \<and> hooks_inv (sem_cap s) (\<lambda>k. deliver hmac marshal s (outs k)) h"
  using reach_inv [OF assms(2)] NewSender_Some [OF assms(1)] by simp

lemma hooks_left_bound:
  assumes "hooks_inv cap (\<lambda>k. deliver hmac marshal s (outs k)) h" and "retries s = 5"
  shows "hooks_left (\<lambda>k. deliver hmac marshal s (outs k)) h \<le> 12 * length (jobs h)"
proof -
  have "steps_left (deliver hmac marshal s (outs k)) (jobs h ! k) \<le> 12" if k: "k < length (jobs h)" for k
  proof -
    have len: "length (fst (deliver hmac marshal s (outs k) i)) \<le> 9" for i
      using deliver_length [of hmac marshal s "outs k" i] assms(2) by simp
    have "job_ok (\<lambda>k. deliver hmac marshal s (outs k)) h k" using assms(1) k by (simp add: hooks_inv_def)
    then show ?thesis
      using len [of "for_invoice (jobs h ! k)"]
      by (cases "stage (jobs h ! k)") (auto simp: steps_left_def job_ok_def dest: arg_cong [where f = length])
  qed
  then have "hooks_left (\<lambda>k. deliver hmac marshal s (outs k)) h \<le> of_nat (card {..<length (jobs h)}) * 12"
    unfolding hooks_left_def by (intro sum_bounded_above) simp
  then show ?thesis by simp
qed

text \<open>
  C23: Deliveries that run side by side do not disturb one another. Whatever is fired and however
  the goroutines are scheduled, at most 32 deliveries are under way at a time, the wait group counts
  exactly those that have not ended, and each goroutine has sent an initial part of its own
  delivery: never a request twice, never one of another invoice, at most five in all.
\<close>

theorem deliveries_are_bounded:
  assumes "NewSender url sec = Some s" and "hooks_reach hmac marshal s outs h"
  shows "length (filter in_delivery (jobs h)) \<le> 32
    \<and> wait_group h = length (filter unfinished (jobs h))
    \<and> (\<forall>k < length (jobs h).
         prefix (events_of k (hook_log h)) (fst (deliver hmac marshal s (outs k) (for_invoice (jobs h ! k)))))"
proof -
  have i: "hooks_inv 32 (\<lambda>k. deliver hmac marshal s (outs k)) h"
    using reach_good [OF assms] NewSender_Some [OF assms(1)] by simp
  with reach_prefix [OF assms(2)] show ?thesis by (auto simp: hooks_inv_def)
qed

lemma nothing_left:
  assumes "hooks_reach hmac marshal s outs h" and "Wait (Some s) h" and "k < length (jobs h)"
  shows "\<exists>d. stage (jobs h ! k) = Gone d
    \<and> deliver hmac marshal s (outs k) (for_invoice (jobs h ! k)) = (events_of k (hook_log h), d)"
proof -
  have i: "hooks_inv (sem_cap s) (\<lambda>k. deliver hmac marshal s (outs k)) h" by (rule reach_inv [OF assms(1)])
  then have "filter unfinished (jobs h) = []" using assms(2) by (simp add: hooks_inv_def Wait_def)
  then have "\<not> unfinished (jobs h ! k)" using assms(3) by (simp add: filter_empty_conv)
  moreover have "job_ok (\<lambda>k. deliver hmac marshal s (outs k)) h k" using i assms(3) by (simp add: hooks_inv_def)
  ultimately show ?thesis by (auto simp: unfinished_def job_ok_def split: stage.splits)
qed

text \<open>
  When \<open>Wait\<close> returns, every invoice given to \<open>Fire\<close> until then has had its whole delivery: its
  goroutine is gone, and what it sent is exactly what the delivery of that invoice prescribes,
  with the result that came of it.
\<close>

theorem waiting_means_delivered:
  assumes "hooks_reach hmac marshal s outs h" and "Wait (Some s) h" and "k < length (jobs h)"
  shows "\<exists>d. stage (jobs h ! k) = Gone d
    \<and> deliver hmac marshal s (outs k) (for_invoice (jobs h ! k)) = (events_of k (hook_log h), d)"
  by (rule nothing_left [OF assms])

text \<open>
  C22: \<open>Wait\<close> does return. Once nothing more is fired, the goroutines take at most twelve
  steps per delivery in all, whoever is scheduled; while one is left in the wait group some goroutine
  can move, although only 32 may deliver; and from every moment on they can all come to their end.
\<close>

theorem waiting_ends:
  assumes "NewSender url sec = Some s" and "hooks_reach hmac marshal s outs h"
    and "(hook_step hmac marshal s outs ^^ n) h h'"
  shows "n \<le> 12 * length (jobs h)
    \<and> (\<not> Wait (Some s) h' \<longrightarrow> (\<exists>h''. hook_step hmac marshal s outs h' h''))
    \<and> (\<exists>h''. (hook_step hmac marshal s outs)\<^sup>*\<^sup>* h' h'' \<and> Wait (Some s) h'')"
proof -
  note g = reach_good [OF assms(1,2)]
  from deliveries.run_bounded [OF assms(3) g]
  have g': "0 < sem_cap s \<and> hooks_inv (sem_cap s) (\<lambda>k. deliver hmac marshal s (outs k)) h'"
    and n: "n \<le> hooks_left (\<lambda>k. deliver hmac marshal s (outs k)) h" by auto
  have "n \<le> 12 * length (jobs h)"
    using n hooks_left_bound [of "sem_cap s" hmac marshal s outs h] g NewSender_Some [OF assms(1)] by simp
  moreover have "\<not> Wait (Some s) h' \<longrightarrow> (\<exists>h''. hook_step hmac marshal s outs h' h'')"
    using deliveries.step_exists [OF g'] by (auto simp: Wait_def)
  moreover have "\<exists>h''. (hook_step hmac marshal s outs)\<^sup>*\<^sup>* h' h'' \<and> Wait (Some s) h''"
    using deliveries.run_completes [OF g'] by (simp add: Wait_def)
  ultimately show ?thesis by blast
qed

lemma schedule_reach:
  "hooks_reach hmac marshal s outs h \<Longrightarrow> hooks_reach hmac marshal s outs (run_schedule hmac marshal s outs ks h)"
proof (induction ks arbitrary: h)
  case (Cons k ks)
  show ?case
  proof (cases "run_job hmac marshal s outs k h")
    case (Some h')
    then have "hook_step hmac marshal s outs h h'"
      unfolding hook_step_def by (metis option.distinct(1) run_job_def)
    from Cons.IH [OF hooks_reach.moved [OF Cons.prems this]] Some show ?thesis by simp
  qed (use Cons in simp)
qed simp

section \<open>Two deliveries\<close>

definition two_sender :: Sender where
  "two_sender = \<lparr>hook_url = ''http://h'', secret = ''k'', retries = 5, sem_cap = 32\<rparr>"

definition two_outs :: "nat \<Rightarrow> nat \<Rightarrow> post_outcome" where
  "two_outs k n = (if k = 0 \<and> n = 0 then ConnFailed else Status_code 200)"

definition two_hooks :: "nat list \<Rightarrow> hooks" where
  "two_hooks ks = run_schedule (\<lambda>_ _. [1, 2]) (\<lambda>_. Some ''{}'') two_sender two_outs ks
     (Fire (Some two_sender) zero_invoice (Fire (Some two_sender) (zero_invoice\<lparr>ID := ''a''\<rparr>) no_hooks))"

lemma two_hooks_reach: "hooks_reach (\<lambda>_ _. [1, 2]) (\<lambda>_. Some ''{}'') two_sender two_outs (two_hooks ks)"
  unfolding two_hooks_def by (intro schedule_reach hooks_reach.intros)

lemma two_sender_new: "NewSender ''http://h'' ''k'' = Some two_sender"
  by (simp add: NewSender_def two_sender_def)

lemma two_hooks_middle:
  "length (jobs (two_hooks [0, 0, 1, 1])) = 2 \<and> length (filter in_delivery (jobs (two_hooks [0, 0, 1, 1]))) = 2
   \<and> length (events_of 0 (hook_log (two_hooks [0, 0, 1, 1]))) = 1"
  by code_simp

lemma two_hooks_end:
  "Wait (Some two_sender) (two_hooks (concat (replicate 6 [0, 1])))
   \<and> length (jobs (two_hooks (concat (replicate 6 [0, 1])))) = 2"
  by code_simp

theorem deliveries_are_bounded_witness:
  "let h = two_hooks [0, 0, 1, 1] in wait_group h = length (filter unfinished (jobs h))
     \<and> length (filter in_delivery (jobs h)) = 2
     \<and> prefix (events_of 0 (hook_log h))
         (fst (deliver (\<lambda>_ _. [1, 2]) (\<lambda>_. Some ''{}'') two_sender (two_outs 0) (for_invoice (jobs h ! 0))))"
  using deliveries_are_bounded [OF two_sender_new two_hooks_reach, of "[0, 0, 1, 1]"] two_hooks_middle
  by (simp add: Let_def)

theorem waiting_means_delivered_witness:
  "let h = two_hooks (concat (replicate 6 [0, 1])) in \<exists>d. stage (jobs h ! 1) = Gone d
     \<and> deliver (\<lambda>_ _. [1, 2]) (\<lambda>_. Some ''{}'') two_sender (two_outs 1) (for_invoice (jobs h ! 1))
         = (events_of 1 (hook_log h), d)"
  using waiting_means_delivered [OF two_hooks_reach, of "concat (replicate 6 [0, 1])" 1] two_hooks_end
  by (simp add: Let_def)

theorem waiting_ends_witness:
  "\<exists>h. (hook_step (\<lambda>_ _. [1, 2]) (\<lambda>_. Some ''{}'') two_sender two_outs)\<^sup>*\<^sup>* (two_hooks [0, 0, 1, 1]) h
     \<and> Wait (Some two_sender) h"
  using waiting_ends [OF two_sender_new two_hooks_reach, of 0 "[0, 0, 1, 1]" "two_hooks [0, 0, 1, 1]"]
  by simp

end
