(* ===== verification/Process.thy ===== *)
theory Process
  imports Startup Delivery
begin

text \<open>
  cmd/server/main.go from the started parts to the end of the process: the listener, the poller
  and the webhook goroutines beside the main goroutine, which waits for a signal and then shuts
  them down in order.  Handlers and ticks appear with what matters to the shutdown, that they run
  and that they may fire the webhook; time passes where main waits for it.
\<close>

section \<open>The code\<close>

datatype exit = Clean | ListenFatal

text \<open>Where the main goroutine is.\<close>

datatype main_at =
    AwaitSignal
  | StopPoller
  | CloseListener
  | ShutdownServer
  | DrainHooks
  | ClosePool
  | Exited exit

record process =
  main_at :: main_at
  listening :: bool
  requests :: nat
  poll_done :: bool
  poll_loop :: bool
  ticking :: bool
  shutdown_failed :: bool
  drained :: bool
  drain_timed_out :: bool
  pool_open :: "bool option"
  hooks_now :: hooks
  waited :: duration

definition shutdown_limit :: duration where [go_defs]: "shutdown_limit = 10 * Second"
definition drain_limit :: duration where [go_defs]: "drain_limit = 5 * Second"

definition process_start :: "boot \<Rightarrow> process" where
  "process_start b =
     \<lparr>main_at = AwaitSignal, listening = True, requests = 0, poll_done = False,
      poll_loop = PollEnabled (boot_cfg b), ticking = False, shutdown_failed = False, drained = False,
      drain_timed_out = False,
      pool_open = (case boot_store b of UsePostgres _ \<Rightarrow> Some True | UseMemory _ \<Rightarrow> None),
      hooks_now = no_hooks, waited = 0\<rparr>"

text \<open>
  The main goroutine.  \<open>Shutdown\<close> closes the listener and returns when no request is left or
  after ten seconds with an error that is only logged; the drain ends when the channel is closed
  or after five seconds.
\<close>

inductive main_step :: "process \<Rightarrow> process \<Rightarrow> bool" where
  signal: "main_at p = AwaitSignal \<Longrightarrow> main_step p (p\<lparr>main_at := StopPoller\<rparr>)"
| stop_poller: "main_at p = StopPoller \<Longrightarrow> main_step p (p\<lparr>main_at := CloseListener, poll_done := True\<rparr>)"
| close_listener: "main_at p = CloseListener \<Longrightarrow>
    main_step p (p\<lparr>main_at := ShutdownServer, listening := False\<rparr>)"
| shutdown_ok: "main_at p = ShutdownServer \<Longrightarrow> requests p = 0 \<Longrightarrow> 0 \<le> t \<Longrightarrow> t \<le> shutdown_limit \<Longrightarrow>
    main_step p (p\<lparr>main_at := DrainHooks, waited := waited p + t\<rparr>)"
| shutdown_late: "main_at p = ShutdownServer \<Longrightarrow>
    main_step p (p\<lparr>main_at := DrainHooks, shutdown_failed := True, waited := waited p + shutdown_limit\<rparr>)"
| drain_ok: "main_at p = DrainHooks \<Longrightarrow> drained p \<Longrightarrow> 0 \<le> t \<Longrightarrow> t \<le> drain_limit \<Longrightarrow>
    main_step p (p\<lparr>main_at := ClosePool, waited := waited p + t\<rparr>)"
| drain_late: "main_at p = DrainHooks \<Longrightarrow>
    main_step p (p\<lparr>main_at := ClosePool, drain_timed_out := True, waited := waited p + drain_limit\<rparr>)"
| close_pool: "main_at p = ClosePool \<Longrightarrow>
    main_step p (p\<lparr>main_at := Exited Clean, pool_open := map_option (\<lambda>_. False) (pool_open p)\<rparr>)"

text \<open>
  The other goroutines, while the process lives: handlers, the poller, the deliveries, the
  goroutine that waits for them and closes \<open>drained\<close>, and the listener, whose failure ends the
  process.  The poller's \<open>select\<close> may still choose the ticker when its context is done.
\<close>

inductive other_step ::
  "(string \<Rightarrow> string \<Rightarrow> byte list) \<Rightarrow> (invoice \<Rightarrow> string option) \<Rightarrow> Sender option \<Rightarrow> (nat \<Rightarrow> nat \<Rightarrow> post_outcome)
    \<Rightarrow> process \<Rightarrow> process \<Rightarrow> bool"
  for hmac marshal sender outs where
  accept: "listening p \<Longrightarrow> other_step hmac marshal sender outs p (p\<lparr>requests := requests p + 1\<rparr>)"
| handler_fires: "requests p > 0 \<Longrightarrow>
    other_step hmac marshal sender outs p (p\<lparr>hooks_now := Fire sender i (hooks_now p)\<rparr>)"
| respond: "requests p > 0 \<Longrightarrow> other_step hmac marshal sender outs p (p\<lparr>requests := requests p - 1\<rparr>)"
| tick_begins: "poll_loop p \<Longrightarrow> \<not> ticking p \<Longrightarrow> other_step hmac marshal sender outs p (p\<lparr>ticking := True\<rparr>)"
| tick_fires: "ticking p \<Longrightarrow>
    other_step hmac marshal sender outs p (p\<lparr>hooks_now := Fire sender i (hooks_now p)\<rparr>)"
| tick_ends: "ticking p \<Longrightarrow> other_step hmac marshal sender outs p (p\<lparr>ticking := False\<rparr>)"
| poller_returns: "poll_loop p \<Longrightarrow> \<not> ticking p \<Longrightarrow> poll_done p \<Longrightarrow>
    other_step hmac marshal sender outs p (p\<lparr>poll_loop := False\<rparr>)"
| delivers: "sender = Some s \<Longrightarrow> hook_step hmac marshal s outs (hooks_now p) h \<Longrightarrow>
    other_step hmac marshal sender outs p (p\<lparr>hooks_now := h\<rparr>)"
| waiter: "main_at p = DrainHooks \<Longrightarrow> Wait sender (hooks_now p) \<Longrightarrow>
    other_step hmac marshal sender outs p (p\<lparr>drained := True\<rparr>)"
| listen_fails: "listening p \<Longrightarrow>
    other_step hmac marshal sender outs p (p\<lparr>main_at := Exited ListenFatal\<rparr>)"

definition running_process :: "process \<Rightarrow> bool" where
  "running_process p \<longleftrightarrow> (case main_at p of Exited _ \<Rightarrow> False | _ \<Rightarrow> True)"

inductive lives ::
  "(string \<Rightarrow> string \<Rightarrow> byte list) \<Rightarrow> (invoice \<Rightarrow> string option) \<Rightarrow> (nat \<Rightarrow> nat \<Rightarrow> post_outcome)
    \<Rightarrow> boot \<Rightarrow> process \<Rightarrow> bool"
  for hmac marshal outs b where
  started: "lives hmac marshal outs b (process_start b)"
| main_moves: "lives hmac marshal outs b p \<Longrightarrow> main_step p q \<Longrightarrow> lives hmac marshal outs b q"
| others_move: "lives hmac marshal outs b p \<Longrightarrow> running_process p \<Longrightarrow>
    other_step hmac marshal (boot_sender b) outs p q \<Longrightarrow> lives hmac marshal outs b q"

inductive_cases main_stepE: "main_step p q"
inductive_cases other_stepE: "other_step hmac marshal sender outs p q"

section \<open>The order of the shutdown\<close>

definition main_rank :: "process \<Rightarrow> nat" where
  "main_rank p = (case main_at p of AwaitSignal \<Rightarrow> 6 | StopPoller \<Rightarrow> 5 | CloseListener \<Rightarrow> 4 | ShutdownServer \<Rightarrow> 3
     | DrainHooks \<Rightarrow> 2 | ClosePool \<Rightarrow> 1 | Exited _ \<Rightarrow> 0)"

text \<open>What each position of main tells about the rest of the process.\<close>

definition start_pool :: "boot \<Rightarrow> bool option" where
  "start_pool b = (case boot_store b of UsePostgres _ \<Rightarrow> Some True | UseMemory _ \<Rightarrow> None)"

definition orderly :: "boot \<Rightarrow> process \<Rightarrow> bool" where
  "orderly b p \<longleftrightarrow>
     (main_at p = Exited ListenFatal \<or>
       (main_rank p \<le> 4 \<longrightarrow> poll_done p) \<and> (main_rank p \<le> 3 \<longrightarrow> \<not> listening p)
       \<and> (main_rank p \<le> 2 \<longrightarrow> shutdown_failed p \<or> requests p = 0)
       \<and> (main_rank p \<le> 1 \<longrightarrow> drained p \<or> drain_timed_out p)
       \<and> (drained p \<longrightarrow> main_rank p \<le> 2))
     \<and> (main_at p = Exited Clean \<longrightarrow> pool_open p \<noteq> Some True)
     \<and> (main_at p \<noteq> Exited Clean \<longrightarrow> pool_open p = start_pool b)
     \<and> (main_rank p \<ge> 3 \<longrightarrow> waited p = 0) \<and> (main_rank p \<ge> 2 \<longrightarrow> waited p \<le> shutdown_limit)
     \<and> waited p \<le> shutdown_limit + drain_limit"

lemma orderly_start: "orderly b (process_start b)"
  by (simp add: orderly_def process_start_def main_rank_def start_pool_def go_defs)

lemma orderly_main: "orderly b p \<Longrightarrow> main_step p q \<Longrightarrow> orderly b q"
  by (erule main_stepE) (auto simp: orderly_def main_rank_def go_defs)

lemma orderly_other:
  "orderly b p \<Longrightarrow> running_process p \<Longrightarrow> other_step hmac marshal sender outs p q \<Longrightarrow> orderly b q"
  by (erule other_stepE) (auto simp: orderly_def main_rank_def running_process_def go_defs split: main_at.splits)

lemma lives_orderly: "lives hmac marshal outs b p \<Longrightarrow> orderly b p"
  by (induction rule: lives.induct) (blast intro: orderly_start orderly_main orderly_other)+


section \<open>The shutdown ends\<close>

interpretation main: bounded_runs main_step main_rank
    "\<lambda>p. main_at p \<noteq> AwaitSignal" "\<lambda>p. \<not> running_process p"
proof
  show "main_at q \<noteq> AwaitSignal" if "main_at p \<noteq> AwaitSignal" "main_step p q" for p q
    using that(2) by cases auto
  show "main_rank q < main_rank p" if "main_at p \<noteq> AwaitSignal" "main_step p q" for p q
    using that(2) by cases (auto simp: main_rank_def)
  show "\<exists>q. main_step p q" if "main_at p \<noteq> AwaitSignal" "\<not> \<not> running_process p" for p
    using that by (cases "main_at p")
      (auto simp: running_process_def intro: main_step.intros)
qed

lemma rank_other: "other_step hmac marshal sender outs p q \<Longrightarrow> main_rank q \<le> main_rank p"
  by (erule other_stepE) (auto simp: main_rank_def)

text \<open>
  Nothing can hold up the shutdown. After the signal, whatever handlers, ticks and
  deliveries are doing, main always has a next step, no step of anybody sets it back, and
  after at most five more of its own steps the process has exited.
\<close>

theorem shutdown_always_ends:
  assumes "main_at p \<noteq> AwaitSignal" and "running_process p"
  shows "(\<forall>n q. (main_step ^^ n) p q \<longrightarrow> n \<le> 5)
    \<and> (\<exists>q. main_step\<^sup>*\<^sup>* p q \<and> main_at q = Exited Clean)
    \<and> (\<forall>q. other_step hmac marshal sender outs p q \<longrightarrow> main_rank q \<le> main_rank p)"
proof -
  have "main_rank p \<le> 5" using assms(1) by (cases "main_at p") (auto simp: main_rank_def)
  then have "n \<le> 5" if "(main_step ^^ n) p q" for n q
    using main.run_bounded [OF that assms(1)] by linarith
  moreover have "main_at q = Exited Clean" if "main_step\<^sup>*\<^sup>* p q" "\<not> running_process q" for q
    using that assms(2)
    by (induction rule: rtranclp_induct) (auto elim!: main_stepE simp: running_process_def split: main_at.splits)
  ultimately show ?thesis using main.run_completes [OF assms(1)] rank_other by blast
qed

section \<open>What a shutdown does to notifications\<close>

lemma lives_hooks:
  assumes "lives hmac marshal outs b p" and "boot_sender b = Some s"
  shows "hooks_reach hmac marshal s outs (hooks_now p)"
  using assms(1)
proof induction
  case started
  then show ?case by (simp add: process_start_def hooks_reach.none_yet)
next
  case (main_moves p q)
  then show ?case by (auto elim!: main_stepE)
next
  case (others_move p q)
  from others_move(3) show ?case
    using others_move.IH assms(2) by cases (auto intro: hooks_reach.intros)
qed

text \<open>Without a poller nothing is fired any more once the handlers are gone.\<close>

definition calm :: "boot \<Rightarrow> process \<Rightarrow> bool" where
  "calm b p \<longleftrightarrow> \<not> poll_loop p \<and> \<not> ticking p
     \<and> (drained p \<and> \<not> shutdown_failed p \<longrightarrow> Wait (boot_sender b) (hooks_now p))"

lemma calm_main: "calm b p \<Longrightarrow> orderly b p \<Longrightarrow> main_step p q \<Longrightarrow> calm b q"
  by (erule main_stepE) (auto simp: calm_def orderly_def main_rank_def)

lemma calm_other:
  assumes "calm b p" and "orderly b p" and "running_process p"
    and hooks: "\<And>s. boot_sender b = Some s \<Longrightarrow> hooks_reach hmac marshal s outs (hooks_now p)"
    and "other_step hmac marshal (boot_sender b) outs p q"
  shows "calm b q"
  using assms(5)
proof cases
  case (handler_fires i)
  then have "\<not> (drained p \<and> \<not> shutdown_failed p)"
    using assms(2,3) by (auto simp: orderly_def running_process_def)
  then show ?thesis using assms(1) handler_fires by (auto simp: calm_def)
next
  case (delivers s h)
  have "wait_group (hooks_now p) \<noteq> 0"
    using delivers(3) nobody_left [OF reach_inv [OF hooks [OF delivers(2)]]] by blast
  then have "\<not> Wait (boot_sender b) (hooks_now p)" using delivers(2) by (simp add: Wait_def)
  then show ?thesis using assms(1) delivers by (auto simp: calm_def)
qed (use assms(1) in \<open>auto simp: calm_def\<close>)

lemma lives_calm:
  assumes "lives hmac marshal outs b p" and "\<not> PollEnabled (boot_cfg b)"
  shows "calm b p"
  using assms(1)
proof induction
  case started
  then show ?case using assms(2) by (simp add: calm_def process_start_def)
next
  case (main_moves p q)
  then show ?case using calm_main lives_orderly by blast
next
  case (others_move p q)
  then show ?case using calm_other lives_orderly lives_hooks by blast
qed

text \<open>
  C10: A shutdown that met neither of its time limits loses no notification, when no poller is
  configured: every invoice that was ever given to the webhook has had its whole delivery, with
  the requests and the result the delivery prescribes, before the process exits.
\<close>

theorem clean_shutdown_delivers:
  assumes "lives hmac marshal outs b p" and "main_at p = Exited Clean"
    and "\<not> shutdown_failed p" and "\<not> drain_timed_out p"
    and "\<not> PollEnabled (boot_cfg b)" and "boot_sender b = Some s" and "k < length (jobs (hooks_now p))"
  shows "\<exists>d. stage (jobs (hooks_now p) ! k) = Gone d
    \<and> deliver hmac marshal s (outs k) (for_invoice (jobs (hooks_now p) ! k))
        = (events_of k (hook_log (hooks_now p)), d)"
proof -
  have "drained p" using lives_orderly [OF assms(1)] assms(2,4) by (auto simp: orderly_def main_rank_def)
  then have "Wait (Some s) (hooks_now p)" using lives_calm [OF assms(1,5)] assms(3,6) by (simp add: calm_def)
  from nothing_left [OF lives_hooks [OF assms(1,6)] this assms(7)] show ?thesis .
qed

text \<open>
  The poller is told to stop but not waited for: a tick that is under way when the signal comes
  settles an invoice after the drain has found nothing to wait for.
\<close>

definition quiet_shutdown :: "boot \<Rightarrow> process" where
  "quiet_shutdown b = (process_start b)\<lparr>ticking := True, main_at := DrainHooks, poll_done := True,
     listening := False, drained := True\<rparr>"

lemma quiet_shutdown_lives:
  assumes "PollEnabled (boot_cfg b)" and "boot_sender b = Some s"
  shows "lives hmac marshal outs b (quiet_shutdown b)"
proof -
  let ?p0 = "process_start b"
  let ?p1 = "?p0\<lparr>ticking := True\<rparr>"
  let ?p2 = "?p1\<lparr>main_at := StopPoller\<rparr>"
  let ?p2' = "?p2\<lparr>main_at := CloseListener, poll_done := True\<rparr>"
  let ?p3 = "?p2'\<lparr>main_at := ShutdownServer, listening := False\<rparr>"
  let ?p4 = "?p3\<lparr>main_at := DrainHooks, waited := waited ?p3 + 0\<rparr>"
  let ?p5 = "?p4\<lparr>drained := True\<rparr>"
  have "lives hmac marshal outs b ?p1"
    by (rule lives.others_move [OF lives.started _ other_step.tick_begins])
      (simp_all add: process_start_def running_process_def assms(1))
  then have "lives hmac marshal outs b ?p2"
    by (rule lives.main_moves [OF _ main_step.signal]) (simp add: process_start_def)
  then have "lives hmac marshal outs b ?p2'" by (rule lives.main_moves [OF _ main_step.stop_poller]) simp
  then have "lives hmac marshal outs b ?p3" by (rule lives.main_moves [OF _ main_step.close_listener]) simp
  then have "lives hmac marshal outs b ?p4"
    by (rule lives.main_moves [OF _ main_step.shutdown_ok]) (simp_all add: process_start_def go_defs)
  then have "lives hmac marshal outs b ?p5"
    by (rule lives.others_move [OF _ _ other_step.waiter])
      (simp_all add: process_start_def running_process_def Wait_def no_hooks_def assms(2))
  then show ?thesis by (simp add: quiet_shutdown_def process_start_def)
qed


section \<open>The production process\<close>

lemma prod_boot_polls: "PollEnabled (boot_cfg prod_boot)"
  by (simp add: prod_boot_def Load_def prod_environment_def getenv_def boolDef_def)


lemma quiet_prod: "lives (\<lambda>_ _. []) (\<lambda>_. Some ''{}'') (\<lambda>_ _. Status_code 200) prod_boot (quiet_shutdown prod_boot)"
  by (rule quiet_shutdown_lives [OF prod_boot_polls]) (simp add: prod_boot_def)

theorem shutdown_always_ends_witness:
  "\<exists>q. main_step\<^sup>*\<^sup>* (quiet_shutdown prod_boot) q \<and> main_at q = Exited Clean"
  using shutdown_always_ends [of "quiet_shutdown prod_boot"]
  by (simp add: quiet_shutdown_def running_process_def)

text \<open>A process without a poller whose two handlers fire before the signal.\<close>

definition calm_boot :: boot where
  "calm_boot = prod_boot\<lparr>boot_cfg := (boot_cfg prod_boot)\<lparr>PollEnabled := False\<rparr>, boot_sender := Some two_sender\<rparr>"

lemma schedule_lives:
  assumes "lives hmac marshal outs b p" and "running_process p" and "boot_sender b = Some s"
  shows "lives hmac marshal outs b (p\<lparr>hooks_now := run_schedule hmac marshal s outs ks (hooks_now p)\<rparr>)"
  using assms(1,2)
proof (induction ks arbitrary: p)
  case (Cons k ks)
  show ?case
  proof (cases "run_job hmac marshal s outs k (hooks_now p)")
    case None
    then show ?thesis using Cons by simp
  next
    case (Some h)
    have "hook_step hmac marshal s outs (hooks_now p) h"
      unfolding hook_step_def using Some by (metis option.distinct(1) run_job_def)
    from lives.others_move [OF Cons.prems other_step.delivers [OF assms(3) this]]
    have "lives hmac marshal outs b (p\<lparr>hooks_now := h\<rparr>)" .
    from Cons.IH [OF this] Cons.prems(2) Some show ?thesis by (simp add: running_process_def)
  qed
qed simp

definition calm_end :: process where
  "calm_end = (process_start calm_boot)\<lparr>main_at := Exited Clean, poll_done := True, listening := False,
     drained := True, pool_open := Some False, hooks_now := two_hooks (concat (replicate 6 [0, 1]))\<rparr>"

lemma calm_end_lives: "lives (\<lambda>_ _. [1, 2]) (\<lambda>_. Some ''{}'') two_outs calm_boot calm_end"
proof -
  let ?L = "lives (\<lambda>_ _. [1, 2]) (\<lambda>_. Some ''{}'') two_outs calm_boot"
  let ?o = "other_step (\<lambda>_ _. [1, 2]) (\<lambda>_. Some ''{}'') (boot_sender calm_boot) two_outs"
  have s: "boot_sender calm_boot = Some two_sender" by (simp add: calm_boot_def)
  let ?fire = "\<lambda>i p. p\<lparr>hooks_now := Fire (boot_sender calm_boot) i (hooks_now p)\<rparr>"
  let ?p0 = "process_start calm_boot"
  let ?p1 = "?p0\<lparr>requests := requests ?p0 + 1\<rparr>"
  let ?p2 = "?fire (zero_invoice\<lparr>ID := ''a''\<rparr>) ?p1"
  let ?p3 = "?fire zero_invoice ?p2"
  let ?p4 = "?p3\<lparr>requests := requests ?p3 - 1\<rparr>"
  let ?p5 = "?p4\<lparr>hooks_now := run_schedule (\<lambda>_ _. [1, 2]) (\<lambda>_. Some ''{}'') two_sender two_outs
     (concat (replicate 6 [0, 1])) (hooks_now ?p4)\<rparr>"
  let ?p6 = "?p5\<lparr>main_at := StopPoller\<rparr>"
  let ?p6' = "?p6\<lparr>main_at := CloseListener, poll_done := True\<rparr>"
  let ?p7 = "?p6'\<lparr>main_at := ShutdownServer, listening := False\<rparr>"
  let ?p8 = "?p7\<lparr>main_at := DrainHooks, waited := waited ?p7 + 0\<rparr>"
  let ?p9 = "?p8\<lparr>drained := True\<rparr>"
  let ?p10 = "?p9\<lparr>main_at := ClosePool, waited := waited ?p9 + 0\<rparr>"
  let ?p11 = "?p10\<lparr>main_at := Exited Clean, pool_open := map_option (\<lambda>_. False) (pool_open ?p10)\<rparr>"
  have other: "?L p \<Longrightarrow> ?o p q \<Longrightarrow> main_at p = AwaitSignal \<or> main_at p = DrainHooks \<Longrightarrow> ?L q" for p q
    by (rule lives.others_move) (auto simp: running_process_def)
  have at: "main_at ?p0 = AwaitSignal" "requests ?p0 = 0" "listening ?p0" by (simp_all add: process_start_def)
  have h: "hooks_now ?p5 = two_hooks (concat (replicate 6 [0, 1]))"
    by (simp add: two_hooks_def process_start_def s del: run_schedule.simps)
  have w: "Wait (boot_sender calm_boot) (hooks_now ?p5)"
    by (subst h) (simp only: s two_hooks_end)
  have "?L ?p1" by (rule other [OF lives.started other_step.accept]) (simp_all add: at)
  then have "?L ?p2" by (rule other [OF _ other_step.handler_fires]) (simp_all add: at)
  then have "?L ?p3" by (rule other [OF _ other_step.handler_fires]) (simp_all add: at)
  then have "?L ?p4" by (rule other [OF _ other_step.respond]) (simp_all add: at)
  then have "?L ?p5" by (rule schedule_lives) (simp_all add: running_process_def at s)
  then have "?L ?p6" by (rule lives.main_moves [OF _ main_step.signal]) (simp add: at)
  then have "?L ?p6'" by (rule lives.main_moves [OF _ main_step.stop_poller]) simp
  then have "?L ?p7" by (rule lives.main_moves [OF _ main_step.close_listener]) simp
  then have "?L ?p8" by (rule lives.main_moves [OF _ main_step.shutdown_ok]) (simp_all add: at go_defs)
  then have "?L ?p9" by (rule other [OF _ other_step.waiter]) (use w in simp_all)
  then have "?L ?p10" by (rule lives.main_moves [OF _ main_step.drain_ok]) (simp_all add: go_defs)
  then have "?L ?p11" by (rule lives.main_moves [OF _ main_step.close_pool]) simp
  moreover have "?p11 = calm_end"
    using h by (simp add: calm_end_def process_start_def calm_boot_def prod_boot_def del: run_schedule.simps)
  ultimately show ?thesis by simp
qed

theorem clean_shutdown_delivers_witness:
  "\<exists>d. stage (jobs (hooks_now calm_end) ! 1) = Gone d
     \<and> deliver (\<lambda>_ _. [1, 2]) (\<lambda>_. Some ''{}'') two_sender (two_outs 1) (for_invoice (jobs (hooks_now calm_end) ! 1))
        = (events_of 1 (hook_log (hooks_now calm_end)), d)"
  using clean_shutdown_delivers [OF calm_end_lives, of two_sender 1] two_hooks_end
  by (simp add: calm_end_def calm_boot_def process_start_def)


end
