(* ===== verification/Creation.thy ===== *)
theory Creation
  imports Service_Stores
begin

text \<open>
  Concurrent creations (\<open>CreateInvoice\<close> of internal/service/service.go).  A request counts the
  pending invoices, compares with the caps and only then inserts, each a store call of its own,
  so other requests, settlements and expiries run in between.  A slot is a handler that serves one
  request after another; there are \<open>G\<close> of them.
\<close>

section \<open>Steps\<close>

datatype create_pc =
    Resting
  | Counting string int64 duration "(string \<times> string) list"
  | Allocating nat invoice

record 's creators =
  cstore :: 's
  cpc :: "nat \<Rightarrow> create_pc"

definition put :: "nat \<Rightarrow> create_pc \<Rightarrow> 's creators \<Rightarrow> 's creators" where
  "put g p c = c\<lparr>cpc := (cpc c)(g := p)\<rparr>"

lemma put_simps [simp]:
  "cstore (put g p c) = cstore c" "cpc (put g p c) = (cpc c)(g := p)"
  by (simp_all add: put_def)

text \<open>
  \<open>vw\<close> is the content of the store, used only to say that a drawn id is fresh, and \<open>ok\<close> says which
  surroundings a count may meet.
\<close>

inductive create_step ::
  "('s, 'w, 'e, 'v) Service \<Rightarrow> ('s \<Rightarrow> ledger) \<Rightarrow> ('w \<Rightarrow> 's \<Rightarrow> bool) \<Rightarrow> nat \<Rightarrow> 's creators \<Rightarrow> 's creators \<Rightarrow> bool"
  for svc :: "('s, 'w, 'e, 'v) Service" and vw ok G where
  asks: "g < G \<Longrightarrow> cpc c g = Resting \<Longrightarrow> amountNano > 0 \<Longrightarrow> resolvePayTo svc payTo = Inr addr \<Longrightarrow>
    validateMetadata md = None \<Longrightarrow>
    create_step svc vw ok G c (put g (Counting addr amountNano ttl md) c)"
| refused: "g < G \<Longrightarrow> cpc c g = Counting addr amountNano ttl md \<Longrightarrow>
    checkCaps svc w (cstore c) addr = Some e \<Longrightarrow> create_step svc vw ok G c (put g Resting c)"
| passes: "g < G \<Longrightarrow> cpc c g = Counting addr amountNano ttl md \<Longrightarrow> ok w (cstore c) \<Longrightarrow>
    checkCaps svc w (cstore c) addr = None \<Longrightarrow>
    create_step svc vw ok G c
      (put g (Allocating 5 (newInvoice svc t addr amountNano (effectiveTTL svc ttl) md)) c)"
| gives_up: "g < G \<Longrightarrow> cpc c g = Allocating 0 i \<Longrightarrow> create_step svc vw ok G c (put g Resting c)"
| collides: "g < G \<Longrightarrow> cpc c g = Allocating (Suc left) i \<Longrightarrow> NewID ''inv'' d = Some k \<Longrightarrow> NewMemo d' = Some m \<Longrightarrow>
    vw (cstore c) k = None \<Longrightarrow>
    CreateInvoice (svc_st svc) w (cstore c) (i\<lparr>ID := k, Memo := m\<rparr>) = (Some ErrMemoExists, s') \<Longrightarrow>
    create_step svc vw ok G c (put g (Allocating left (i\<lparr>ID := k, Memo := m\<rparr>)) (c\<lparr>cstore := s'\<rparr>))"
| answers: "g < G \<Longrightarrow> cpc c g = Allocating (Suc left) i \<Longrightarrow> NewID ''inv'' d = Some k \<Longrightarrow> NewMemo d' = Some m \<Longrightarrow>
    vw (cstore c) k = None \<Longrightarrow>
    CreateInvoice (svc_st svc) w (cstore c) (i\<lparr>ID := k, Memo := m\<rparr>) = (r, s') \<Longrightarrow> r \<noteq> Some ErrMemoExists \<Longrightarrow>
    create_step svc vw ok G c (put g Resting (c\<lparr>cstore := s'\<rparr>))"
| claimed: "ClaimInvoiceForSettlement (svc_st svc) w (cstore c) iid tx t = (r, s') \<Longrightarrow>
    create_step svc vw ok G c (c\<lparr>cstore := s'\<rparr>)"
| expires: "ExpireInvoice (svc_st svc) w (cstore c) iid = (r, s') \<Longrightarrow>
    create_step svc vw ok G c (c\<lparr>cstore := s'\<rparr>)"

definition at_rest :: "'s \<Rightarrow> 's creators" where
  "at_rest s = \<lparr>cstore = s, cpc = (\<lambda>_. Resting)\<rparr>"

section \<open>How far the caps can be passed\<close>

text \<open>The pending invoices of some addresses, and the slots about to insert one.\<close>

definition pend :: "(string \<Rightarrow> bool) \<Rightarrow> ledger \<Rightarrow> string set" where
  "pend A v = {iid. \<exists>i. v iid = Some i \<and> pending i \<and> A (PayTo i)}"

lemma pend_all: "pending_ids v = pend (\<lambda>_. True) v" and pend_for: "pending_ids_for v addr = pend (\<lambda>b. b = addr) v"
  by (auto simp: pend_def pending_ids_def pending_ids_for_def is_pending_def)

fun inserting :: "(string \<Rightarrow> bool) \<Rightarrow> create_pc \<Rightarrow> bool" where
  "inserting A (Allocating _ i) = A (PayTo i)"
| "inserting A _ = False"

definition inserters :: "(string \<Rightarrow> bool) \<Rightarrow> nat \<Rightarrow> 's creators \<Rightarrow> nat set" where
  "inserters A G c = {g. g < G \<and> inserting A (cpc c g)}"

lemma finite_inserters [simp]: "finite (inserters A G c)"
  by (simp add: inserters_def)

lemma card_inserters: "card (inserters A G c) \<le> G"
  using card_mono [of "{..<G}" "inserters A G c"] by (auto simp: inserters_def)

lemma inserters_put:
  "inserters A G (put g p c) = (if g < G \<and> inserting A p then insert g (inserters A G c) else inserters A G c - {g})"
  by (auto simp: inserters_def)

lemma inserters_store [simp]: "inserters A G (c\<lparr>cstore := s\<rparr>) = inserters A G c"
  by (simp add: inserters_def)

definition crowd :: "('s \<Rightarrow> ledger) \<Rightarrow> (string \<Rightarrow> bool) \<Rightarrow> nat \<Rightarrow> 's creators \<Rightarrow> nat" where
  "crowd vw A G c = card (pend A (vw (cstore c))) + card (inserters A G c)"

text \<open>What a slot carries can be stored.\<close>

definition pcs_ok :: "'s creators \<Rightarrow> bool" where
  "pcs_ok c \<longleftrightarrow> (\<forall>g. case cpc c g of Resting \<Rightarrow> True
     | Counting addr _ _ _ \<Rightarrow> nul_free addr | Allocating _ i \<Rightarrow> nul_free (PayTo i) \<and> pending i)"

lemma pcs_okD:
  assumes "pcs_ok c"
  shows "cpc c g = Counting addr n ttl md \<Longrightarrow> nul_free addr"
    and "cpc c g = Allocating left i \<Longrightarrow> nul_free (PayTo i) \<and> pending i"
  using assms [unfolded pcs_ok_def, THEN spec, of g] by simp_all

lemma pcs_ok_put: "pcs_ok c \<Longrightarrow> (case p of Resting \<Rightarrow> True
     | Counting addr _ _ _ \<Rightarrow> nul_free addr | Allocating _ i \<Rightarrow> nul_free (PayTo i) \<and> pending i) \<Longrightarrow> pcs_ok (put g p c)"
  by (simp add: pcs_ok_def)

lemma pend_less:
  assumes "finite (dom v)" and "v' = v \<or> (\<exists>k i. v' = v(k \<mapsto> i) \<and> \<not> pending i)"
  shows "card (pend A v') \<le> card (pend A v)"
proof -
  have "finite (pend A v)" by (rule finite_subset [OF _ assms(1)]) (auto simp: pend_def)
  moreover have "pend A v' \<subseteq> pend A v" using assms(2) by (auto simp: pend_def split: if_splits)
  ultimately show ?thesis by (rule card_mono)
qed

lemma pend_insert:
  assumes "v k = None"
  shows "card (pend A (v(k \<mapsto> i))) \<le> card (pend A v) + (if A (PayTo i) then 1 else 0)"
proof (cases "A (PayTo i)")
  case True
  have "pend A (v(k \<mapsto> i)) \<subseteq> insert k (pend A v)" by (auto simp: pend_def split: if_splits)
  then have "card (pend A (v(k \<mapsto> i))) \<le> card (insert k (pend A v)) \<or> infinite (pend A v)"
    by (metis card_mono finite_insert)
  moreover have "card (insert k (pend A v)) \<le> Suc (card (pend A v))" by (rule card_insert_le_m1) simp_all
  moreover have "infinite (pend A (v(k \<mapsto> i)))" if "infinite (pend A v)"
  proof -
    have "pend A v \<subseteq> pend A (v(k \<mapsto> i))" using assms by (auto simp: pend_def)
    with that show ?thesis by (metis finite_subset)
  qed
  ultimately show ?thesis using True by fastforce
next
  case False
  then have "pend A (v(k \<mapsto> i)) = pend A v" using assms by (auto simp: pend_def split: if_splits)
  then show ?thesis by simp
qed

lemma crowd_put:
  assumes "\<not> inserting A p \<or> inserting A (cpc c g)" and "vw s' = vw (cstore c)"
  shows "crowd vw A G (put g p (c\<lparr>cstore := s'\<rparr>)) \<le> crowd vw A G c"
proof -
  have "inserters A G (put g p (c\<lparr>cstore := s'\<rparr>)) \<subseteq> inserters A G c"
    using assms(1) by (auto simp: inserters_def split: if_splits)
  from card_mono [OF finite_inserters this] show ?thesis by (simp add: crowd_def assms(2))
qed

lemma crowd_put_pc:
  "\<not> inserting A p \<or> inserting A (cpc c g) \<Longrightarrow> crowd vw A G (put g p c) \<le> crowd vw A G c"
  using crowd_put [of A p c g vw "cstore c" G] by simp

lemma pcs_ok_store [simp]: "pcs_ok (c\<lparr>cstore := s\<rparr>) = pcs_ok c"
  by (simp add: pcs_ok_def)

context invoice_store
begin

text \<open>Everything but a check that passes leaves the crowd no larger.\<close>

lemma crowd_step:
  assumes "inv (cstore c)" and "svc_st svc = st" and "nul_free (svc_defaultPayTo svc)" and "pcs_ok c"
    and "create_step svc view sane G c c'"
  shows "inv (cstore c') \<and> pcs_ok c'
    \<and> (crowd view A G c' \<le> crowd view A G c
       \<or> (\<exists>w addr. A addr \<and> sane w (cstore c) \<and> checkCaps svc w (cstore c) addr = None
            \<and> card (pend A (view (cstore c'))) = card (pend A (view (cstore c)))))"
  using assms(5)
proof cases
  case (asks g amountNano payTo addr md ttl)
  have "nul_free addr" using resolvePayTo_nul_free [OF asks(5) assms(3)] .
  then have "pcs_ok c'" unfolding asks(1) using assms(4) by (intro pcs_ok_put) simp_all
  moreover have "crowd view A G c' \<le> crowd view A G c" unfolding asks(1) by (rule crowd_put_pc) simp
  ultimately show ?thesis using assms(1) by (simp add: asks(1))
next
  case (refused g addr amountNano ttl md w e)
  have "pcs_ok c'" unfolding refused(1) using assms(4) by (intro pcs_ok_put) simp_all
  moreover have "crowd view A G c' \<le> crowd view A G c" unfolding refused(1) by (rule crowd_put_pc) simp
  ultimately show ?thesis using assms(1) by (simp add: refused(1))
next
  case (passes g addr amountNano ttl md w t)
  have "nul_free addr" using pcs_okD(1) [OF assms(4) passes(3)] .
  then have "pcs_ok c'" unfolding passes(1) using assms(4) by (intro pcs_ok_put) (simp_all add: newInvoice_simps)
  moreover have "crowd view A G c' \<le> crowd view A G c" if "\<not> A addr"
    unfolding passes(1) by (rule crowd_put_pc) (simp add: newInvoice_simps that)
  moreover have "cstore c' = cstore c" by (simp add: passes(1))
  ultimately show ?thesis using passes(4,5) assms(1) by metis
next
  case (gives_up g i)
  have "pcs_ok c'" unfolding gives_up(1) using assms(4) by (intro pcs_ok_put) simp_all
  moreover have "crowd view A G c' \<le> crowd view A G c" unfolding gives_up(1) by (rule crowd_put_pc) simp
  ultimately show ?thesis using assms(1) by (simp add: gives_up(1))
next
  case (collides g left i d k d' m w s')
  have i: "nul_free (PayTo i) \<and> pending i" by (rule pcs_okD(2) [OF assms(4) collides(3)])
  have law: "inv s' \<and> view s' = view (cstore c)"
    using create_law [OF assms(1) _ _ collides(7) [unfolded assms(2)]] collides(6) i by auto
  have "pcs_ok c'" unfolding collides(1) using assms(4) i by (intro pcs_ok_put) simp_all
  moreover have "crowd view A G c' \<le> crowd view A G c"
    unfolding collides(1) by (rule crowd_put) (simp_all add: law collides(3))
  ultimately show ?thesis using law by (simp add: collides(1))
next
  case (answers g left i d k d' m w r s')
  let ?i = "i\<lparr>ID := k, Memo := m\<rparr>"
  have i: "nul_free (PayTo i) \<and> pending i" by (rule pcs_okD(2) [OF assms(4) answers(3)])
  have law: "inv s' \<and> (view s' = view (cstore c) \<or> view s' = (view (cstore c))(k \<mapsto> kept ?i))"
    using create_law [OF assms(1) _ _ answers(7) [unfolded assms(2)]] answers(6) i by auto
  have "PayTo (kept ?i) = PayTo i" using kept_fields [of ?i] by simp
  then have p: "card (pend A (view s')) \<le> card (pend A (view (cstore c))) + (if A (PayTo i) then 1 else 0)"
    using law pend_insert [where v = "view (cstore c)", OF answers(6), of A "kept ?i"] by auto
  have ins: "inserters A G c' = inserters A G c - {g}" by (simp add: answers(1) inserters_put)
  have "card (inserters A G c') + (if A (PayTo i) then 1 else 0) \<le> card (inserters A G c)"
  proof (cases "A (PayTo i)")
    case True
    then have "g \<in> inserters A G c" using answers(2,3) by (simp add: inserters_def)
    then show ?thesis using card_Suc_Diff1 [of "inserters A G c" g] True unfolding ins by simp
  next
    case False
    then show ?thesis unfolding ins by (simp add: card_mono)
  qed
  then have "crowd view A G c' \<le> crowd view A G c" using p answers(1) by (simp add: crowd_def)
  moreover have "pcs_ok c'" unfolding answers(1) using assms(4) by (intro pcs_ok_put) simp_all
  ultimately show ?thesis using law by (simp add: answers(1))
next
  case (claimed w iid tx t r s')
  have "view s' = view (cstore c) \<or> (\<exists>k i. view s' = (view (cstore c))(k \<mapsto> i) \<and> \<not> pending i)"
    using claim_parts(2) [OF assms(1)] claimed(2) assms(2) by (cases r) (metis settled_simps(5) status_distinct(2) surj_pair)
  from pend_less [OF view_finite [OF assms(1)] this]
  have "crowd view A G c' \<le> crowd view A G c" by (simp add: crowd_def claimed(1))
  then show ?thesis using claimed claim_inv [OF assms(1)] assms(2,4) by simp
next
  case (expires w iid r s')
  have "view s' = view (cstore c) \<or> (\<exists>k i. view s' = (view (cstore c))(k \<mapsto> i) \<and> \<not> pending i)"
    using expire_parts(2) [OF assms(1)] expires(2) assms(2)
    by (cases r) (metis expired_simps(5) status_distinct(4))
  from pend_less [OF view_finite [OF assms(1)] this]
  have "crowd view A G c' \<le> crowd view A G c" by (simp add: crowd_def expires(1))
  then show ?thesis using expires expire_inv [OF assms(1)] assms(2,4) by simp
qed

text \<open>A check that passes leaves room for one, and at most \<open>G\<close> can be past it together.\<close>

lemma crowd_bound:
  assumes "svc_st svc = st" and "nul_free (svc_defaultPayTo svc)"
    and room: "\<And>w s addr. inv s \<Longrightarrow> A addr \<Longrightarrow> sane w s \<Longrightarrow> checkCaps svc w s addr = None \<Longrightarrow>
      int (card (pend A (view s))) < cap"
    and "inv s0" and "int (card (pend A (view s0))) < cap + int G"
    and "(create_step svc view sane G)\<^sup>*\<^sup>* (at_rest s0) c"
  shows "int (card (pend A (view (cstore c)))) < cap + int G"
proof -
  have "inv (cstore c) \<and> pcs_ok c \<and> int (crowd view A G c) < cap + int G"
    using assms(6)
  proof (induction rule: rtranclp_induct)
    case base
    have "inserters A G (at_rest s0) = {}" by (simp add: inserters_def at_rest_def)
    then show ?case using assms(4,5) by (simp add: crowd_def at_rest_def pcs_ok_def)
  next
    case (step c c')
    then have c: "inv (cstore c)" "pcs_ok c" "int (crowd view A G c) < cap + int G" by auto
    from crowd_step [OF c(1) assms(1,2) c(2) step.hyps(2), of A]
    have i: "inv (cstore c')" "pcs_ok c'"
      and m: "crowd view A G c' \<le> crowd view A G c \<or> (\<exists>w addr. A addr \<and> sane w (cstore c)
        \<and> checkCaps svc w (cstore c) addr = None \<and> card (pend A (view (cstore c'))) = card (pend A (view (cstore c))))"
      by auto
    from m have "int (crowd view A G c') < cap + int G"
    proof
      assume "crowd view A G c' \<le> crowd view A G c"
      then show ?thesis using c(3) by linarith
    next
      assume "\<exists>w addr. A addr \<and> sane w (cstore c)
        \<and> checkCaps svc w (cstore c) addr = None \<and> card (pend A (view (cstore c'))) = card (pend A (view (cstore c)))"
      then have "int (card (pend A (view (cstore c')))) < cap" using room [OF c(1)] by auto
      then show ?thesis using card_inserters [of A G c'] by (simp add: crowd_def)
    qed
    with i show ?case by blast
  qed
  then show ?thesis by (simp add: crowd_def)
qed

lemma crowd_bounds:
  assumes "svc_st svc = st" and "nul_free (svc_defaultPayTo svc)" and "inv s0" and "pending_ids (view s0) = {}"
    and "(create_step svc view sane G)\<^sup>*\<^sup>* (at_rest s0) c" and "0 < G"
  shows "(0 < svc_maxPending svc \<longrightarrow> int (card (pending_ids (view (cstore c)))) < svc_maxPending svc + int G)
    \<and> (0 < svc_maxPendingPerAddr svc \<longrightarrow>
        int (card (pending_ids_for (view (cstore c)) addr)) < svc_maxPendingPerAddr svc + int G)"
proof -
  note law = checkCaps_law [OF _ assms(1)]
  have empty: "pend A (view s0) = {}" for A using assms(4) by (auto simp: pend_def pending_ids_def is_pending_def)
  have "int (card (pend (\<lambda>_. True) (view (cstore c)))) < svc_maxPending svc + int G" if "0 < svc_maxPending svc"
    by (rule crowd_bound [OF assms(1,2) _ assms(3) _ assms(5)])
      (use law that empty assms(6) in \<open>simp_all add: pend_all [symmetric] empty [of "\<lambda>_. True", folded pend_all]\<close>)
  moreover have "int (card (pend (\<lambda>b. b = addr) (view (cstore c)))) < svc_maxPendingPerAddr svc + int G"
    if "0 < svc_maxPendingPerAddr svc"
    by (rule crowd_bound [OF assms(1,2) _ assms(3) _ assms(5)])
      (use law that empty assms(6) in \<open>auto simp: pend_for [symmetric] empty [of "\<lambda>b. b = addr", folded pend_for]\<close>)
  ultimately show ?thesis by (simp add: pend_all pend_for)
qed

text \<open>The sequential \<open>CreateInvoice\<close> is a run of one slot that nothing interleaves with.\<close>

lemma allocate_is_a_run:
  assumes "inv (cstore c)" and "svc_st svc = st" and "nul_free (PayTo i)" and "fresh_draws (view (cstore c)) env"
    and "n + left \<le> 5" and "g < G" and "cpc c g = Allocating left i"
    and "allocate svc env left n i (cstore c) = (r, s')" and "r \<noteq> Panicked"
  shows "(create_step svc view sane G)\<^sup>*\<^sup>* c (put g Resting (c\<lparr>cstore := s'\<rparr>))"
  using assms(1,4,5,7-9,3)
proof (induction left arbitrary: n c i)
  case 0
  then have "s' = cstore c" by simp
  then have "put g Resting c = put g Resting (c\<lparr>cstore := s'\<rparr>)" by simp
  with create_step.gives_up [OF assms(6) 0(4)] show ?case by (metis r_into_rtranclp)
next
  case (Suc left)
  obtain k m where d: "NewID ''inv'' (id_draw env n) = Some k" "NewMemo (memo_draw env n) = Some m"
    using Suc.prems(5,6) by (auto split: option.splits)
  obtain q s1 where q: "CreateInvoice st (create_world env n) (cstore c) (i\<lparr>ID := k, Memo := m\<rparr>) = (q, s1)"
    by (metis surj_pair)
  have "n < 5" using Suc.prems(3) by simp
  then have fresh: "view (cstore c) k = None" using Suc.prems(2) d(1) unfolding fresh_draws_def by blast
  note law = create_law [OF Suc.prems(1) _ _ q]
  show ?case
  proof (cases "q = Some ErrMemoExists")
    case False
    then have "s' = s1" using Suc.prems(5) d q assms(2) by (auto simp: Let_def split: option.splits store_error.splits)
    moreover have "create_step svc view sane G c (put g Resting (c\<lparr>cstore := s1\<rparr>))"
      using create_step.answers [where svc = svc and vw = view and ok = sane and s' = s1 and r = q
          and w = "create_world env n", OF assms(6) Suc.prems(4) d fresh _ False] q assms(2) by simp
    ultimately show ?thesis by blast
  next
    case True
    let ?c = "put g (Allocating left (i\<lparr>ID := k, Memo := m\<rparr>)) (c\<lparr>cstore := s1\<rparr>)"
    have first: "create_step svc view sane G c ?c"
      using create_step.collides [where svc = svc and vw = view and ok = sane and s' = s1 and w = "create_world env n", OF assms(6) Suc.prems(4) d fresh] q True assms(2) by simp
    have "inv s1 \<and> view s1 = view (cstore c)" using law fresh Suc.prems(7) True by auto
    then have rest: "(create_step svc view sane G)\<^sup>*\<^sup>* ?c (put g Resting (?c\<lparr>cstore := s'\<rparr>))"
      using Suc.IH [of ?c "Suc n" "i\<lparr>ID := k, Memo := m\<rparr>"] Suc.prems(2,3,5-7) d q assms(2) True by (simp add: Let_def)
    have "put g Resting (?c\<lparr>cstore := s'\<rparr>) = put g Resting (c\<lparr>cstore := s'\<rparr>)" by (simp add: put_def)
    with converse_rtranclp_into_rtranclp [of "create_step svc view sane G", OF first rest] show ?thesis by simp
  qed
qed

lemma ServiceCreate_is_a_run:
  assumes "inv (cstore c)" and "svc_st svc = st" and "nul_free (svc_defaultPayTo svc)"
    and "fresh_draws (view (cstore c)) env" and "sane (counts_world env) (cstore c)"
    and "g < G" and "cpc c g = Resting"
    and "ServiceCreate svc env payTo n ttl md (cstore c) = (r, s')" and "r \<noteq> Panicked"
  shows "\<exists>c'. (create_step svc view sane G)\<^sup>*\<^sup>* c c' \<and> cstore c' = s' \<and> cpc c' = cpc c"
proof (cases "\<exists>addr. n > 0 \<and> resolvePayTo svc payTo = Inr addr \<and> validateMetadata md = None
    \<and> checkCaps svc (counts_world env) (cstore c) addr = None")
  case False
  then have "s' = cstore c" using assms(8) by (auto simp: ServiceCreate_def split: if_splits sum.splits option.splits)
  then show ?thesis by blast
next
  case True
  then obtain addr where a: "n > 0" "resolvePayTo svc payTo = Inr addr" "validateMetadata md = None"
    "checkCaps svc (counts_world env) (cstore c) addr = None" by blast
  let ?i = "newInvoice svc (now env) addr n (effectiveTTL svc ttl) md"
  let ?c1 = "put g (Counting addr n ttl md) c"
  let ?c2 = "put g (Allocating 5 ?i) ?c1"
  have "create_step svc view sane G c ?c1" by (rule create_step.asks [OF assms(6,7) a(1,2,3)])
  moreover have "create_step svc view sane G ?c1 ?c2"
    by (rule create_step.passes [where w = "counts_world env"]) (simp_all add: assms(5,6) a(4))
  moreover have "(create_step svc view sane G)\<^sup>*\<^sup>* ?c2 (put g Resting (?c2\<lparr>cstore := s'\<rparr>))"
    by (rule allocate_is_a_run [where env = env and n = 0 and left = 5])
      (use assms a resolvePayTo_nul_free [OF a(2) assms(3)] in \<open>simp_all add: ServiceCreate_def newInvoice_simps\<close>)
  ultimately have "(create_step svc view sane G)\<^sup>*\<^sup>* c (put g Resting (?c2\<lparr>cstore := s'\<rparr>))"
    by (meson converse_rtranclp_into_rtranclp)
  moreover have "cpc (put g Resting (?c2\<lparr>cstore := s'\<rparr>)) = cpc c" using assms(7) by (auto simp: fun_eq_iff)
  ultimately show ?thesis by (intro exI conjI) (assumption | simp)+
qed

end

text \<open>
  C26: Concurrent creations pass the caps by at most the number of handlers less one. However
  many requests arrive, with up to \<open>G\<close> of them served at a time and settlements, expiries and
  database faults in between, fewer than the cap plus \<open>G\<close> invoices are ever pending, in all and for
  each receiving address; so one handler alone never passes a cap.
\<close>

theorem caps_under_concurrency:
  assumes "pg_inv s0" and "svc_st svc = postgres_store" and "nul_free (svc_defaultPayTo svc)"
    and "pending_ids (table s0) = {}" and "0 < G"
    and "(create_step svc table pg_sane G)\<^sup>*\<^sup>* (at_rest s0) c"
  shows "(0 < svc_maxPending svc \<longrightarrow> int (card (pending_ids (table (cstore c)))) < svc_maxPending svc + int G)
    \<and> (0 < svc_maxPendingPerAddr svc \<longrightarrow>
        int (card (pending_ids_for (table (cstore c)) addr)) < svc_maxPendingPerAddr svc + int G)"
  using pg.crowd_bounds [OF assms(2,3,1,4,6,5)] .

section \<open>Two requests together\<close>

definition crowd_invoice :: "byte \<Rightarrow> invoice" where
  "crowd_invoice b = (newInvoice capped_service 1000 ''UQ'' 7 (effectiveTTL capped_service 0) [])
     \<lparr>ID := the (NewID ''inv'' (Some (replicate 9 b))), Memo := the (NewMemo (Some (replicate 16 b)))\<rparr>"

lemma crowd_invoice_draws:
  "NewID ''inv'' (Some (replicate 9 b)) = Some (ID (crowd_invoice b))"
  "NewMemo (Some (replicate 16 b)) = Some (Memo (crowd_invoice b))"
  by (simp_all add: crowd_invoice_def NewID_def NewMemo_def)

lemma crowd_invoice_simps:
  "PayTo (crowd_invoice b) = ''UQ''" "pending (crowd_invoice b)" "Metadata (crowd_invoice b) = []"
  "TxHash (crowd_invoice b) = []" "Currency (crowd_invoice b) = svc_currency capped_service"
  by (simp_all add: crowd_invoice_def newInvoice_def zero_invoice_def)

lemma crowd_invoice_texts: "texts_ok (crowd_invoice b)"
proof -
  have "nul_free (ID (crowd_invoice b))"
    using NewID_nul_free [OF crowd_invoice_draws(1)] by (simp add: nul_free_def)
  moreover have "nul_free (Memo (crowd_invoice b))" using NewMemo_nul_free [OF crowd_invoice_draws(2)] by blast
  ultimately show ?thesis
    by (simp add: texts_ok_def crowd_invoice_simps)
      (simp add: nul_free_def StatusPending_def capped_service_def SetLimits_def NewService_def Let_def)
qed

lemma crowd_invoice_differ:
  "ID (crowd_invoice 0) \<noteq> ID (crowd_invoice 1)" "Memo (crowd_invoice 0) \<noteq> Memo (crowd_invoice 1)"
proof -
  have "NewID ''inv'' (Some (replicate 9 0)) \<noteq> NewID ''inv'' (Some (replicate 9 1))"
    using draws_are_kept [of "replicate 16 0" "replicate 16 1" "replicate 9 0" "replicate 9 1"] by simp
  then show "ID (crowd_invoice 0) \<noteq> ID (crowd_invoice 1)" by (simp add: crowd_invoice_draws)
  have "NewMemo (Some (replicate 16 0)) \<noteq> NewMemo (Some (replicate 16 1))"
    using NewMemo_inj [of "replicate 16 0" "replicate 16 1"] by auto
  then show "Memo (crowd_invoice 0) \<noteq> Memo (crowd_invoice 1)" by (simp add: crowd_invoice_draws)
qed

definition crowd_end :: "row list creators" where
  "crowd_end = (at_rest [row_of (crowd_invoice 0), row_of (crowd_invoice 1)])\<lparr>cpc := (\<lambda>_. Resting)\<rparr>"

text \<open>Both pass the check while the table is empty; the cap is one.\<close>

lemma crowd_run: "(create_step capped_service table pg_sane 2)\<^sup>*\<^sup>* (at_rest []) crowd_end"
proof -
  let ?R = "create_step capped_service table pg_sane 2"
  let ?i = "newInvoice capped_service 1000 ''UQ'' 7 (effectiveTTL capped_service 0) []"
  let ?c0 = "at_rest [] :: row list creators"
  let ?c1 = "put 0 (Counting ''UQ'' 7 0 []) ?c0"
  let ?c2 = "put 1 (Counting ''UQ'' 7 0 []) ?c1"
  let ?c3 = "put 0 (Allocating 5 ?i) ?c2"
  let ?c4 = "put 1 (Allocating 5 ?i) ?c3"
  let ?c5 = "put 0 Resting (?c4\<lparr>cstore := [row_of (crowd_invoice 0)]\<rparr>)"
  let ?c6 = "put 1 Resting (?c5\<lparr>cstore := [row_of (crowd_invoice 0), row_of (crowd_invoice 1)]\<rparr>)"
  have st: "svc_st capped_service = postgres_store"
    by (simp add: capped_service_def SetLimits_def NewService_def Let_def)
  have res: "resolvePayTo capped_service [] = Inr ''UQ''"
    by (simp add: resolvePayTo_def capped_service_def SetLimits_def NewService_def Let_def)
  have meta: "validateMetadata [] = None" by (simp add: validateMetadata_def)
  have free: "checkCaps capped_service pg_calm [] ''UQ'' = None"
    by (simp add: checkCaps_def capped_service_def SetLimits_def NewService_def Let_def pg_counts_def
        pg_calm_def nul_free_def)
  have sane: "pg_sane pg_calm []" by (simp add: pg_sane_def pg_calm_def)
  have draw: "?i\<lparr>ID := ID (crowd_invoice b), Memo := Memo (crowd_invoice b)\<rparr> = crowd_invoice b" for b
    by (simp add: crowd_invoice_def)
  have ins0: "pg_create pg_calm [] (crowd_invoice 0) = (None, [row_of (crowd_invoice 0)])"
    by (simp add: pg_create_def exec_def pg_calm_def sql_insert_def crowd_invoice_texts Let_def)
  have ins1: "pg_create pg_calm [row_of (crowd_invoice 0)] (crowd_invoice 1)
      = (None, [row_of (crowd_invoice 0), row_of (crowd_invoice 1)])"
    using crowd_invoice_differ
    by (simp add: pg_create_def exec_def pg_calm_def sql_insert_def crowd_invoice_texts Let_def)
  have five: "Allocating 5 i = Allocating (Suc 4) i" for i by simp
  have s1: "?R ?c0 ?c1" by (rule create_step.asks [OF _ _ _ res meta]) (simp_all add: at_rest_def)
  have s2: "?R ?c1 ?c2" by (rule create_step.asks [OF _ _ _ res meta]) (simp_all add: at_rest_def)
  have s3: "?R ?c2 ?c3"
    by (rule create_step.passes [where w = pg_calm]) (simp_all add: at_rest_def sane free)
  have s4: "?R ?c3 ?c4"
    by (rule create_step.passes [where w = pg_calm]) (simp_all add: at_rest_def sane free)
  have s5: "?R ?c4 ?c5"
    by (rule create_step.answers [OF _ _ crowd_invoice_draws(1) [of 0] crowd_invoice_draws(2) [of 0],
          where w = pg_calm and r = None and left = 4 and i = ?i])
      (simp_all add: at_rest_def st draw ins0 table_def)
  have s6: "?R ?c5 ?c6"
    by (rule create_step.answers [OF _ _ crowd_invoice_draws(1) [of 1] crowd_invoice_draws(2) [of 1],
          where w = pg_calm and r = None and left = 4 and i = ?i])
      (simp_all add: at_rest_def st draw ins1 table_def crowd_invoice_differ [symmetric])
  note run = converse_rtranclp_into_rtranclp [of ?R]
  have "?R\<^sup>*\<^sup>* ?c0 ?c6"
    by (rule run [OF s1], rule run [OF s2], rule run [OF s3], rule run [OF s4], rule run [OF s5], rule run [OF s6])
      (rule rtranclp.rtrancl_refl)
  moreover have "?c6 = crowd_end" by (simp add: put_def crowd_end_def at_rest_def fun_eq_iff)
  ultimately show ?thesis by simp
qed

lemma crowd_end_pending: "card (pending_ids (table (cstore crowd_end))) = 2"
proof -
  have "pending_ids (table (cstore crowd_end)) = {ID (crowd_invoice 0), ID (crowd_invoice 1)}"
    using crowd_invoice_differ crowd_invoice_simps(2)
    by (auto simp: pending_ids_def is_pending_def table_def crowd_end_def at_rest_def split: if_splits)
  then show ?thesis using crowd_invoice_differ by simp
qed

text \<open>The bound is reached: with a cap of one and two handlers, two invoices are pending.\<close>

theorem caps_under_concurrency_witness:
  "int (card (pending_ids (table (cstore crowd_end)))) = svc_maxPending capped_service + 1
   \<and> int (card (pending_ids (table (cstore crowd_end)))) < svc_maxPending capped_service + int 2"
proof -
  have st: "svc_st capped_service = postgres_store" "nul_free (svc_defaultPayTo capped_service)"
    "svc_maxPending capped_service = 1" "pg_inv []" "pending_ids (table []) = {}"
    by (simp_all add: capped_service_def SetLimits_def NewService_def Let_def nul_free_def pg_inv_def
        pending_ids_def is_pending_def table_def)
  from caps_under_concurrency [OF st(4,1,2,5) _ crowd_run] st(3) crowd_end_pending show ?thesis by simp
qed

end
