(* ===== verification/RateLimit.thy ===== *)
theory RateLimit
  imports Go_Strings
begin

text \<open>
  The rate limiter of internal/httpx/middleware.go: a token bucket per client, swept at most once
  a minute, and the client address it is keyed by.  Tokens are counted in billionths, the amount
  that accrues in a nanosecond at one token per second, so the arithmetic here is exact where
  the code uses \<open>float64\<close>; the rounding of the floats is not modelled.
\<close>

section \<open>The limiter\<close>

record bucket =
  tokens :: int
  seen :: gtime

record rateLimiter =
  buckets :: "string \<rightharpoonup> bucket"
  rate :: int
  burst :: int
  trustProxy :: bool
  lastSweep :: gtime

definition token :: int where [go_defs]: "token = 1000000000"

definition newRateLimiter :: "int \<Rightarrow> int \<Rightarrow> bool \<Rightarrow> rateLimiter" where
  "newRateLimiter ratePerSec b tp =
     \<lparr>buckets = Map.empty, rate = ratePerSec, burst = b, trustProxy = tp, lastSweep = 0\<rparr>"

definition refilled :: "rateLimiter \<Rightarrow> gtime \<Rightarrow> bucket \<Rightarrow> int" where
  "refilled rl t b = tokens b + (t - seen b) * rate rl"

definition sweep :: "gtime \<Rightarrow> rateLimiter \<Rightarrow> rateLimiter" where
  "sweep t rl =
     (if t - lastSweep rl < Minute then rl
      else rl\<lparr>lastSweep := t,
        buckets := (\<lambda>k. case buckets rl k of
            Some b \<Rightarrow> if refilled rl t b \<ge> burst rl * token then None else Some b
          | None \<Rightarrow> None)\<rparr>)"

definition allow :: "gtime \<Rightarrow> string \<Rightarrow> rateLimiter \<Rightarrow> bool \<times> rateLimiter" where
  "allow t key rl0 =
     (let rl = sweep t rl0 in
      case buckets rl key of
        None \<Rightarrow> (True, rl\<lparr>buckets := (buckets rl)(key \<mapsto> \<lparr>tokens = burst rl * token - token, seen = t\<rparr>)\<rparr>)
      | Some b \<Rightarrow>
         (let lvl = (if refilled rl t b > burst rl * token then burst rl * token else refilled rl t b) in
          if lvl < token then (False, rl\<lparr>buckets := (buckets rl)(key \<mapsto> \<lparr>tokens = lvl, seen = t\<rparr>)\<rparr>)
          else (True, rl\<lparr>buckets := (buckets rl)(key \<mapsto> \<lparr>tokens = lvl - token, seen = t\<rparr>)\<rparr>)))"

section \<open>The client's address\<close>

text \<open>\<open>net.SplitHostPort\<close>; \<open>None\<close> for its errors.\<close>

definition last_index_of :: "string \<Rightarrow> char \<Rightarrow> nat option" where
  "last_index_of s c = map_option (\<lambda>n. length s - 1 - n) (index_of (rev s) c)"

definition SplitHostPort :: "string \<Rightarrow> (string \<times> string) option" where
  "SplitHostPort hp =
     (case last_index_of hp CHR '':'' of
        None \<Rightarrow> None
      | Some i \<Rightarrow>
          if hd hp = CHR ''['' then
            (case index_of hp CHR '']'' of
               None \<Rightarrow> None
             | Some e \<Rightarrow>
                 if e + 1 \<noteq> i then None
                 else if CHR ''['' \<in> set (drop 1 hp) \<or> CHR '']'' \<in> set (drop (e + 1) hp) then None
                 else Some (drop 1 (take e hp), drop (i + 1) hp))
          else if CHR '':'' \<in> set (take i hp) then None
          else if CHR ''['' \<in> set hp \<or> CHR '']'' \<in> set hp then None
          else Some (take i hp, drop (i + 1) hp))"

definition clientIP :: "(string \<Rightarrow> string) \<Rightarrow> string \<Rightarrow> bool \<Rightarrow> string" where
  "clientIP header remoteAddr tp =
     (let xff = header ''X-Forwarded-For'' in
      if tp \<and> xff \<noteq> [] then
        (case index_of xff CHR '','' of
           Some i \<Rightarrow> TrimSpace (take i xff)
         | None \<Rightarrow> TrimSpace xff)
      else case SplitHostPort remoteAddr of
          Some (host, _) \<Rightarrow> host
        | None \<Rightarrow> remoteAddr)"

section \<open>The level of a bucket\<close>

text \<open>
  What a key has at time \<open>t\<close>: a key without a bucket has a full one.  Sweeping drops buckets but
  changes no level, and a decision is a comparison of the level with one token.
\<close>

definition level :: "rateLimiter \<Rightarrow> string \<Rightarrow> gtime \<Rightarrow> int" where
  "level rl k t = (case buckets rl k of
     None \<Rightarrow> burst rl * token
   | Some b \<Rightarrow> min (burst rl * token) (refilled rl t b))"

lemma sweep_params [simp]: "rate (sweep t rl) = rate rl" "burst (sweep t rl) = burst rl"
  by (simp_all add: sweep_def)

lemma allow_params:
  assumes "allow t k rl = (d, rl')"
  shows "rate rl' = rate rl \<and> burst rl' = burst rl"
  using assms by (auto simp: allow_def Let_def split: option.splits if_splits)

lemma refilled_mono:
  "0 \<le> rate rl \<Longrightarrow> t \<le> t' \<Longrightarrow> refilled rl t b \<le> refilled rl t' b"
  by (simp add: refilled_def mult_right_mono)

lemma level_sweep:
  assumes "0 \<le> rate rl" and "t \<le> t'"
  shows "level (sweep t rl) k t' = level rl k t'"
proof -
  have "refilled (sweep t rl) t' b = refilled rl t' b" for b by (simp add: refilled_def)
  then show ?thesis
    using refilled_mono [OF assms]
    by (auto simp: level_def sweep_def split: option.splits if_splits intro: order_trans min_absorb1 [symmetric])
qed

text \<open>One request at time \<open>t\<close>, as the levels see it from then on.\<close>

lemma allow_level:
  assumes "0 \<le> rate rl" and "1 \<le> burst rl" and "allow t k rl = (d, rl')" and "t \<le> t'"
  shows "d \<longleftrightarrow> token \<le> level rl k t"
    and "level rl' k t' = min (burst rl * token)
      (level rl k t - (if d then token else 0) + (t' - t) * rate rl)"
    and "k' \<noteq> k \<Longrightarrow> level rl' k' t' = level rl k' t'"
proof -
  have l: "level rl k t = level (sweep t rl) k t" using level_sweep [OF assms(1) order_refl] by simp
  have fresh: "token \<le> burst rl * token" using assms(2) by (simp add: go_defs)
  show d: "d \<longleftrightarrow> token \<le> level rl k t"
    unfolding l using assms(3) fresh
    by (auto simp: allow_def level_def Let_def split: option.splits if_splits)
  have "0 \<le> (t' - t) * rate rl" using assms(1,4) by simp
  then show "level rl' k t' = min (burst rl * token)
      (level rl k t - (if d then token else 0) + (t' - t) * rate rl)"
    unfolding l using assms(3)
    by (auto simp: allow_def level_def refilled_def Let_def split: option.splits if_splits)
  assume "k' \<noteq> k"
  then have "level rl' k' t' = level (sweep t rl) k' t'"
    using assms(3)
    by (auto simp: allow_def level_def refilled_def Let_def split: option.splits if_splits)
  then show "level rl' k' t' = level rl k' t'" using level_sweep [OF assms(1,4)] by simp
qed

section \<open>Runs of requests\<close>

fun decisions :: "(gtime \<times> string) list \<Rightarrow> rateLimiter \<Rightarrow> bool list \<times> rateLimiter" where
  "decisions [] rl = ([], rl)"
| "decisions ((t, k) # rs) rl =
     (case allow t k rl of (d, rl1) \<Rightarrow> (case decisions rs rl1 of (ds, rl2) \<Rightarrow> (d # ds, rl2)))"

text \<open>The reference: one bucket, no table, no sweeping.\<close>

fun one_bucket :: "int \<Rightarrow> int \<Rightarrow> int \<Rightarrow> gtime \<Rightarrow> gtime list \<Rightarrow> bool list" where
  "one_bucket r b lvl t0 [] = []"
| "one_bucket r b lvl t0 (t # ts) =
     (let a = min (b * token) (lvl + (t - t0) * r) in
      (token \<le> a) # one_bucket r b (if token \<le> a then a - token else a) t ts)"

definition answers_to :: "string \<Rightarrow> (gtime \<times> string) list \<Rightarrow> bool list \<Rightarrow> bool list" where
  "answers_to k reqs ds = map snd (filter (\<lambda>((t, k'), d). k' = k) (zip reqs ds))"

definition times_of :: "string \<Rightarrow> (gtime \<times> string) list \<Rightarrow> gtime list" where
  "times_of k reqs = map fst (filter (\<lambda>(t, k'). k' = k) reqs)"

lemma decisions_Cons:
  "allow t k rl = (d, rl1) \<Longrightarrow> fst (decisions ((t, k) # rs) rl) = d # fst (decisions rs rl1)"
  by (simp split: prod.splits)

lemma answers_to_Cons:
  "answers_to k ((t, k') # rs) (d # ds) = (if k' = k then d # answers_to k rs ds else answers_to k rs ds)"
  by (simp add: answers_to_def)

lemma times_of_Cons: "times_of k ((t, k') # rs) = (if k' = k then t # times_of k rs else times_of k rs)"
  by (simp add: times_of_def)

lemma decisions_one_bucket:
  assumes "0 \<le> rate rl" and "1 \<le> burst rl" and "sorted (map fst reqs)"
    and "\<And>t. t \<in> fst ` set reqs \<Longrightarrow> level rl k t = min (burst rl * token) (lvl + (t - t0) * rate rl)"
  shows "answers_to k reqs (fst (decisions reqs rl)) = one_bucket (rate rl) (burst rl) lvl t0 (times_of k reqs)"
  using assms
proof (induction reqs arbitrary: rl lvl t0)
  case Nil
  then show ?case by (simp add: answers_to_def times_of_def)
next
  case (Cons r rs)
  obtain t k' where r: "r = (t, k')" by (cases r)
  obtain d rl1 where a: "allow t k' rl = (d, rl1)" by (metis surj_pair)
  have p: "rate rl1 = rate rl" "burst rl1 = burst rl" using allow_params [OF a] by simp_all
  have later: "t \<le> t'" if "t' \<in> fst ` set rs" for t' using Cons.prems(3) that r by auto
  note al = allow_level [OF Cons.prems(1,2) a]
  have s: "sorted (map fst rs)" using Cons.prems(3) by simp
  show ?case
  proof (cases "k' = k")
    case False
    have "level rl1 k t' = min (burst rl1 * token) (lvl + (t' - t0) * rate rl1)" if "t' \<in> fst ` set rs" for t'
      using al(3) [OF later [OF that]] False Cons.prems(4) [of t'] that p by simp
    from Cons.IH [OF _ _ s this] show ?thesis
      using False p Cons.prems(1,2) unfolding r decisions_Cons [OF a] answers_to_Cons times_of_Cons by simp
  next
    case True
    define av where "av = min (burst rl * token) (lvl + (t - t0) * rate rl)"
    have lv: "level rl k t = av" using Cons.prems(4) [of t] r by (simp add: av_def)
    then have d: "d \<longleftrightarrow> token \<le> av" using al(1) [OF order_refl] True by simp
    have "level rl1 k t' = min (burst rl1 * token) ((if token \<le> av then av - token else av) + (t' - t) * rate rl1)"
      if "t' \<in> fst ` set rs" for t'
      using al(2) [OF later [OF that]] True lv d p by simp
    from Cons.IH [OF _ _ s this] show ?thesis
      using True p d Cons.prems(1,2) unfolding r decisions_Cons [OF a] answers_to_Cons times_of_Cons
      by (simp add: av_def Let_def)
  qed
qed





lemma decisions_append:
  "decisions (xs @ ys) rl = (case decisions xs rl of (ds, rl1) \<Rightarrow>
     (case decisions ys rl1 of (es, rl2) \<Rightarrow> (ds @ es, rl2)))"
  by (induction xs rl rule: decisions.induct) (auto split: prod.splits)

lemma decisions_params: "rate (snd (decisions reqs rl)) = rate rl \<and> burst (snd (decisions reqs rl)) = burst rl"
  by (induction reqs rl rule: decisions.induct) (auto dest: allow_params split: prod.splits)

lemma decisions_length: "length (fst (decisions reqs rl)) = length reqs"
  by (induction reqs rl rule: decisions.induct) (auto split: prod.splits)

lemma level_grows:
  assumes "0 \<le> rate rl" and "t \<le> t'"
  shows "level rl k t' = min (burst rl * token) (level rl k t + (t' - t) * rate rl)"
proof -
  have g: "0 \<le> (t' - t) * rate rl" using assms by simp
  have "refilled rl t' b = refilled rl t b + (t' - t) * rate rl" for b
    by (simp add: refilled_def algebra_simps)
  then show ?thesis using g by (auto simp: level_def split: option.splits)
qed

abbreviation granted :: "bool list \<Rightarrow> nat" where
  "granted ds \<equiv> length (filter (\<lambda>d. d) ds)"

lemma one_bucket_spends:
  assumes "0 \<le> r" and "sorted (t0 # ts)" and "\<And>t. t \<in> set ts \<Longrightarrow> t \<le> t1" and "t0 \<le> t1"
  shows "token * int (granted (one_bucket r b lvl t0 ts)) \<le> max 0 lvl + (t1 - t0) * r"
  using assms(2-)
proof (induction ts arbitrary: lvl t0)
  case Nil
  then show ?case using assms(1) by simp
next
  case (Cons t ts)
  define av where "av = min (b * token) (lvl + (t - t0) * r)"
  have ob: "one_bucket r b lvl t0 (t # ts) = (token \<le> av) # one_bucket r b (if token \<le> av then av - token else av) t ts"
    by (simp add: av_def Let_def)
  have t: "t0 \<le> t" "t \<le> t1" "sorted (t # ts)" using Cons.prems by auto
  have "0 \<le> (t - t0) * r" using t assms(1) by simp
  then have av: "max 0 av \<le> max 0 lvl + (t - t0) * r" by (simp add: av_def)
  have sum: "(t - t0) * r + (t1 - t) * r = (t1 - t0) * r" by (simp add: algebra_simps)
  show ?case
  proof (cases "token \<le> av")
    case True
    have "token * int (granted (one_bucket r b (av - token) t ts)) \<le> max 0 (av - token) + (t1 - t) * r"
      using Cons.IH [OF t(3) _ t(2)] Cons.prems(2) by simp
    moreover have "max 0 (av - token) + token = max 0 av" using True by (simp add: go_defs)
    ultimately have "token * int (granted (one_bucket r b (av - token) t ts)) + token
        \<le> max 0 lvl + (t1 - t0) * r"
      using av sum by linarith
    then show ?thesis using True ob by (simp add: distrib_left)
  next
    case False
    have "token * int (granted (one_bucket r b av t ts)) \<le> max 0 av + (t1 - t) * r"
      using Cons.IH [OF t(3) _ t(2)] Cons.prems(2) by simp
    then have "token * int (granted (one_bucket r b av t ts)) \<le> max 0 lvl + (t1 - t0) * r"
      using av sum by linarith
    then show ?thesis using False ob by simp
  qed
qed

lemma sorted_times_of: "sorted (map fst reqs) \<Longrightarrow> sorted (times_of k reqs)"
  unfolding times_of_def by (rule sorted_filter)

lemma times_of_subset: "set (times_of k reqs) \<subseteq> fst ` set reqs"
  by (auto simp: times_of_def)

text \<open>
  In any window from \<open>t0\<close> to \<open>t1\<close>, after any earlier requests, a client gets at most the burst
  plus what accrues in the window.
\<close>

lemma burst_bound:
  assumes "0 \<le> r" and "1 \<le> b" and "sorted (map fst (pre @ win))"
    and "\<And>t. t \<in> fst ` set win \<Longrightarrow> t0 \<le> t \<and> t \<le> t1" and "t0 \<le> t1"
  shows "token * int (granted (answers_to k win
      (drop (length pre) (fst (decisions (pre @ win) (newRateLimiter r b tp))))))
    \<le> b * token + (t1 - t0) * r"
proof -
  define rl where "rl = snd (decisions pre (newRateLimiter r b tp))"
  have p: "rate rl = r" "burst rl = b"
    using decisions_params [of pre "newRateLimiter r b tp"] by (simp_all add: rl_def newRateLimiter_def)
  have "drop (length pre) (fst (decisions (pre @ win) (newRateLimiter r b tp))) = fst (decisions win rl)"
    using decisions_length [of pre "newRateLimiter r b tp"]
    by (auto simp: decisions_append rl_def split: prod.splits)
  moreover have s: "sorted (map fst win)" using assms(3) by (simp add: sorted_append)
  have "level rl k t = min (burst rl * token) (level rl k t0 + (t - t0) * rate rl)" if "t \<in> fst ` set win" for t
    using level_grows [of rl t0 t k] assms(1,4) that p by simp
  from decisions_one_bucket [OF _ _ s this] have
    "answers_to k win (fst (decisions win rl)) = one_bucket r b (level rl k t0) t0 (times_of k win)"
    using assms(1,2) p by simp
  moreover have "token * int (granted (one_bucket r b (level rl k t0) t0 (times_of k win)))
      \<le> max 0 (level rl k t0) + (t1 - t0) * r"
    using one_bucket_spends [OF assms(1)] sorted_times_of [OF s] times_of_subset assms(4,5)
    by (simp add: subset_iff)
  moreover have "max 0 (level rl k t0) \<le> b * token"
    using assms(2) by (simp add: level_def p go_defs split: option.splits)
  ultimately show ?thesis by (metis add_le_cancel_right order_trans)
qed

section \<open>Who is limited\<close>

lemma SplitHostPort_v4:
  assumes "host \<noteq> []" and "CHR '':'' \<notin> set host" and "CHR ''['' \<notin> set host" and "CHR '']'' \<notin> set host"
    and "set port \<inter> set '':[]'' = {}"
  shows "SplitHostPort (host @ CHR '':'' # port) = Some (host, port)"
proof -
  have "index_of (rev (host @ CHR '':'' # port)) CHR '':'' = Some (length port)"
    using assms(5) index_of_append [of "CHR '':''" "rev port" "rev host"] by simp
  then have "last_index_of (host @ CHR '':'' # port) CHR '':'' = Some (length host)"
    by (simp add: last_index_of_def)
  moreover have "hd (host @ CHR '':'' # port) \<noteq> CHR ''[''" using assms(1,3) by (cases host) auto
  ultimately show ?thesis using assms by (auto simp: SplitHostPort_def)
qed

lemma SplitHostPort_v6:
  assumes "set host \<inter> set ''[]'' = {}" and "set port \<inter> set '':[]'' = {}"
  shows "SplitHostPort (CHR ''['' # host @ '']:'' @ port) = Some (host, port)"
proof -
  let ?hp = "CHR ''['' # host @ '']:'' @ port"
  have "index_of (rev ?hp) CHR '':'' = Some (length port)"
    using assms(2) index_of_append [of "CHR '':''" "rev port" "CHR '']'' # rev host @ ''[''"] by simp
  then have "last_index_of ?hp CHR '':'' = Some (length host + 2)" by (simp add: last_index_of_def)
  moreover have "index_of ?hp CHR '']'' = Some (length host + 1)"
    using assms(1) index_of_append [of "CHR '']''" "CHR ''['' # host" "CHR '':'' # port"] by simp
  ultimately show ?thesis using assms by (auto simp: SplitHostPort_def)
qed

text \<open>
  The key of a client cannot be forged on a directly reachable server: without a trusted
  proxy no header changes it, and it is the host the connection comes from, for IPv4 and IPv6
  addresses alike. Behind a trusted proxy it is the first entry of the forwarding header.
\<close>

theorem client_key:
  assumes "set v6 \<inter> set ''[]'' = {}" and "set port \<inter> set '':[]'' = {}"
    and "v4 \<noteq> []" and "set v4 \<inter> set '':[]'' = {}" and "CHR '','' \<notin> set a" and "a \<noteq> []"
    and "h ''X-Forwarded-For'' = a @ rest" and "rest = [] \<or> hd rest = CHR '',''"
  shows "clientIP h addr False = clientIP (\<lambda>_. []) addr False
    \<and> clientIP h (CHR ''['' # v6 @ '']:'' @ port) False = v6
    \<and> clientIP h (v4 @ CHR '':'' # port) False = v4
    \<and> clientIP h addr True = TrimSpace a"
proof -
  have "clientIP h addr True = TrimSpace a"
  proof (cases rest)
    case Nil
    then have "index_of (a @ rest) CHR '','' = None" using assms(5) by (simp add: index_of_None_iff)
    then show ?thesis using assms(6,7) Nil by (simp add: clientIP_def)
  next
    case (Cons c cs)
    then have "index_of (a @ rest) CHR '','' = Some (length a)" using assms(5,8) index_of_append by simp
    then show ?thesis using assms(6,7) by (simp add: clientIP_def)
  qed
  then show ?thesis
    using SplitHostPort_v6 [OF assms(1,2)] SplitHostPort_v4 [of v4 port] assms(2-4) by (simp add: clientIP_def)
qed

theorem client_key_witness:
  "clientIP (\<lambda>k. if k = ''X-Forwarded-For'' then ''1.1.1.1, 2.2.2.2'' else []) ''10.0.0.1:1234'' True = ''1.1.1.1''
   \<and> clientIP (\<lambda>k. if k = ''X-Forwarded-For'' then ''1.1.1.1, 2.2.2.2'' else []) ''10.0.0.1:1234'' False = ''10.0.0.1''"
proof -
  let ?h = "\<lambda>k. if k = ''X-Forwarded-For'' then ''1.1.1.1, 2.2.2.2'' else []"
  have t: "TrimSpace ''1.1.1.1'' = ''1.1.1.1''" by code_simp
  have "set ''::1'' \<inter> set ''[]'' = {}" "set ''1234'' \<inter> set '':[]'' = {}" "''10.0.0.1'' \<noteq> []"
    "set ''10.0.0.1'' \<inter> set '':[]'' = {}" "CHR '','' \<notin> set ''1.1.1.1''" "''1.1.1.1'' \<noteq> []"
    "?h ''X-Forwarded-For'' = ''1.1.1.1'' @ '', 2.2.2.2''" "'', 2.2.2.2'' = [] \<or> hd '', 2.2.2.2'' = CHR '',''"
    by simp_all
  note c = client_key [where h = ?h, OF this, of "''10.0.0.1:1234''"]
  have "clientIP ?h (''10.0.0.1'' @ CHR '':'' # ''1234'') False = ''10.0.0.1''" using c by blast
  moreover have "clientIP ?h ''10.0.0.1:1234'' True = ''1.1.1.1''" using c unfolding t by blast
  ultimately show ?thesis by simp
qed

end
