(* ===== verification/Deeplink.thy ===== *)
theory Deeplink
  imports Go_Url
begin

text \<open>
  internal/deeplink/deeplink.go: the \<open>ton://transfer\<close> link of an invoice and the size of its QR
  code.  The QR encoder itself is a library and appears as a parameter.
\<close>

section \<open>The code\<close>

text \<open>\<open>url.Values.Encode\<close> writes the pairs in the order of their keys.\<close>

fun encode_pairs :: "(string \<times> string) list \<Rightarrow> string" where
  "encode_pairs [] = []"
| "encode_pairs [(k, v)] = QueryEscape k @ ''='' @ QueryEscape v"
| "encode_pairs ((k, v) # q # rest) = QueryEscape k @ ''='' @ QueryEscape v @ ''&'' @ encode_pairs (q # rest)"

definition Build :: "string \<Rightarrow> int64 \<Rightarrow> string \<Rightarrow> string" where
  "Build payTo amountNano m =
     ''ton://transfer/'' @ payTo @ ''?'' @ encode_pairs [(''amount'', FormatInt amountNano), (''text'', m)]"

definition png_size :: "int \<Rightarrow> int" where
  "png_size n = (if n < 64 then 256 else if n > 1024 then 1024 else n)"

definition PNG :: "(string \<Rightarrow> int \<Rightarrow> 'png) \<Rightarrow> string \<Rightarrow> int \<Rightarrow> 'png" where
  "PNG encode txt n = encode txt (png_size n)"

section \<open>Reading a link back\<close>

text \<open>The reference: what a wallet does with the link.\<close>

definition cut :: "string \<Rightarrow> char \<Rightarrow> (string \<times> string) option" where
  "cut s c = (case index_of s c of None \<Rightarrow> None | Some n \<Rightarrow> Some (take n s, drop (Suc n) s))"

definition read_pair :: "string \<Rightarrow> string \<Rightarrow> string option" where
  "read_pair key s = (case cut s CHR ''='' of
     Some (k, v) \<Rightarrow> (if QueryUnescape k = Some key then QueryUnescape v else None)
   | None \<Rightarrow> None)"

definition read_link :: "string \<Rightarrow> (string \<times> int \<times> string) option" where
  "read_link s =
     (if \<not> HasPrefix s ''ton://transfer/'' then None
      else case cut (drop 15 s) CHR ''?'' of
          None \<Rightarrow> None
        | Some (payTo, q) \<Rightarrow>
            (case cut q CHR ''&'' of
               None \<Rightarrow> None
             | Some (p1, p2) \<Rightarrow>
                 (case (read_pair ''amount'' p1, read_pair ''text'' p2) of
                    (Some a, Some m) \<Rightarrow>
                      (case ParseInt 64 a of (n, None) \<Rightarrow> Some (payTo, n, m) | _ \<Rightarrow> None)
                  | _ \<Rightarrow> None)))"

lemma cut_append: "c \<notin> set xs \<Longrightarrow> cut (xs @ c # ys) c = Some (xs, ys)"
  by (simp add: cut_def index_of_append)

lemma escape_delims: "c \<in> set ''&=#?/:'' \<Longrightarrow> c \<notin> set (QueryEscape s)"
proof -
  have "list_all (\<lambda>c. \<not> url_unreserved c) ''&=#?/:''" by code_simp
  then show "c \<in> set ''&=#?/:'' \<Longrightarrow> c \<notin> set (QueryEscape s)"
    using QueryEscape_chars [of c s] by (auto simp: list_all_iff)
qed

lemma read_pair_encoded: "read_pair k (QueryEscape k @ ''='' @ QueryEscape v) = Some v"
  using cut_append [of "CHR ''=''" "QueryEscape k" "QueryEscape v"] escape_delims [of "CHR ''=''" k]
  by (simp add: read_pair_def QueryUnescape_Escape)

text \<open>
  A payment link carries the invoice without loss: reading it back gives the receiving
  address, the exact amount and the exact memo, whatever bytes the memo has.
\<close>

lemma read_link_Build:
  assumes "CHR ''?'' \<notin> set payTo" and "in_int64 n"
  shows "read_link (Build payTo n m) = Some (payTo, n, m)"
proof -
  let ?p1 = "QueryEscape ''amount'' @ ''='' @ QueryEscape (FormatInt n)"
  let ?p2 = "QueryEscape ''text'' @ ''='' @ QueryEscape m"
  have "CHR ''&'' \<notin> set ?p1" using escape_delims [of "CHR ''&''"] by simp
  then have c2: "cut (?p1 @ CHR ''&'' # ?p2) CHR ''&'' = Some (?p1, ?p2)" by (rule cut_append)
  have c1: "cut (payTo @ CHR ''?'' # (?p1 @ CHR ''&'' # ?p2)) CHR ''?'' = Some (payTo, ?p1 @ CHR ''&'' # ?p2)"
    using assms(1) by (rule cut_append)
  have b: "Build payTo n m = ''ton://transfer/'' @ payTo @ CHR ''?'' # (?p1 @ CHR ''&'' # ?p2)"
    by (simp add: Build_def)
  have "HasPrefix (Build payTo n m) ''ton://transfer/''" "drop 15 (Build payTo n m) = payTo @ CHR ''?'' # (?p1 @ CHR ''&'' # ?p2)"
    by (simp_all add: b HasPrefix_def)
  moreover have "ParseInt 64 (FormatInt n) = (n, None)"
    using assms(2) by (intro ParseInt_FormatInt) (simp_all add: in_int64_def go_defs)
  ultimately show ?thesis
    unfolding read_link_def using c1 c2 read_pair_encoded [of "''amount''"] read_pair_encoded [of "''text''"]
    by simp
qed

lemma Build_example:
  "read_link (Build ''EQ_x'' 5 ''a&b=c d'') = Some (''EQ_x'', 5, ''a&b=c d'')"
  by (rule read_link_Build) (simp_all add: in_int64_def go_defs)

text \<open>
  The QR code is always between 64 and 1024 pixels wide and exactly as wide as asked for in
  that range; but a smaller request is not raised to 64, it gets 256 pixels.
\<close>

lemma png_size_range:
  "64 \<le> png_size n \<and> png_size n \<le> 1024 \<and> (png_size n = n \<longleftrightarrow> 64 \<le> n \<and> n \<le> 1024)
   \<and> png_size 63 = 256 \<and> png_size 64 = 64 \<and> PNG enc txt n = enc txt (png_size n)"
  by (simp add: png_size_def PNG_def)

end
