(* ===== verification/Request_Body.thy ===== *)
theory Request_Body
  imports Json_Codec
begin

text \<open>
  internal/httpx/respond.go and the request of \<open>POST /v1/invoices\<close>: \<open>decodeJSON\<close> on the
  bytes of a body, with the cap on its size, the strictness about unknown fields and the look at
  what follows the first value.  The lemmas: what a client marshals is read back exactly, what is
  read is in the range of its types (valid UTF-8, 64-bit integers), and which trailing bytes pass.
\<close>

section \<open>Reading a request\<close>

record create_in =
  in_payTo :: string
  in_amountNano :: int64
  in_ttlSeconds :: int
  in_metadata :: "(string \<times> string) list"

definition zero_create_in :: create_in where
  "zero_create_in = \<lparr>in_payTo = [], in_amountNano = 0, in_ttlSeconds = 0, in_metadata = []\<rparr>"

definition create_fields :: "string list" where
  "create_fields = [''payTo'', ''amountNano'', ''ttlSeconds'', ''metadata'']"

text \<open>With \<open>DisallowUnknownFields\<close>, a member that is no field is an error.\<close>

definition set_create_field :: "create_in \<Rightarrow> string \<Rightarrow> json \<Rightarrow> create_in option" where
  "set_create_field c key v =
     (case field_of create_fields key of
        None \<Rightarrow> None
      | Some f \<Rightarrow>
          if f = ''payTo'' then map_option (\<lambda>x. c\<lparr>in_payTo := x\<rparr>) (dec_string (in_payTo c) v)
          else if f = ''amountNano'' then map_option (\<lambda>x. c\<lparr>in_amountNano := x\<rparr>) (dec_int (in_amountNano c) v)
          else if f = ''ttlSeconds'' then map_option (\<lambda>x. c\<lparr>in_ttlSeconds := x\<rparr>) (dec_int (in_ttlSeconds c) v)
          else map_option (\<lambda>x. c\<lparr>in_metadata := x\<rparr>) (dec_string_map (in_metadata c) v))"

definition max_body :: int where [go_defs]: "max_body = 1048576"

text \<open>\<open>MaxBytesReader\<close>: the bytes that can be read, and whether reading on fails.\<close>

definition capped :: "string \<Rightarrow> string \<times> bool" where
  "capped b = (if int (length b) \<le> max_body then (b, False) else (take (nat max_body) b, True))"

text \<open>\<open>Decoder.More\<close>: the next byte that is not white space neither closes an array nor an object.\<close>

definition More :: "string \<Rightarrow> bool" where
  "More r = (case skip_ws r of [] \<Rightarrow> False | c # _ \<Rightarrow> c \<noteq> CHR '']'' \<and> c \<noteq> CHR ''}'')"

definition composite :: "json \<Rightarrow> bool" where
  "composite j = (case j of JObj _ \<Rightarrow> True | JArr _ \<Rightarrow> True | _ \<Rightarrow> False)"

text \<open>
  The end of a value that is neither an object nor an array shows only in the byte after it, so
  one that ends where the readable part ends is lost when reading on fails.
\<close>

definition decodeJSON :: "string \<Rightarrow> create_in option" where
  "decodeJSON body =
     (case capped body of
        (b, over) \<Rightarrow>
          (case next_value b of
             None \<Rightarrow> None
           | Some (j, r) \<Rightarrow>
               if over \<and> r = [] \<and> \<not> composite j then None
               else case dec_struct set_create_field zero_create_in j of
                   None \<Rightarrow> None
                 | Some v \<Rightarrow> (if More r then None else Some v)))"

section \<open>What is read is in range\<close>

definition readable :: "create_in \<Rightarrow> bool" where
  "readable c \<longleftrightarrow> valid_utf8 (in_payTo c) \<and> in_int64 (in_amountNano c) \<and> in_int64 (in_ttlSeconds c)
     \<and> canonical (in_metadata c) \<and> valid_map (in_metadata c)"

lemma set_create_field_readable: "readable c \<Longrightarrow> set_create_field c k v = Some d \<Longrightarrow> readable d"
  by (auto simp: readable_def set_create_field_def dest: dec_string_valid dec_int_range dec_string_map_valid
      split: option.splits if_splits)

lemma zero_readable: "readable zero_create_in"
  by (simp add: readable_def zero_create_in_def in_int64_def go_defs canonical_def valid_map_def)

lemma decodeJSON_readable: "decodeJSON b = Some c \<Longrightarrow> readable c"
proof -
  assume "decodeJSON b = Some c"
  then obtain j where j: "dec_struct set_create_field zero_create_in j = Some c"
    by (auto simp: decodeJSON_def split: prod.splits option.splits if_splits)
  show ?thesis
  proof (cases j)
    case (JObj ms)
    with j have "fold_members set_create_field ms zero_create_in = Some c" by (simp add: dec_struct_def)
    then show ?thesis using zero_readable set_create_field_readable by (rule fold_members_inv)
  qed (use j zero_readable in \<open>auto simp: dec_struct_def\<close>)
qed

section \<open>What a client marshals\<close>

text \<open>A client's request with all four fields, and perhaps one more member.\<close>

definition create_json :: "create_in \<Rightarrow> (string \<times> json) list \<Rightarrow> json" where
  "create_json c extra = JObj ([(''payTo'', jstring (in_payTo c)), (''amountNano'', JNum (FormatInt (in_amountNano c))),
     (''ttlSeconds'', JNum (FormatInt (in_ttlSeconds c))), (''metadata'', string_map_json (in_metadata c))] @ extra)"

definition create_body :: "create_in \<Rightarrow> string" where
  "create_body c = compact (create_json c [])"

lemma create_names [simp]:
  "unquote ''ttlSeconds'' = Some ''ttlSeconds''" "literal ''ttlSeconds''"
  by (rule unquote_ascii literal_plain; simp add: plain_char_def code_def)+

lemma set_create:
  "set_create_field c ''payTo'' v = map_option (\<lambda>x. c\<lparr>in_payTo := x\<rparr>) (dec_string (in_payTo c) v)"
  "set_create_field c ''amountNano'' v = map_option (\<lambda>x. c\<lparr>in_amountNano := x\<rparr>) (dec_int (in_amountNano c) v)"
  "set_create_field c ''ttlSeconds'' v = map_option (\<lambda>x. c\<lparr>in_ttlSeconds := x\<rparr>) (dec_int (in_ttlSeconds c) v)"
  "set_create_field c ''metadata'' v = map_option (\<lambda>x. c\<lparr>in_metadata := x\<rparr>) (dec_string_map (in_metadata c) v)"
  by (simp_all add: set_create_field_def create_fields_def field_of_exact)

lemma create_json_read:
  "readable c \<Longrightarrow> dec_struct set_create_field zero_create_in (create_json c extra) = fold_members set_create_field extra c"
  using string_map_reads_back [of "in_metadata c"]
  by (cases c) (simp add: create_json_def dec_struct_def fold_members_append set_create zero_create_in_def readable_def
      ToValidUTF8_valid map_as_read_id)

lemma create_json_wf: "wf_json (create_json c [])" and create_json_nesting: "nesting (create_json c []) \<le> 2"
proof -
  show "wf_json (create_json c [])" using wf_string_map by (auto simp: create_json_def)
  have "nesting (create_json c []) \<le> 1 + 1" unfolding create_json_def
    using nesting_string_map [of "in_metadata c"] by (intro nesting_object) auto
  then show "nesting (create_json c []) \<le> 2" by simp
qed

lemma decode_create_body:
  assumes "readable c" and "int (length (create_body c @ t)) \<le> max_body"
  shows "decodeJSON (create_body c @ t) = (if More t then None else Some c)"
proof -
  have "next_value (create_body c @ t) = Some (create_json c [], t)"
    unfolding create_body_def compact_def
    using create_json_nesting [of c]
    by (intro next_value_printed layout_compact create_json_wf) (simp_all add: max_nesting_def ends_def create_json_def)
  moreover have "capped (create_body c @ t) = (create_body c @ t, False)" using assms(2) by (simp add: capped_def)
  ultimately show ?thesis using create_json_read [OF assms(1), of "[]"] by (simp add: decodeJSON_def)
qed

lemma unknown_member_refused:
  assumes "readable c" and "field_of create_fields k = None" and "valid_utf8 k" and "wf_json v"
    and "nesting v < max_nesting" and "int (length (compact (create_json c [(quote k, v)]))) \<le> max_body"
  shows "decodeJSON (compact (create_json c [(quote k, v)])) = None"
proof -
  let ?j = "create_json c [(quote k, v)]"
  have "wf_json ?j" using wf_string_map assms(4) by (auto simp: create_json_def literal_quote)
  moreover have "nesting ?j \<le> 1 + max 1 (nesting v)" unfolding create_json_def
    using nesting_string_map [of "in_metadata c"] by (intro nesting_object) auto
  then have "nesting ?j \<le> max_nesting" using assms(5) by (simp add: max_nesting_def)
  ultimately have "next_value (compact ?j @ []) = Some (?j, [])"
    unfolding compact_def by (intro next_value_printed layout_compact delim_ends) simp_all
  moreover have "fold_members set_create_field [(quote k, v)] c = None"
    using assms(2,3) by (simp add: unquote_quote ToValidUTF8_valid set_create_field_def)
  ultimately show ?thesis using create_json_read [OF assms(1), of "[(quote k, v)]"] assms(6)
    by (simp add: decodeJSON_def capped_def)
qed

text \<open>
  C16: How strictly a creation request is read. What a client marshals is read back exactly as
  it was, unless something follows it that looks like a further value; a member that is no field
  of the request is refused; and whatever bytes are accepted, what comes out fits its types: 64-bit
  integers and valid UTF-8. But a closing brace behind the object passes, with all that follows it.
\<close>

theorem request_is_read_strictly:
  assumes "readable c" and "int (length (create_body c) + length t) < max_body"
    and "field_of create_fields k = None" and "valid_utf8 k"
    and "int (length (compact (create_json c [(quote k, JNull)]))) \<le> max_body"
  shows "decodeJSON (create_body c @ t) = (if More t then None else Some c)
    \<and> decodeJSON (create_body c @ CHR ''}'' # t) = Some c
    \<and> decodeJSON (compact (create_json c [(quote k, JNull)])) = None
    \<and> (\<forall>b d. decodeJSON b = Some d \<longrightarrow> readable d)"
proof (intro conjI allI impI)
  have "int (length (create_body c @ t)) \<le> max_body" "int (length (create_body c @ CHR ''}'' # t)) \<le> max_body"
    using assms(2) by simp_all
  from this [THEN decode_create_body [OF assms(1)]]
  show "decodeJSON (create_body c @ t) = (if More t then None else Some c)"
    and "decodeJSON (create_body c @ CHR ''}'' # t) = Some c" by (simp_all add: More_def)
  show "decodeJSON (compact (create_json c [(quote k, JNull)])) = None"
    using unknown_member_refused [OF assms(1,3,4) _ _ assms(5)] by (simp add: max_nesting_def)
qed (rule decodeJSON_readable)

definition sample_input :: create_in where
  "sample_input = \<lparr>in_payTo = ''EQ1'', in_amountNano = 7, in_ttlSeconds = 60, in_metadata = [(''a'', ''b'')]\<rparr>"

lemma sample_readable: "readable sample_input"
proof -
  have "valid_utf8 ''EQ1''" "valid_utf8 ''a''" "valid_utf8 ''b''"
    by (rule valid_ascii, simp add: code_def)+
  then show ?thesis by (simp add: readable_def sample_input_def in_int64_def go_defs canonical_def valid_map_def)
qed

theorem request_is_read_strictly_witness:
  "decodeJSON (create_body sample_input @ '' {}'') = None
   \<and> decodeJSON (create_body sample_input @ ''} {}'') = Some sample_input
   \<and> decodeJSON (compact (create_json sample_input [(quote ''admin'', JNull)])) = None"
proof -
  have u: "valid_utf8 ''admin''" by (rule valid_ascii) (simp add: code_def)
  have n: "field_of create_fields ''admin'' = None" by code_simp
  have l: "length (create_body sample_input) \<le> 200"
    "length (compact (create_json sample_input [(quote ''admin'', JNull)])) \<le> 200" by code_simp+
  then have "int (length (create_body sample_input) + length '' {}'') < max_body"
    "int (length (compact (create_json sample_input [(quote ''admin'', JNull)]))) \<le> max_body"
    by (simp_all add: go_defs)
  from request_is_read_strictly [OF sample_readable this(1) n u this(2)]
  show ?thesis by (simp add: More_def skip_ws_def is_ws_def)
qed

end
