(* ===== verification/Httpx.thy ===== *)
theory Httpx
  imports RateLimit Startup Deeplink Request_Body
begin

text \<open>
  internal/httpx: the handlers, the API-key gate, the middleware chain and the routes, as one
  function from a request and the server's state to a response and the next state.  The request
  is what net/http hands over: a matched path as its segments, the headers by canonical name, and
  the bytes of the body.  Of a log line method, path and status are kept.  The
  transport below the handlers is not modelled; the QR encoder is a parameter.
\<close>

section \<open>Requests, responses, state\<close>

record request =
  req_method :: string
  req_path :: "string list"
  req_header :: "string \<Rightarrow> string"
  remote_addr :: string
  req_size :: string
  req_body :: string

record invoice_view =
  v_id :: string
  v_status :: string
  v_payTo :: string
  v_memo :: string
  v_amountNano :: int64
  v_amount :: string
  v_currency :: string
  v_txHash :: string
  v_metadata :: "(string \<times> string) list"
  v_deeplink :: string
  v_qr :: string
  v_createdAt :: gtime
  v_paidAt :: gtime
  v_expiresAt :: gtime

datatype 'png payload =
    NoBody
  | ErrorJson string
  | ServiceErrorJson service_error
  | InvoiceJson invoice_view
  | HealthJson string
  | PngBytes 'png
  | PlainText string

type_synonym headers = "string \<rightharpoonup> string"

record 'png response =
  resp_status :: int
  resp_headers :: headers
  resp_body :: "'png payload"

text \<open>A handler answers or panics; the headers set so far survive the panic.\<close>

datatype 'png reply = Written "'png response" | Panic headers

record ('s, 'v) server =
  site :: "('s, 'v) system"
  limiter :: rateLimiter
  access_log :: "(string \<times> string list \<times> int) list"

text \<open>What the surroundings contribute to one request.\<close>

record ('w, 'e) http_env =
  he_clock :: gtime
  he_id :: "byte list"
  he_create :: "'w create_env"
  he_check :: "('w, 'e) check_env"
  he_read :: 'w

record ('s, 'w, 'e, 'v) api =
  api_cfg :: Config
  api_svc :: "('s, 'w, 'e, 'v) Service"

type_synonym ('s, 'w, 'e, 'v, 'png) handler =
  "request \<Rightarrow> ('w, 'e) http_env \<Rightarrow> headers \<Rightarrow> ('s, 'v) server \<Rightarrow> 'png reply \<times> ('s, 'v) server"

section \<open>Responding\<close>

definition writeJSON :: "headers \<Rightarrow> int \<Rightarrow> 'png payload \<Rightarrow> 'png reply" where
  "writeJSON h st body = Written \<lparr>resp_status = st,
     resp_headers = h(''Content-Type'' \<mapsto> ''application/json; charset=utf-8''), resp_body = body\<rparr>"

definition writeError :: "headers \<Rightarrow> int \<Rightarrow> string \<Rightarrow> 'png reply" where
  "writeError h st msg = writeJSON h st (ErrorJson msg)"

text \<open>\<open>http.Error\<close>, which the router uses for 404 and 405.\<close>

definition plain_error :: "headers \<Rightarrow> int \<Rightarrow> string \<Rightarrow> 'png reply" where
  "plain_error h st msg = Written \<lparr>resp_status = st,
     resp_headers = h(''Content-Type'' \<mapsto> ''text/plain; charset=utf-8'', ''X-Content-Type-Options'' \<mapsto> ''nosniff''),
     resp_body = PlainText msg\<rparr>"

section \<open>Handlers\<close>

definition authorized :: "('s, 'w, 'e, 'v) api \<Rightarrow> request \<Rightarrow> bool" where
  "authorized a r =
     (let want = CreateAPIKey (api_cfg a) in
      if want = [] then True
      else let got = req_header r ''X-API-Key'';
               got = (if got = [] then TrimPrefix (req_header r ''Authorization'') ''Bearer '' else got)
        in got = want)"

definition invoiceView :: "invoice \<Rightarrow> invoice_view" where
  "invoiceView i = \<lparr>v_id = ID i, v_status = Status i, v_payTo = PayTo i, v_memo = Memo i,
     v_amountNano = AmountNano i, v_amount = NanoToTONString (AmountNano i), v_currency = Currency i,
     v_txHash = TxHash i, v_metadata = Metadata i, v_deeplink = Build (PayTo i) (AmountNano i) (Memo i),
     v_qr = ''/v1/invoices/'' @ ID i @ ''/qr'', v_createdAt = CreatedAt i, v_paidAt = PaidAt i,
     v_expiresAt = ExpiresAt i\<rparr>"

definition createInvoice :: "('s, 'w, 'e, 'v) api \<Rightarrow> ('s, 'w, 'e, 'v, 'png) handler" where
  "createInvoice a r env h sv =
     (if \<not> authorized a r then (writeError h 401 ''invalid or missing API key'', sv)
      else case decodeJSON (req_body r) of
          None \<Rightarrow> (writeError h 400 ''invalid JSON body'', sv)
        | Some inp \<Rightarrow>
            if in_amountNano inp \<le> 0
            then (writeError h 400 ''amountNano must be a positive integer (nanoTON)'', sv)
            else case ServiceCreate (api_svc a) (he_create env) (in_payTo inp) (in_amountNano inp)
                (seconds (in_ttlSeconds inp)) (in_metadata inp) (db (site sv)) of
              (res, s') \<Rightarrow>
                (let sv' = sv\<lparr>site := (site sv)\<lparr>db := s'\<rparr>\<rparr> in
                 case res of
                   Failed e \<Rightarrow> (writeJSON h 400 (ServiceErrorJson e), sv')
                 | Returned i \<Rightarrow> (writeJSON h 201 (InvoiceJson (invoiceView i)), sv')
                 | Panicked \<Rightarrow> (Panic h, sv')))"

definition getInvoice :: "('s, 'w, 'e, 'v) api \<Rightarrow> string \<Rightarrow> ('s, 'w, 'e, 'v, 'png) handler" where
  "getInvoice a iid r env h sv =
     (case ServiceGet (api_svc a) (he_read env) (db (site sv)) iid of
        None \<Rightarrow> (writeError h 404 ''not found'', sv)
      | Some i \<Rightarrow> (writeJSON h 200 (InvoiceJson (invoiceView i)), sv))"

definition invoiceStatus :: "('s, 'w, 'e, 'v) api \<Rightarrow> string \<Rightarrow> ('s, 'w, 'e, 'v, 'png) handler" where
  "invoiceStatus a iid r env h sv =
     (case CheckStatus (api_svc a) (he_check env) iid (site sv) of
        ((i, Some e), sys') \<Rightarrow> (writeError h 404 ''not found'', sv\<lparr>site := sys'\<rparr>)
      | ((i, None), sys') \<Rightarrow> (writeJSON h 200 (InvoiceJson (invoiceView i)), sv\<lparr>site := sys'\<rparr>))"

definition invoiceQR ::
  "(string \<Rightarrow> int \<Rightarrow> 'png option) \<Rightarrow> ('s, 'w, 'e, 'v) api \<Rightarrow> string \<Rightarrow> ('s, 'w, 'e, 'v, 'png) handler" where
  "invoiceQR qr a iid r env h sv =
     (case ServiceGet (api_svc a) (he_read env) (db (site sv)) iid of
        None \<Rightarrow> (writeError h 404 ''not found'', sv)
      | Some i \<Rightarrow>
          (case PNG qr (Build (PayTo i) (AmountNano i) (Memo i)) (fst (Atoi (req_size r))) of
             None \<Rightarrow> (writeError h 500 ''qr render failed'', sv)
           | Some png \<Rightarrow> (Written \<lparr>resp_status = 200,
               resp_headers = h(''Content-Type'' \<mapsto> ''image/png'', ''Cache-Control'' \<mapsto> ''no-store''),
               resp_body = PngBytes png\<rparr>, sv)))"

definition healthz :: "('s, 'w, 'e, 'v) api \<Rightarrow> ('s, 'w, 'e, 'v, 'png) handler" where
  "healthz a r env h sv = (writeJSON h 200 (HealthJson (Env (api_cfg a))), sv)"

section \<open>Middleware\<close>

definition auth :: "('s, 'w, 'e, 'v) api \<Rightarrow> ('s, 'w, 'e, 'v, 'png) handler \<Rightarrow> ('s, 'w, 'e, 'v, 'png) handler" where
  "auth a nxt r env h sv =
     (if \<not> authorized a r then (writeError h 401 ''invalid or missing API key'', sv) else nxt r env h sv)"

definition limiter_wrap :: "('s, 'w, 'e, 'v, 'png) handler \<Rightarrow> ('s, 'w, 'e, 'v, 'png) handler" where
  "limiter_wrap nxt r env h sv =
     (case allow (he_clock env) (clientIP (req_header r) (remote_addr r) (trustProxy (limiter sv))) (limiter sv) of
        (ok, rl) \<Rightarrow>
          (if \<not> ok then (writeError h 429 ''rate limit exceeded; slow down'', sv\<lparr>limiter := rl\<rparr>)
           else nxt r env h (sv\<lparr>limiter := rl\<rparr>)))"

definition requestID :: "('s, 'w, 'e, 'v, 'png) handler \<Rightarrow> ('s, 'w, 'e, 'v, 'png) handler" where
  "requestID nxt r env h sv = nxt r env (h(''X-Request-Id'' \<mapsto> HexEncode (he_id env))) sv"

text \<open>The line is written after the handler has returned, so a panic leaves none.\<close>

definition logger :: "('s, 'w, 'e, 'v, 'png) handler \<Rightarrow> ('s, 'w, 'e, 'v, 'png) handler" where
  "logger nxt r env h sv =
     (case nxt r env h sv of
        (Panic h', sv') \<Rightarrow> (Panic h', sv')
      | (Written resp, sv') \<Rightarrow>
          (Written resp, sv'\<lparr>access_log := access_log sv' @ [(req_method r, req_path r, resp_status resp)]\<rparr>))"

definition recoverMW :: "('s, 'w, 'e, 'v, 'png) handler \<Rightarrow> ('s, 'w, 'e, 'v, 'png) handler" where
  "recoverMW nxt r env h sv =
     (case nxt r env h sv of
        (Panic h', sv') \<Rightarrow> (writeError h' 500 ''internal error'', sv')
      | (Written resp, sv') \<Rightarrow> (Written resp, sv'))"

definition securityHeaders ::
  "bool \<Rightarrow> ('s, 'w, 'e, 'v, 'png) handler \<Rightarrow> ('s, 'w, 'e, 'v, 'png) handler" where
  "securityHeaders isprod nxt r env h sv =
     (let h1 = h(''X-Content-Type-Options'' \<mapsto> ''nosniff'', ''Referrer-Policy'' \<mapsto> ''no-referrer'',
               ''X-Frame-Options'' \<mapsto> ''DENY'');
          h2 = (if isprod then h1(''Strict-Transport-Security'' \<mapsto> ''max-age=31536000; includeSubDomains'') else h1)
      in nxt r env h2 sv)"

definition cors ::
  "string list \<Rightarrow> ('s, 'w, 'e, 'v, 'png) handler \<Rightarrow> ('s, 'w, 'e, 'v, 'png) handler" where
  "cors allowed nxt r env h sv =
     (let org = req_header r ''Origin'';
          h1 = (if org \<noteq> [] \<and> org \<in> set allowed
                then h(''Access-Control-Allow-Origin'' \<mapsto> org, ''Vary'' \<mapsto> ''Origin'',
                   ''Access-Control-Allow-Headers'' \<mapsto> ''Content-Type, Authorization, X-API-Key'',
                   ''Access-Control-Allow-Methods'' \<mapsto> ''GET, POST, OPTIONS'')
                else h)
      in if req_method r = ''OPTIONS''
         then (Written \<lparr>resp_status = 204, resp_headers = h1, resp_body = NoBody\<rparr>, sv)
         else nxt r env h1 sv)"

fun chain :: "'h \<Rightarrow> ('h \<Rightarrow> 'h) list \<Rightarrow> 'h" where
  "chain h [] = h"
| "chain h (m # ms) = m (chain h ms)"

section \<open>Routes\<close>

text \<open>
  The patterns of the router.  A \<open>GET\<close> pattern also serves \<open>HEAD\<close>, a wildcard is one non-empty
  segment, a known path with another method is a 405 and any other path a 404.
\<close>

datatype route = Health | Create | Get string | CheckIt string | QR string | WrongMethod string | NoRoute

definition route_of :: "string \<Rightarrow> string list \<Rightarrow> route" where
  "route_of m path =
     (let reading = (\<lambda>x. if m = ''GET'' \<or> m = ''HEAD'' then x else WrongMethod ''GET, HEAD'') in
      case path of
        [a] \<Rightarrow> if a = ''healthz'' then reading Health else NoRoute
      | [a, b] \<Rightarrow> if a = ''v1'' \<and> b = ''invoices'' then (if m = ''POST'' then Create else WrongMethod ''POST'') else NoRoute
      | [a, b, k] \<Rightarrow> if a = ''v1'' \<and> b = ''invoices'' \<and> k \<noteq> [] then reading (Get k) else NoRoute
      | [a, b, k, x] \<Rightarrow>
          if a = ''v1'' \<and> b = ''invoices'' \<and> k \<noteq> [] \<and> x = ''status'' then reading (CheckIt k)
          else if a = ''v1'' \<and> b = ''invoices'' \<and> k \<noteq> [] \<and> x = ''qr'' then reading (QR k)
          else NoRoute
      | _ \<Rightarrow> NoRoute)"

definition serve_mux ::
  "(string \<Rightarrow> int \<Rightarrow> 'png option) \<Rightarrow> ('s, 'w, 'e, 'v) api \<Rightarrow> ('s, 'w, 'e, 'v, 'png) handler" where
  "serve_mux qr a r env h sv =
     (case route_of (req_method r) (req_path r) of
        Health \<Rightarrow> healthz a r env h sv
      | Create \<Rightarrow> limiter_wrap (createInvoice a) r env h sv
      | Get k \<Rightarrow> auth a (getInvoice a k) r env h sv
      | CheckIt k \<Rightarrow> limiter_wrap (auth a (invoiceStatus a k)) r env h sv
      | QR k \<Rightarrow> auth a (invoiceQR qr a k) r env h sv
      | WrongMethod allowed \<Rightarrow> (plain_error (h(''Allow'' \<mapsto> allowed)) 405 ''Method Not Allowed'', sv)
      | NoRoute \<Rightarrow> (plain_error h 404 ''404 page not found'', sv))"

definition NewServer :: "('s, 'w, 'e, 'v) api \<Rightarrow> ('s, 'v) system \<Rightarrow> ('s, 'v) server" where
  "NewServer a sys = \<lparr>site = sys, limiter = newRateLimiter 5 40 (TrustProxy (api_cfg a)), access_log = []\<rparr>"

definition serve ::
  "(string \<Rightarrow> int \<Rightarrow> 'png option) \<Rightarrow> ('s, 'w, 'e, 'v) api \<Rightarrow> request \<Rightarrow> ('w, 'e) http_env
    \<Rightarrow> ('s, 'v) server \<Rightarrow> 'png reply \<times> ('s, 'v) server" where
  "serve qr a r env sv =
     chain (serve_mux qr a)
       [recoverMW, requestID, logger, securityHeaders (IsProd (api_cfg a)), cors (AllowedOrigins (api_cfg a))]
       r env Map.empty sv"

end
