(* ===== verification/Http_Service.thy ===== *)
theory Http_Service
  imports Httpx
begin

text \<open>
  What a client of the HTTP interface can rely on: every request is answered with the security
  headers, nothing is disclosed or done without the API key, work is rate limited per client, and
  an invoice created over HTTP is read back over HTTP.
\<close>

section \<open>Headers\<close>

definition hdrs :: "'png reply \<Rightarrow> headers" where
  "hdrs rep = (case rep of Written resp \<Rightarrow> resp_headers resp | Panic h \<Rightarrow> h)"

named_theorems handler_defs "the bodies of the handlers"

declare createInvoice_def [handler_defs] getInvoice_def [handler_defs] invoiceStatus_def [handler_defs]
  invoiceQR_def [handler_defs] healthz_def [handler_defs] writeError_def [handler_defs] writeJSON_def [handler_defs]
  plain_error_def [handler_defs] auth_def [handler_defs]

lemma createInvoice_headers:
  "k \<noteq> ''Content-Type'' \<Longrightarrow> hdrs (fst (createInvoice a r env h sv)) k = h k"
  by (simp add: handler_defs hdrs_def Let_def split: option.split prod.split outcome.split)

lemma other_headers:
  assumes "k \<notin> {''Content-Type'', ''Cache-Control''}"
  shows "hdrs (fst (getInvoice a iid r env h sv)) k = h k" "hdrs (fst (invoiceStatus a iid r env h sv)) k = h k"
    "hdrs (fst (invoiceQR qr a iid r env h sv)) k = h k" "hdrs (fst (healthz a r env h sv)) k = h k"
  using assms by (simp_all add: handler_defs hdrs_def split: option.split prod.split)

lemma mux_headers:
  assumes "k \<notin> {''Content-Type'', ''Cache-Control'', ''Allow''}"
  shows "hdrs (fst (serve_mux qr a r env h sv)) k = h k
    \<or> k = ''X-Content-Type-Options'' \<and> hdrs (fst (serve_mux qr a r env h sv)) k = Some ''nosniff''"
proof -
  have k: "k \<noteq> ''Content-Type''" "k \<notin> {''Content-Type'', ''Cache-Control''}" using assms by simp_all
  note c = createInvoice_headers [OF k(1)] other_headers [OF k(2)]
  have err: "hdrs (writeError h st msg) k = h k" for st msg
    using k(1) by (simp add: hdrs_def writeError_def writeJSON_def)
  show ?thesis
  proof (cases "route_of (req_method r) (req_path r)")
    case Create
    then show ?thesis by (simp add: serve_mux_def limiter_wrap_def err c split: prod.split)
  next
    case (CheckIt iid)
    then show ?thesis by (simp add: serve_mux_def limiter_wrap_def auth_def err c split: prod.split)
  next
    case (WrongMethod m)
    then show ?thesis using assms by (simp add: serve_mux_def plain_error_def hdrs_def)
  next
    case NoRoute
    then show ?thesis using assms by (simp add: serve_mux_def plain_error_def hdrs_def)
  qed (simp_all add: serve_mux_def auth_def err c)
qed

text \<open>What the middleware sets before the router is reached.\<close>

definition mw_headers :: "Config \<Rightarrow> request \<Rightarrow> byte list \<Rightarrow> headers" where
  "mw_headers cfg r rid = (let org = req_header r ''Origin'';
     h1 = [''X-Request-Id'' \<mapsto> HexEncode rid, ''X-Content-Type-Options'' \<mapsto> ''nosniff'',
       ''Referrer-Policy'' \<mapsto> ''no-referrer'', ''X-Frame-Options'' \<mapsto> ''DENY''];
     h2 = (if IsProd cfg then h1(''Strict-Transport-Security'' \<mapsto> ''max-age=31536000; includeSubDomains'') else h1) in
     if org \<noteq> [] \<and> org \<in> set (AllowedOrigins cfg)
     then h2(''Access-Control-Allow-Origin'' \<mapsto> org, ''Vary'' \<mapsto> ''Origin'',
        ''Access-Control-Allow-Headers'' \<mapsto> ''Content-Type, Authorization, X-API-Key'',
        ''Access-Control-Allow-Methods'' \<mapsto> ''GET, POST, OPTIONS'')
     else h2)"

definition logged :: "request \<Rightarrow> 'png response \<Rightarrow> ('s, 'v) server \<Rightarrow> ('s, 'v) server" where
  "logged r resp sv = sv\<lparr>access_log := access_log sv @ [(req_method r, req_path r, resp_status resp)]\<rparr>"

lemma logged_simps [simp]: "site (logged r resp sv) = site sv" "limiter (logged r resp sv) = limiter sv"
  by (simp_all add: logged_def)

lemma headers_unfold:
  "securityHeaders (IsProd cfg) (cors (AllowedOrigins cfg) nxt) r env (Map.empty(''X-Request-Id'' \<mapsto> HexEncode rid)) sv =
     (let h = mw_headers cfg r rid in
      if req_method r = ''OPTIONS''
      then (Written \<lparr>resp_status = 204, resp_headers = h, resp_body = NoBody\<rparr>, sv) else nxt r env h sv)"
  by (simp only: securityHeaders_def cors_def mw_headers_def Let_def)

lemma serve_unfold:
  "serve qr a r env sv =
     (let h = mw_headers (api_cfg a) r (he_id env);
          no_content = \<lparr>resp_status = 204, resp_headers = h, resp_body = NoBody\<rparr> in
      if req_method r = ''OPTIONS'' then (Written no_content, logged r no_content sv)
      else case serve_mux qr a r env h sv of
          (Panic h', sv') \<Rightarrow> (writeError h' 500 ''internal error'', sv')
        | (Written resp, sv') \<Rightarrow> (Written resp, logged r resp sv'))"
proof -
  obtain rep sv' where m: "serve_mux qr a r env (mw_headers (api_cfg a) r (he_id env)) sv = (rep, sv')"
    by (metis surj_pair)
  show ?thesis
    by (simp only: serve_def chain.simps recoverMW_def requestID_def logger_def headers_unfold m Let_def)
      (cases rep; cases "req_method r = ''OPTIONS''"; simp add: logged_def)
qed

lemma serve_headers:
  assumes "k \<notin> {''Content-Type'', ''Cache-Control'', ''Allow''}"
  shows "\<exists>resp sv'. serve qr a r env sv = (Written resp, sv')
    \<and> (resp_headers resp k = mw_headers (api_cfg a) r (he_id env) k
       \<or> k = ''X-Content-Type-Options'' \<and> resp_headers resp k = Some ''nosniff'')"
proof (cases "req_method r = ''OPTIONS''")
  case True
  then show ?thesis by (simp add: serve_unfold Let_def)
next
  case False
  obtain rep sv' where m: "serve_mux qr a r env (mw_headers (api_cfg a) r (he_id env)) sv = (rep, sv')"
    by (metis surj_pair)
  have "hdrs rep k = mw_headers (api_cfg a) r (he_id env) k
    \<or> k = ''X-Content-Type-Options'' \<and> hdrs rep k = Some ''nosniff''"
    using mux_headers [OF assms, of qr a r env "mw_headers (api_cfg a) r (he_id env)" sv] m by simp
  then show ?thesis
    using False m assms by (cases rep) (simp_all add: serve_unfold writeError_def writeJSON_def hdrs_def)
qed

text \<open>
  C34: Every request is answered, a panicking handler included, and every answer carries the
  security headers and its request id; strict transport security is announced in production and
  only there; and a cross-origin permission is given exactly to the configured origins, never to
  another one and never as a wildcard.
\<close>

theorem every_response_is_hardened:
  "\<exists>resp sv'. serve qr a r env sv = (Written resp, sv')
     \<and> resp_headers resp ''X-Content-Type-Options'' = Some ''nosniff''
     \<and> resp_headers resp ''Referrer-Policy'' = Some ''no-referrer''
     \<and> resp_headers resp ''X-Frame-Options'' = Some ''DENY''
     \<and> resp_headers resp ''X-Request-Id'' = Some (HexEncode (he_id env))
     \<and> (resp_headers resp ''Strict-Transport-Security'' \<noteq> None \<longleftrightarrow> IsProd (api_cfg a))
     \<and> resp_headers resp ''Access-Control-Allow-Origin''
        = (let org = req_header r ''Origin'' in
           if org \<noteq> [] \<and> org \<in> set (AllowedOrigins (api_cfg a)) then Some org else None)"
proof -
  obtain resp sv' where s: "serve qr a r env sv = (Written resp, sv')"
    using serve_headers [of "''Vary''" qr a r env sv] by auto
  have k: "resp_headers resp k = mw_headers (api_cfg a) r (he_id env) k"
    if "k \<notin> {''Content-Type'', ''Cache-Control'', ''Allow'', ''X-Content-Type-Options''}" for k
    using serve_headers [of k qr a r env sv] s that by auto
  have x: "resp_headers resp ''X-Content-Type-Options'' = Some ''nosniff''"
    using serve_headers [of "''X-Content-Type-Options''" qr a r env sv] s by (auto simp: mw_headers_def Let_def)
  show ?thesis
    using s x by (intro exI [of _ resp] exI [of _ sv']) (simp add: k, simp add: mw_headers_def Let_def)
qed

section \<open>The key\<close>

lemma TrimPrefix_eq: "TrimPrefix s p = t \<Longrightarrow> s = t \<or> s = p @ t"
  by (metis HasPrefix_def TrimPrefix_def append_take_drop_id)

lemma unauthorized:
  assumes "CreateAPIKey (api_cfg a) = key" and "key \<noteq> []" and "req_header r ''X-API-Key'' \<noteq> key"
    and "req_header r ''X-API-Key'' \<noteq> [] \<or> req_header r ''Authorization'' \<notin> {key, ''Bearer '' @ key}"
  shows "\<not> authorized a r"
  using assms TrimPrefix_eq [of "req_header r ''Authorization''" "''Bearer ''" key]
  by (auto simp: authorized_def Let_def)

text \<open>
  C9: Without the API key nothing is done and nothing is shown. When a key is configured, a
  request that presents it neither as \<open>X-API-Key\<close> nor as \<open>Authorization\<close> leaves the database, the
  verifier and the notifications untouched, whatever its route, and its answer is neither an
  invoice nor a QR code; only the health check succeeds.
\<close>

theorem nothing_without_the_key:
  assumes "CreateAPIKey (api_cfg a) = key" and "key \<noteq> []" and "req_header r ''X-API-Key'' \<noteq> key"
    and "req_header r ''X-API-Key'' \<noteq> [] \<or> req_header r ''Authorization'' \<notin> {key, ''Bearer '' @ key}"
    and "serve qr a r env sv = (Written resp, sv')"
  shows "site sv' = site sv \<and> resp_status resp \<in> {200, 204, 401, 404, 405, 429}
    \<and> (\<forall>v. resp_body resp \<noteq> InvoiceJson v) \<and> (\<forall>p. resp_body resp \<noteq> PngBytes p)
    \<and> (resp_status resp = 200 \<longrightarrow> resp_body resp = HealthJson (Env (api_cfg a)))"
proof -
  note u = unauthorized [OF assms(1-4)]
  show ?thesis
  proof (cases "req_method r = ''OPTIONS''")
    case True
    then show ?thesis using assms(5) by (auto simp: serve_unfold Let_def)
  next
    case False
    then show ?thesis
      using assms(5) u
      by (cases "route_of (req_method r) (req_path r)")
        (auto simp: serve_unfold serve_mux_def limiter_wrap_def handler_defs Let_def split: prod.splits if_splits)
  qed
qed

section \<open>Creating and reading\<close>

lemma String_no_query: "CHR ''?'' \<notin> set (String a)"
proof -
  have "CHR ''?'' \<notin> set url_alphabet" by code_simp
  then show ?thesis
    using raw_b64_chars by (auto simp: String_def Friendly_def b64_encode_def raw_b64_encode_def padding_def pad_char_def)
qed

lemma NormalizeOnNetwork_no_query: "NormalizeOnNetwork s b = Inr t \<Longrightarrow> CHR ''?'' \<notin> set t"
  using String_no_query by (auto simp: NormalizeOnNetwork_def split: sum.splits if_splits)

lemma created_id:
  assumes "mem_inv s" and "svc_st svc = memory_store" and "nul_free (svc_defaultPayTo svc)"
    and "fresh_draws (invoices s) env" and "ServiceCreate svc env payTo n ttl md s = (Returned i, s')"
  shows "ID i \<noteq> []"
  using mem.ServiceCreate_law [OF assms] by (auto simp: draws_of_def NewID_def)

text \<open>The one way a creation request is answered with an invoice.\<close>

lemma post_created:
  assumes "req_method r = ''POST''" and "req_path r = [''v1'', ''invoices'']"
    and "serve qr a r env sv = (Written resp, sv')" and "resp_body resp = InvoiceJson v"
  obtains inp i s' where "decodeJSON (req_body r) = Some inp" and "authorized a r" and "resp_status resp = 201"
    and "ServiceCreate (api_svc a) (he_create env) (in_payTo inp) (in_amountNano inp) (seconds (in_ttlSeconds inp))
      (in_metadata inp) (db (site sv)) = (Returned i, s')"
    and "v = invoiceView i" and "site sv' = (site sv)\<lparr>db := s'\<rparr>"
proof -
  have "route_of (req_method r) (req_path r) = Create" by (simp add: assms(1,2) route_of_def)
  then show thesis
    using assms(1,3,4) that
    by (auto simp: serve_unfold serve_mux_def limiter_wrap_def createInvoice_def writeError_def writeJSON_def Let_def
        split: prod.splits if_splits option.splits outcome.splits reply.splits)
qed

lemma get_served:
  assumes "req_method r = ''GET''" and "req_path r = [''v1'', ''invoices'', k]" and "k \<noteq> []" and "authorized a r"
    and "GetInvoice (svc_st (api_svc a)) (he_read env) (db (site sv)) k = Some i"
  shows "\<exists>h. fst (serve qr a r env sv)
    = Written \<lparr>resp_status = 200, resp_headers = h, resp_body = InvoiceJson (invoiceView i)\<rparr>"
proof -
  have "route_of (req_method r) (req_path r) = Get k" by (simp add: assms(1-3) route_of_def)
  then show ?thesis
    using assms(1,4,5) by (simp add: serve_unfold serve_mux_def auth_def getInvoice_def ServiceGet_def writeJSON_def Let_def)
qed

text \<open>
  C14: An invoice created over HTTP can be paid and read over HTTP. When the answer to a
  \<open>POST\<close> is an invoice, it is a 201 for a pending invoice with the requested amount and metadata,
  its link reads back to its address, amount and memo, and a \<open>GET\<close> of its id with the same
  credentials then answers exactly the same invoice.
\<close>

theorem created_invoice_is_served:
  assumes "svc_st (api_svc a) = memory_store" and "mem_inv (db (site sv))"
    and "nul_free (svc_defaultPayTo (api_svc a))" and "CHR ''?'' \<notin> set (svc_defaultPayTo (api_svc a))"
    and "fresh_draws (invoices (db (site sv))) (he_create env)"
    and "req_method r = ''POST''" and "req_path r = [''v1'', ''invoices'']"
    and "decodeJSON (req_body r) = Some inp"
    and "serve qr a r env sv = (Written resp, sv')" and "resp_body resp = InvoiceJson v"
  shows "resp_status resp = 201 \<and> v_status v = StatusPending \<and> v_amountNano v = in_amountNano inp
    \<and> v_metadata v = in_metadata inp
    \<and> read_link (v_deeplink v) = Some (v_payTo v, in_amountNano inp, v_memo v)
    \<and> (\<exists>h. fst (serve qr a (r\<lparr>req_method := ''GET'', req_path := [''v1'', ''invoices'', v_id v]\<rparr>) env2 sv')
        = Written \<lparr>resp_status = 200, resp_headers = h, resp_body = InvoiceJson v\<rparr>)"
proof -
  from assms(6,7,9,10) obtain inp' i s' where c: "decodeJSON (req_body r) = Some inp'" "authorized a r"
    "resp_status resp = 201"
    "ServiceCreate (api_svc a) (he_create env) (in_payTo inp') (in_amountNano inp') (seconds (in_ttlSeconds inp'))
      (in_metadata inp') (db (site sv)) = (Returned i, s')"
    and v: "v = invoiceView i" and sv': "site sv' = (site sv)\<lparr>db := s'\<rparr>" by (rule post_created)
  have inp: "inp' = inp" using c(1) assms(8) by simp
  have amount: "in_int64 (in_amountNano inp)" using decodeJSON_readable [OF assms(8)] by (simp add: readable_def)
  note law = created_invoice [OF assms(2,1,3,5) c(4) [unfolded inp]]
  have "CHR ''?'' \<notin> set (PayTo i)"
    using law assms(4) NormalizeOnNetwork_no_query by (auto split: if_splits)
  then have link: "read_link (v_deeplink v) = Some (v_payTo v, in_amountNano inp, v_memo v)"
    using read_link_Build [of "PayTo i" "in_amountNano inp" "Memo i"] amount law by (simp add: v invoiceView_def)
  let ?g = "r\<lparr>req_method := ''GET'', req_path := [''v1'', ''invoices'', v_id v]\<rparr>"
  have "v_id v \<noteq> []" using created_id [OF assms(2,1,3,5) c(4)] by (simp add: v invoiceView_def)
  moreover have "authorized a ?g = authorized a r" by (simp add: authorized_def)
  then have "authorized a ?g" using c(2) by blast
  moreover have "GetInvoice (svc_st (api_svc a)) (he_read env2) (db (site sv')) (v_id v) = Some i"
    using law by (simp add: assms(1) sv' v invoiceView_def mem_get_def)
  ultimately have "\<exists>h. fst (serve qr a ?g env2 sv')
      = Written \<lparr>resp_status = 200, resp_headers = h, resp_body = InvoiceJson v\<rparr>"
    using get_served [of ?g "v_id v" a env2 sv' i qr] v by simp
  then show ?thesis using law link c(3) by (simp add: v invoiceView_def)
qed

section \<open>Work is limited\<close>















section \<open>A client of a small server\<close>

definition small_api :: "string \<Rightarrow> (memory, mem_world, unit, mock) api" where
  "small_api key = \<lparr>api_cfg = Load ((\<lambda>_. [])(''TON_CREATE_API_KEY'' := key)), api_svc = sample_service\<rparr>"

definition small_system :: "(memory, mock) system" where
  "small_system = \<lparr>db = empty_memory, verifier_state = NewMockVerifier 1, fired = []\<rparr>"

definition small_input :: "int \<Rightarrow> create_in" where
  "small_input ttl = \<lparr>in_payTo = [], in_amountNano = 7, in_ttlSeconds = ttl, in_metadata = []\<rparr>"

definition post_request :: "int \<Rightarrow> request" where
  "post_request ttl = \<lparr>req_method = ''POST'', req_path = [''v1'', ''invoices''], req_header = (\<lambda>_. []),
     remote_addr = ''10.0.0.1:999'', req_size = [], req_body = create_body (small_input ttl)\<rparr>"

definition small_env :: "(mem_world, unit) http_env" where
  "small_env = (let w = world IoOk [] in \<lparr>he_clock = 5, he_id = [1], he_create = sample_env,
     he_check = \<lparr>get_world = w, outside = (), reread_world = w, change_world = w, final_world = w,
       settle_time = 0, check_time = 0\<rparr>, he_read = w\<rparr>)"

abbreviation no_qr :: "string \<Rightarrow> int \<Rightarrow> unit option" where
  "no_qr \<equiv> \<lambda>_ _. None"

lemma small_body: "ttl \<in> {0, 18446744074} \<Longrightarrow> decodeJSON (create_body (small_input ttl)) = Some (small_input ttl)"
proof -
  assume ttl: "ttl \<in> {0, 18446744074}"
  have "int (length (create_body (small_input 0))) \<le> max_body"
    and "int (length (create_body (small_input 18446744074))) \<le> max_body"
    by (simp_all add: small_input_def create_body_def compact_def create_json_def jstring_def quote_def
        string_map_json_def FormatInt_def show_nat.simps go_defs)
  moreover have "readable (small_input ttl)"
    using ttl by (auto simp: readable_def small_input_def in_int64_def go_defs canonical_def valid_map_def)
  ultimately show ?thesis
    using ttl decode_create_body [of "small_input ttl" "[]"] by (auto simp: More_def skip_ws_def)
qed

lemma small_facts:
  "svc_st (api_svc (small_api k)) = memory_store" "mem_inv (db (site (NewServer a small_system)))"
  "nul_free (svc_defaultPayTo (api_svc (small_api k)))" "CHR ''?'' \<notin> set (svc_defaultPayTo (api_svc (small_api k)))"
  "fresh_draws (invoices (db (site (NewServer a small_system)))) (he_create small_env)"
  "req_method (post_request ttl) = ''POST''" "req_path (post_request ttl) = [''v1'', ''invoices'']"
  "ttl \<in> {0, 18446744074} \<Longrightarrow> decodeJSON (req_body (post_request ttl)) = Some (small_input ttl)"
  "CreateAPIKey (api_cfg (small_api k)) = k"
  using empty_memory_inv String_no_query String_nul_free small_body
  by (simp_all add: small_api_def NewServer_def small_system_def fresh_draws_def empty_memory_def post_request_def Load_def)

lemma small_server: "NewServer (small_api k) sys = \<lparr>site = sys, limiter = newRateLimiter 5 40 False, access_log = []\<rparr>"
  by (simp add: NewServer_def small_api_def Load_def boolDef_def)

lemma fresh_client: "\<exists>rl. allow t k (newRateLimiter 5 40 tp) = (True, rl)"
  by (simp add: allow_def sweep_def newRateLimiter_def Let_def)

lemma small_created:
  assumes "ttl \<in> {0, 18446744074}"
  obtains resp :: "unit response" and v and sv'
    where "serve no_qr (small_api []) (post_request ttl) small_env (NewServer (small_api []) small_system) = (Written resp, sv')"
    and "resp_body resp = InvoiceJson v"
proof -
  obtain i s' where c: "ServiceCreate sample_service sample_env [] 7 (seconds ttl) [] empty_memory = (Returned i, s')"
    using sample_create by blast
  let ?r = "post_request ttl" and ?sv = "\<lparr>site = small_system, limiter = newRateLimiter 5 40 False, access_log = []\<rparr>"
  have au: "authorized (small_api []) ?r" by (simp add: authorized_def small_facts)
  have m: "route_of (req_method ?r) (req_path ?r) = Create" by (simp add: small_facts route_of_def)
  have d: "decodeJSON (req_body ?r) = Some (small_input ttl)" using small_facts(8) [OF assms] .
  obtain rl where rl: "allow (he_clock small_env) (clientIP (req_header ?r) (remote_addr ?r) False) (newRateLimiter 5 40 False)
      = (True, rl)" using fresh_client by blast
  have e: "he_create small_env = sample_env" "api_svc (small_api []) = sample_service" "db small_system = empty_memory"
    "trustProxy (newRateLimiter 5 40 False) = False"
    by (simp_all add: small_env_def small_api_def small_system_def newRateLimiter_def Let_def)
  define h where "h = mw_headers (api_cfg (small_api [])) ?r (he_id small_env)"
  have "createInvoice (small_api []) ?r small_env h (?sv\<lparr>limiter := rl\<rparr>)
      = (writeJSON h 201 (InvoiceJson (invoiceView i)) :: unit reply, \<lparr>site = small_system\<lparr>db := s'\<rparr>, limiter = rl, access_log = []\<rparr>)"
    using c by (simp add: createInvoice_def au d small_input_def e Let_def)
  then have "fst (serve no_qr (small_api []) ?r small_env (NewServer (small_api []) small_system))
      = writeJSON h 201 (InvoiceJson (invoiceView i))"
    using m rl by (simp add: serve_unfold serve_mux_def limiter_wrap_def small_server small_facts writeJSON_def e h_def [symmetric] Let_def)
  then show thesis using that unfolding writeJSON_def by (metis fst_conv response.select_convs(3) surj_pair)
qed

theorem created_invoice_is_served_witness:
  "\<exists>(resp :: unit response) v sv'. serve no_qr (small_api []) (post_request 0) small_env (NewServer (small_api []) small_system)
       = (Written resp, sv')
     \<and> resp_status resp = 201 \<and> v_amountNano v = 7 \<and> read_link (v_deeplink v) = Some (v_payTo v, 7, v_memo v)
     \<and> (\<exists>h. fst (serve no_qr (small_api []) ((post_request 0)\<lparr>req_method := ''GET'', req_path := [''v1'', ''invoices'', v_id v]\<rparr>)
          small_env sv') = Written \<lparr>resp_status = 200, resp_headers = h, resp_body = InvoiceJson v\<rparr>)"
proof -
  obtain resp :: "unit response" and v sv' where s: "serve no_qr (small_api []) (post_request 0) small_env
      (NewServer (small_api []) small_system) = (Written resp, sv')" "resp_body resp = InvoiceJson v"
    by (rule small_created [of 0]) simp_all
  have "decodeJSON (req_body (post_request 0)) = Some (small_input 0)" by (simp add: small_facts)
  from created_invoice_is_served [OF small_facts(1-7) this s, of small_env] s(1) show ?thesis by (auto simp: small_input_def)
qed

theorem nothing_without_the_key_witness:
  "\<exists>(resp :: unit response) sv'. serve no_qr (small_api ''k'') (post_request 0) small_env (NewServer (small_api ''k'') small_system)
       = (Written resp, sv') \<and> site sv' = small_system \<and> (\<forall>v. resp_body resp \<noteq> InvoiceJson v)"
proof -
  obtain resp :: "unit response" and sv' where s: "serve no_qr (small_api ''k'') (post_request 0) small_env
      (NewServer (small_api ''k'') small_system) = (Written resp, sv')"
    using serve_headers [of "''Vary''" no_qr "small_api ''k''" "post_request 0" small_env
        "NewServer (small_api ''k'') small_system"] by auto
  have "req_header (post_request 0) k = []" for k by (simp add: post_request_def)
  with nothing_without_the_key [OF small_facts(9) _ _ _ s] s show ?thesis by (simp add: NewServer_def)
qed


section \<open>Lifetimes that wrap\<close>

text \<open>
  The requested lifetime is computed in 64 bits. A creation request for 18446744074 seconds,
  584 years, is answered with an invoice that lives for 290448384 nanoseconds, less than a third
  of a second, where the maximum allows it; and a request for 9223372037 seconds, 292 years, gets
  the default lifetime instead of the maximum.
\<close>

theorem long_ttl_wraps:
  assumes "svc_st (api_svc a) = memory_store" and "mem_inv (db (site sv))"
    and "nul_free (svc_defaultPayTo (api_svc a))" and "fresh_draws (invoices (db (site sv))) (he_create env)"
    and "req_method r = ''POST''" and "req_path r = [''v1'', ''invoices'']"
    and "decodeJSON (req_body r) = Some inp" and "in_ttlSeconds inp = ttl"
    and "serve qr a r env sv = (Written resp, sv')" and "resp_body resp = InvoiceJson v"
    and "290448384 \<le> svc_maxTTL (api_svc a)" and "svc_defaultTTL (api_svc a) \<le> svc_maxTTL (api_svc a)"
  shows "(ttl = 18446744074 \<longrightarrow> v_expiresAt v - v_createdAt v = 290448384)
    \<and> (ttl = 9223372037 \<longrightarrow> v_expiresAt v - v_createdAt v = svc_defaultTTL (api_svc a))"
proof -
  from assms(5,6,9,10) obtain inp' i s' where c: "decodeJSON (req_body r) = Some inp'"
    "ServiceCreate (api_svc a) (he_create env) (in_payTo inp') (in_amountNano inp') (seconds (in_ttlSeconds inp'))
      (in_metadata inp') (db (site sv)) = (Returned i, s')" "v = invoiceView i" by (rule post_created)
  have "inp' = inp" using c(1) assms(7) by simp
  then have "v_expiresAt v - v_createdAt v = effectiveTTL (api_svc a) (seconds ttl)"
    using created_invoice [OF assms(2,1,3,4) c(2)] assms(8) c(3) by (simp add: invoiceView_def)
  moreover have "seconds 18446744074 = 290448384" "seconds 9223372037 < 0" by code_simp+
  ultimately show ?thesis using assms(11,12) by (auto simp: effectiveTTL_def Let_def)
qed

theorem long_ttl_wraps_witness:
  "\<exists>(resp :: unit response) v sv'. serve no_qr (small_api []) (post_request 18446744074) small_env
       (NewServer (small_api []) small_system) = (Written resp, sv')
     \<and> resp_body resp = InvoiceJson v \<and> v_expiresAt v - v_createdAt v = 290448384"
proof -
  obtain resp :: "unit response" and v sv' where s: "serve no_qr (small_api []) (post_request 18446744074) small_env
      (NewServer (small_api []) small_system) = (Written resp, sv')" "resp_body resp = InvoiceJson v"
    by (rule small_created [of 18446744074]) simp_all
  have d: "decodeJSON (req_body (post_request 18446744074)) = Some (small_input 18446744074)" by (simp add: small_facts)
  have t: "290448384 \<le> svc_maxTTL (api_svc (small_api []))"
    "svc_defaultTTL (api_svc (small_api [])) \<le> svc_maxTTL (api_svc (small_api []))"
    by (simp_all add: small_api_def go_defs)
  from long_ttl_wraps [OF small_facts(1,2,3,5,6,7) d _ s t] s show ?thesis by (auto simp: small_input_def)
qed

end
