(* ===== verification/Responses.thy ===== *)
theory Responses
  imports Httpx
begin

text \<open>
  The bytes of a response (internal/httpx/respond.go and the maps that the handlers of
  internal/httpx/handlers.go and server.go give to it): \<open>json.Encoder.Encode\<close> with the keys of a map in
  order and a line break at the end.  An error of the encoder is ignored and leaves an empty body.
  The wording of service errors and the bytes of a QR image are parameters.  The lemmas: a client that parses
  the text finds under each name what the handler put there.
\<close>

section \<open>Encoding\<close>

definition any_map_json :: "(string \<times> json) list \<Rightarrow> json" where
  "any_map_json m = JObj (map (\<lambda>kv. (quote (fst kv), snd kv)) (sort_key fst m))"

definition Encode :: "json option \<Rightarrow> string" where
  "Encode j = (case j of None \<Rightarrow> [] | Some v \<Rightarrow> compact v @ [CHR 0x0A])"

definition view_members :: "(gtime \<Rightarrow> int) \<Rightarrow> invoice_view \<Rightarrow> (string \<times> json) list option" where
  "view_members zone v =
     do { created \<leftarrow> time_json zone (v_createdAt v);
          paid \<leftarrow> time_json zone (v_paidAt v);
          expires \<leftarrow> time_json zone (v_expiresAt v);
          Some [(''id'', jstring (v_id v)), (''status'', jstring (v_status v)), (''payTo'', jstring (v_payTo v)),
            (''memo'', jstring (v_memo v)), (''amountNano'', JNum (FormatInt (v_amountNano v))),
            (''amount'', jstring (v_amount v)), (''currency'', jstring (v_currency v)),
            (''txHash'', jstring (v_txHash v)), (''metadata'', string_map_json (v_metadata v)),
            (''deeplink'', jstring (v_deeplink v)), (''qr'', jstring (v_qr v)),
            (''createdAt'', created), (''paidAt'', paid), (''expiresAt'', expires)] }"

definition error_json :: "string \<Rightarrow> json" where
  "error_json msg = string_map_json [(''error'', msg)]"

definition health_members :: "string \<Rightarrow> (string \<times> json) list" where
  "health_members env = [(''ok'', JBool True), (''service'', jstring ''tonpayment''), (''env'', jstring env)]"

definition body_text ::
  "(gtime \<Rightarrow> int) \<Rightarrow> (service_error \<Rightarrow> string) \<Rightarrow> ('png \<Rightarrow> string) \<Rightarrow> 'png payload \<Rightarrow> string" where
  "body_text zone wording picture p =
     (case p of
        NoBody \<Rightarrow> []
      | ErrorJson msg \<Rightarrow> Encode (Some (error_json msg))
      | ServiceErrorJson e \<Rightarrow> Encode (Some (error_json (wording e)))
      | InvoiceJson v \<Rightarrow> Encode (map_option any_map_json (view_members zone v))
      | HealthJson env \<Rightarrow> Encode (Some (any_map_json (health_members env)))
      | PngBytes png \<Rightarrow> picture png
      | PlainText msg \<Rightarrow> msg @ [CHR 0x0A])"

section \<open>What a client finds\<close>

definition member :: "string \<Rightarrow> string \<Rightarrow> json option" where
  "member t k =
     (case parse_document t of
        Some (JObj ms) \<Rightarrow> map_option snd (find (\<lambda>kv. unquote (fst kv) = Some k) ms)
      | _ \<Rightarrow> None)"

lemma parse_encoded:
  assumes "wf_json j" and "nesting j \<le> max_nesting"
  shows "parse_document (Encode (Some j)) = Some j"
proof -
  have "delim [CHR 0x0A]" by (simp add: delim_def is_digit_def digit_val_def code_def)
  then have "next_value (compact j @ [CHR 0x0A]) = Some (j, [CHR 0x0A])"
    unfolding compact_def using assms by (intro next_value_printed layout_compact delim_ends) simp_all
  then show ?thesis by (simp add: Encode_def parse_document_def skip_ws_def is_ws_def)
qed

lemma map_of_sorted:
  assumes "distinct (map fst m)"
  shows "map_of (sort_key fst m) = map_of m"
proof -
  have "mset (map fst (sort_key fst m)) = mset (map fst m)" by simp
  then have "distinct (map fst (sort_key fst m))" using assms mset_eq_imp_distinct_iff by blast
  then show ?thesis using assms by (intro map_of_inject_set [THEN iffD2]) simp_all
qed

lemma find_quoted:
  "list_all (\<lambda>kv. valid_utf8 (fst kv)) m \<Longrightarrow>
     map_option snd (find (\<lambda>kv. unquote (fst kv) = Some k) (map (\<lambda>kv. (quote (fst kv), snd kv)) m)) = map_of m k"
  by (induction m) (auto simp: unquote_quote ToValidUTF8_valid)

lemma member_encoded:
  assumes "list_all (\<lambda>kv. valid_utf8 (fst kv) \<and> wf_json (snd kv) \<and> nesting (snd kv) \<le> 1) m" and "distinct (map fst m)"
  shows "member (Encode (Some (any_map_json m))) k = map_of m k"
proof -
  have a: "valid_utf8 a \<and> wf_json b \<and> nesting b \<le> 1" if "(a, b) \<in> set (sort_key fst m)" for a b
    using assms(1) that by (auto simp: list_all_iff)
  have "wf_json (any_map_json m)" using a by (auto simp: any_map_json_def literal_quote)
  moreover have "nesting (any_map_json m) \<le> 1 + 1"
    unfolding any_map_json_def using a by (intro nesting_object) auto
  ultimately have "parse_document (Encode (Some (any_map_json m))) = Some (any_map_json m)"
    by (intro parse_encoded) (simp_all add: max_nesting_def)
  moreover have "list_all (\<lambda>kv. valid_utf8 (fst kv)) (sort_key fst m)" using a by (auto simp: list_all_iff)
  ultimately show ?thesis
    using find_quoted [of "sort_key fst m" k] map_of_sorted [OF assms(2)] by (simp add: member_def any_map_json_def)
qed

definition view_names :: "string list" where
  "view_names = [''id'', ''status'', ''payTo'', ''memo'', ''amountNano'', ''amount'', ''currency'', ''txHash'', ''metadata'',
     ''deeplink'', ''qr'', ''createdAt'', ''paidAt'', ''expiresAt'']"

lemma view_names_ok: "distinct view_names" "list_all valid_utf8 view_names"
proof -
  show "distinct view_names" by code_simp
  have "list_all (list_all (\<lambda>c. code c < 0x80)) view_names" by code_simp
  then show "list_all valid_utf8 view_names" by (auto simp: list_all_iff intro!: valid_ascii)
qed

text \<open>Every member of an invoice in a response, and every error text, is found under its name.\<close>

lemma view_member:
  assumes "view_members zone v = Some m"
  shows "member (body_text zone wording picture (InvoiceJson v)) k = map_of m k"
proof -
  from assms obtain c p e where t: "time_json zone (v_createdAt v) = Some c"
    "time_json zone (v_paidAt v) = Some p" "time_json zone (v_expiresAt v) = Some e"
    by (auto simp: view_members_def bind_eq_Some_conv)
  note w = time_json_wf [OF t(1)] time_json_wf [OF t(2)] time_json_wf [OF t(3)]
  from assms t have n: "map fst m = view_names" by (auto simp: view_members_def view_names_def)
  have "list_all (\<lambda>kv. wf_json (snd kv) \<and> nesting (snd kv) \<le> 1) m"
    using assms t w wf_string_map nesting_string_map by (auto simp: view_members_def)
  moreover have "list_all (\<lambda>kv. valid_utf8 (fst kv)) m"
    using view_names_ok(2) unfolding n [symmetric] by (simp add: list_all_iff)
  ultimately have "member (Encode (Some (any_map_json m))) k = map_of m k"
    using view_names_ok(1) n by (intro member_encoded) (auto simp: list_all_iff)
  then show ?thesis using assms by (simp add: body_text_def)
qed

lemma error_member:
  assumes "p = ErrorJson msg \<or> p = ServiceErrorJson er \<and> msg = wording er"
  shows "member (body_text zone wording picture p) ''error'' = Some (jstring msg)"
proof -
  have j: "error_json msg = any_map_json [(''error'', jstring msg)]"
    by (simp add: error_json_def string_map_json_def any_map_json_def)
  have "valid_utf8 ''error''" by (rule valid_ascii) (simp add: code_def)
  then have "member (Encode (Some (error_json msg))) ''error'' = Some (jstring msg)"
    unfolding j by (subst member_encoded) simp_all
  then show ?thesis using assms by (auto simp: body_text_def)
qed

end
