(* ===== verification/Notification.thy ===== *)
theory Notification
  imports Settlement_Stores Delivery
begin

text \<open>
  From settlement to the merchant: the goroutines of \<open>Settlement\<close> and the deliveries of \<open>Delivery\<close>
  as one system.  When a goroutine notifies, its process' sender gets the invoice; a process that
  dies takes its deliveries with it, and its next incarnation starts with none.
\<close>

section \<open>The joint system\<close>

text \<open>A process and which of its incarnations.\<close>

datatype slot = Slot nat nat

record 's site =
  books :: "'s config"
  incarnation :: "nat \<Rightarrow> nat"
  hooks_of :: "slot \<Rightarrow> hooks"

definition slot_of :: "'s site \<Rightarrow> nat \<Rightarrow> slot" where
  "slot_of c p = Slot p (incarnation c p)"

definition site_start :: "'s \<Rightarrow> 's site" where
  "site_start s0 = \<lparr>books = start s0, incarnation = (\<lambda>_. 0), hooks_of = (\<lambda>_. no_hooks)\<rparr>"

definition crash_books :: "(nat \<Rightarrow> nat) \<Rightarrow> nat \<Rightarrow> 's config \<Rightarrow> 's config" where
  "crash_books proc p b = b\<lparr>pc_of := (\<lambda>g. if proc g = p then Idle else pc_of b g),
     held := (\<lambda>(q, k). if q = p then None else held b (q, k))\<rparr>"

inductive site_step ::
  "('s, 'w) Store \<Rightarrow> ('s \<Rightarrow> ledger) \<Rightarrow> (nat \<Rightarrow> nat) \<Rightarrow> (string \<Rightarrow> string \<Rightarrow> byte list) \<Rightarrow> (invoice \<Rightarrow> string option)
    \<Rightarrow> Sender \<Rightarrow> (slot \<Rightarrow> nat \<Rightarrow> nat \<Rightarrow> post_outcome) \<Rightarrow> bool \<Rightarrow> 's site \<Rightarrow> 's site \<Rightarrow> bool"
  for st :: "('s, 'w) Store" and vw proc hmac marshal s rcv where
  works: "move st vw proc True l (books c) b \<Longrightarrow> l \<noteq> Crash \<Longrightarrow> sent_hooks b = sent_hooks (books c) \<Longrightarrow>
    site_step st vw proc hmac marshal s rcv mortal c (c\<lparr>books := b\<rparr>)"
| fires: "move st vw proc True (Handler g) (books c) b \<Longrightarrow> sent_hooks b = sent_hooks (books c) @ [i] \<Longrightarrow>
    a = slot_of c (proc g) \<Longrightarrow>
    site_step st vw proc hmac marshal s rcv mortal c
      (c\<lparr>books := b, hooks_of := (hooks_of c)(a := Fire (Some s) i (hooks_of c a))\<rparr>)"
| sends: "a = slot_of c p \<Longrightarrow> hook_step hmac marshal s (rcv a) (hooks_of c a) h \<Longrightarrow>
    site_step st vw proc hmac marshal s rcv mortal c (c\<lparr>hooks_of := (hooks_of c)(a := h)\<rparr>)"
| dies: "mortal \<Longrightarrow> site_step st vw proc hmac marshal s rcv mortal c
    (c\<lparr>books := crash_books proc p (books c), incarnation := (incarnation c)(p := incarnation c p + 1)\<rparr>)"

section \<open>What was fired\<close>

definition fired_of :: "hooks \<Rightarrow> invoice list" where
  "fired_of h = map for_invoice (jobs h)"

lemma fired_of_simps [simp]:
  "fired_of no_hooks = []" "fired_of (Fire (Some s) i h) = fired_of h @ [i]"
  "length (fired_of h) = length (jobs h)" "k < length (jobs h) \<Longrightarrow> fired_of h ! k = for_invoice (jobs h ! k)"
  by (simp_all add: fired_of_def no_hooks_def Fire_def)

lemma fired_of_step:
  assumes "hook_step hmac marshal s outs h h'"
  shows "fired_of h' = fired_of h"
proof -
  from assms obtain k where k: "k < length (jobs h)" and r: "run_job hmac marshal s outs k h = Some h'"
    by (auto simp: hook_step_def)
  have same: "map for_invoice ((jobs h)[k := (jobs h ! k)\<lparr>stage := st\<rparr>]) = map for_invoice (jobs h)" for st
    using k by (intro nth_equalityI) (simp_all add: nth_list_update)
  from r show ?thesis unfolding fired_of_def by (cases rule: run_job_cases) (simp_all add: same del: map_update)
qed

text \<open>
  The goroutines of all slots stand for different invoices, and together for exactly those that
  were handed over.
\<close>

definition jobs_inv :: "invoice list \<Rightarrow> (slot \<Rightarrow> hooks) \<Rightarrow> bool" where
  "jobs_inv fs H \<longleftrightarrow>
     (\<forall>a. set (fired_of (H a)) \<subseteq> set fs) \<and> set fs \<subseteq> (\<Union>a. set (fired_of (H a)))
     \<and> (\<forall>a k b l. k < length (fired_of (H a)) \<longrightarrow> l < length (fired_of (H b)) \<longrightarrow>
          ID (fired_of (H a) ! k) = ID (fired_of (H b) ! l) \<longrightarrow> a = b \<and> k = l)"

lemma jobs_invD:
  assumes "jobs_inv fs H"
  shows "set (fired_of (H a)) \<subseteq> set fs" and "set fs \<subseteq> (\<Union>a. set (fired_of (H a)))"
    and "k < length (fired_of (H a)) \<Longrightarrow> l < length (fired_of (H b)) \<Longrightarrow>
      ID (fired_of (H a) ! k) = ID (fired_of (H b) ! l) \<Longrightarrow> a = b \<and> k = l"
  using assms unfolding jobs_inv_def by blast+

lemma jobs_inv_fire:
  assumes "jobs_inv fs H" and "distinct (map ID (fs @ [i]))"
  shows "jobs_inv (fs @ [i]) (H(a := Fire (Some s) i (H a)))"
proof -
  let ?H = "H(a := Fire (Some s) i (H a))"
  have new: "ID (fired_of (H b) ! k) \<noteq> ID i" if "k < length (fired_of (H b))" for b k
  proof -
    have "fired_of (H b) ! k \<in> set fs" using assms(1) nth_mem [OF that] unfolding jobs_inv_def by blast
    moreover have "ID i \<notin> ID ` set fs" using assms(2) by simp
    ultimately show ?thesis by (metis imageI)
  qed
  have old: "b = c \<and> k = l" if "k < length (fired_of (H b))" "l < length (fired_of (H c))"
    "ID (fired_of (H b) ! k) = ID (fired_of (H c) ! l)" for b k c l
    using assms(1) that unfolding jobs_inv_def by blast
  have "b = c \<and> k = l" if k: "k < length (fired_of (?H b))" and l: "l < length (fired_of (?H c))"
    and eq: "ID (fired_of (?H b) ! k) = ID (fired_of (?H c) ! l)" for b k c l
  proof -
    have pos: "(k < length (fired_of (H b)) \<and> fired_of (?H b) ! k = fired_of (H b) ! k)
        \<or> (b = a \<and> k = length (fired_of (H a)) \<and> fired_of (?H b) ! k = i)"
      if "k < length (fired_of (?H b))" for b k
      using that by (auto simp: nth_append less_Suc_eq split: if_splits simp del: fired_of_simps(3,4))
    from pos [OF k] pos [OF l] eq old new show ?thesis by metis
  qed
  moreover have "set (fired_of (?H b)) \<subseteq> set (fs @ [i])" for b
    using jobs_invD(1) [OF assms(1)] by auto
  moreover have "set (fs @ [i]) \<subseteq> (\<Union>b. set (fired_of (?H b)))"
  proof
    fix f assume "f \<in> set (fs @ [i])"
    then consider "f = i" | b where "f \<in> set (fired_of (H b))" using jobs_invD(2) [OF assms(1)] by auto
    then show "f \<in> (\<Union>b. set (fired_of (?H b)))"
    proof cases
      case 1
      then have "f \<in> set (fired_of (?H a))" by simp
      then show ?thesis by blast
    next
      case (2 b)
      then have "f \<in> set (fired_of (?H b))" by auto
      then show ?thesis by blast
    qed
  qed
  ultimately show ?thesis unfolding jobs_inv_def by blast
qed

section \<open>The invariant\<close>

definition site_inv ::
  "(string \<Rightarrow> string \<Rightarrow> byte list) \<Rightarrow> (invoice \<Rightarrow> string option) \<Rightarrow> Sender
    \<Rightarrow> (slot \<Rightarrow> nat \<Rightarrow> nat \<Rightarrow> post_outcome) \<Rightarrow> 's site \<Rightarrow> bool" where
  "site_inv hmac marshal s rcv c \<longleftrightarrow> jobs_inv (sent_hooks (books c)) (hooks_of c)
     \<and> (\<forall>a. hooks_reach hmac marshal s (rcv a) (hooks_of c a))"

lemma site_inv_start: "site_inv hmac marshal s rcv (site_start s0)"
  by (simp add: site_inv_def site_start_def start_def jobs_inv_def hooks_reach.none_yet)

lemma jobs_inv_cong: "(\<And>a. fired_of (H' a) = fired_of (H a)) \<Longrightarrow> jobs_inv fs H' = jobs_inv fs H"
  by (simp add: jobs_inv_def)

lemma site_inv_step:
  assumes "site_inv hmac marshal s rcv c" and "site_step st vw proc hmac marshal s rcv mortal c c'"
    and "distinct (map ID (sent_hooks (books c')))"
  shows "site_inv hmac marshal s rcv c'"
  using assms(2)
proof cases
  case (works l b)
  then show ?thesis using assms(1) by (simp add: site_inv_def)
next
  case (fires g b i a)
  have "distinct (map ID (sent_hooks (books c) @ [i]))" using assms(3) fires by simp
  with assms(1) have "jobs_inv (sent_hooks (books c) @ [i]) ((hooks_of c)(a := Fire (Some s) i (hooks_of c a)))"
    by (intro jobs_inv_fire) (simp add: site_inv_def)
  moreover have "hooks_reach hmac marshal s (rcv b) (((hooks_of c)(a := Fire (Some s) i (hooks_of c a))) b)" for b
    using assms(1) hooks_reach.fired unfolding site_inv_def by simp
  ultimately show ?thesis using fires by (simp add: site_inv_def)
next
  case (sends a p h)
  have r: "hooks_reach hmac marshal s (rcv b) (hooks_of c b)" for b using assms(1) by (simp add: site_inv_def)
  have "hooks_reach hmac marshal s (rcv a) h" by (rule hooks_reach.moved [OF r sends(3)])
  with r have "hooks_reach hmac marshal s (rcv b) (((hooks_of c)(a := h)) b)" for b by simp
  moreover note sends
  moreover have "jobs_inv (sent_hooks (books c)) ((hooks_of c)(a := h)) = jobs_inv (sent_hooks (books c)) (hooks_of c)"
    using sends by (intro jobs_inv_cong) (simp add: fired_of_step)
  ultimately show ?thesis using assms(1) by (simp add: site_inv_def)
next
  case (dies p)
  then show ?thesis using assms(1) by (simp add: site_inv_def crash_books_def)
qed

text \<open>Seen from the settlement, the joint system is the settlement.\<close>

lemma site_books:
  assumes "site_step st vw proc hmac marshal s rcv mortal c c'"
  shows "(\<exists>l. l \<noteq> Crash \<and> move st vw proc True l (books c) (books c')) \<or> books c' = books c
    \<or> (mortal \<and> move st vw proc True Crash (books c) (books c'))"
  using assms
proof cases
  case (dies p)
  then show ?thesis using move.crash [of st vw proc True "books c" p] by (auto simp: crash_books_def)
qed auto

lemma site_steps_books:
  assumes "(site_step st vw proc hmac marshal s rcv mortal)\<^sup>*\<^sup>* c c'"
  shows "(step st vw proc True)\<^sup>*\<^sup>* (books c) (books c')"
  using assms
proof (induction rule: rtranclp_induct)
  case (step d e)
  from site_books [OF step.hyps(2)] have "books e = books d \<or> step st vw proc True (books d) (books e)"
    by (auto simp: step_def)
  with step.IH show ?case by (metis rtranclp.rtrancl_into_rtrancl)
qed simp

lemma site_start_books [simp]: "books (site_start s0) = start s0"
  by (simp add: site_start_def)

section \<open>What the merchant gets\<close>

lemma pg_site_inv:
  assumes "pg_inv s0" and "(site_step postgres_store table proc hmac marshal s rcv mortal)\<^sup>*\<^sup>* (site_start s0) c"
  shows "site_inv hmac marshal s rcv c \<and> hook_inv micro table (books c)"
  using assms(2)
proof (induction rule: rtranclp_induct)
  case base
  show ?case using site_inv_start pg.steps_invariant [OF rtranclp.rtrancl_refl assms(1)] by auto
next
  case (step d e)
  have "hook_inv micro table (books e)"
    using pg.steps_invariant [OF site_steps_books [OF rtranclp.rtrancl_into_rtrancl [OF step.hyps], simplified] assms(1)]
    by blast
  then show ?case using site_inv_step [OF _ step.hyps(2)] step.IH hook_invD(2) by blast
qed

lemma mem_site_inv:
  assumes "mem_inv s0" and "(site_step memory_store invoices proc hmac marshal s rcv False)\<^sup>*\<^sup>* (site_start s0) c"
  shows "site_inv hmac marshal s rcv c \<and> accounted (invoices s0) (books c)"
proof -
  have alive: "(alive_step proc)\<^sup>*\<^sup>* (start s0) (books c)"
    using assms(2)
  proof (induction rule: rtranclp_induct)
    case (step d e)
    from site_books [OF step.hyps(2)] have "books e = books d \<or> alive_step proc (books d) (books e)"
      by (auto simp: alive_step_def)
    with step.IH show ?case by (metis rtranclp.rtrancl_into_rtrancl)
  qed simp
  have "site_inv hmac marshal s rcv c"
    using assms(2)
  proof (induction rule: rtranclp_induct)
    case (step d e)
    from mem.steps_invariant [OF site_steps_books [OF rtranclp.rtrancl_into_rtrancl [OF step.hyps], simplified] assms(1)]
    show ?case using site_inv_step [OF step.IH step.hyps(2)] hook_invD(2) by blast
  qed (rule site_inv_start)
  with paid_is_accounted [OF assms(1) alive] show ?thesis by blast
qed

lemma site_log:
  assumes "site_inv hmac marshal s rcv c" and "(k, e) \<in> set (hook_log (hooks_of c a))"
  shows "k < length (jobs (hooks_of c a))
    \<and> e \<in> set (fst (deliver hmac marshal s (rcv a k) (for_invoice (jobs (hooks_of c a) ! k))))"
  using reach_log [of hmac marshal s "rcv a" "hooks_of c a", OF _ assms(2)] assms(1) by (simp add: site_inv_def)

text \<open>
  C2: The merchant hears of an invoice once, and the truth. Over any interleaving of checks,
  creations, database faults, deliveries and process deaths with restarts, no invoice ever has two
  deliveries, in one process or in several; each delivery makes at most five requests, or as many
  as the sender allows; and every request body that leaves is the encoding of an invoice that the
  database holds as paid by that very transaction, sent to the configured URL.
\<close>

theorem merchant_hears_the_truth_once:
  assumes "pg_inv s0" and "(site_step postgres_store table proc hmac marshal s rcv True)\<^sup>*\<^sup>* (site_start s0) c"
  shows "(\<forall>a k b l. k < length (jobs (hooks_of c a)) \<longrightarrow> l < length (jobs (hooks_of c b)) \<longrightarrow>
        ID (for_invoice (jobs (hooks_of c a) ! k)) = ID (for_invoice (jobs (hooks_of c b) ! l)) \<longrightarrow> a = b \<and> k = l)
    \<and> (\<forall>a k. k < length (jobs (hooks_of c a)) \<longrightarrow> sent (events_of k (hook_log (hooks_of c a))) \<le> retries s)
    \<and> (\<forall>a k u hs body. (k, Post u hs body) \<in> set (hook_log (hooks_of c a)) \<longrightarrow>
        (\<exists>i tx t. marshal (settled i tx t) = Some body \<and> u = hook_url s
          \<and> table (shared (books c)) (ID i) = Some (settled i tx (micro t))))"
proof -
  from pg_site_inv [OF assms] have si: "site_inv hmac marshal s rcv c"
    and ji: "jobs_inv (sent_hooks (books c)) (hooks_of c)" and hi: "hook_inv micro table (books c)"
    by (auto simp: site_inv_def)
  have "a = b \<and> k = l" if "k < length (jobs (hooks_of c a))" "l < length (jobs (hooks_of c b))"
    "ID (for_invoice (jobs (hooks_of c a) ! k)) = ID (for_invoice (jobs (hooks_of c b) ! l))" for a k b l
    using jobs_invD(3) [OF ji, of k a l b] that by simp
  moreover have "sent (events_of k (hook_log (hooks_of c a))) \<le> retries s"
    if "k < length (jobs (hooks_of c a))" for a k
    using reach_sent [of hmac marshal s "rcv a" "hooks_of c a" k] si that by (simp add: site_inv_def)
  moreover have "\<exists>i tx t. marshal (settled i tx t) = Some body \<and> u = hook_url s
      \<and> table (shared (books c)) (ID i) = Some (settled i tx (micro t))"
    if "(k, Post u hs body) \<in> set (hook_log (hooks_of c a))" for a k u hs body
  proof -
    let ?f = "for_invoice (jobs (hooks_of c a) ! k)"
    from site_log [OF si that] have k: "k < length (jobs (hooks_of c a))"
      and p: "Post u hs body \<in> set (fst (deliver hmac marshal s (rcv a k) ?f))" by blast+
    have "?f \<in> set (sent_hooks (books c))"
      using jobs_invD(1) [OF ji, of a] nth_mem [of k "fired_of (hooks_of c a)"] k by auto
    from hook_invD(1) [OF hi this] obtain i tx t where "?f = settled i tx t"
      "table (shared (books c)) (ID i) = Some (settled i tx (micro t))"
      by (auto simp: announced_def)
    then show ?thesis using deliver_posts [OF p] by metis
  qed
  ultimately show ?thesis by blast
qed

lemma paid_delivery:
  assumes "mem_inv s0" and "(site_step memory_store invoices proc hmac marshal s rcv False)\<^sup>*\<^sup>* (site_start s0) c"
    and "invoices (shared (books c)) k = Some j" and "Status j = StatusPaid"
    and "\<nexists>j0. invoices s0 k = Some j0 \<and> Status j0 = StatusPaid"
    and "\<nexists>g i. notifying (pc_of (books c) g) = Some i \<and> ID i = k"
    and "\<And>a. Wait (Some s) (hooks_of c a)"
  obtains a n d where "n < length (jobs (hooks_of c a))" and "for_invoice (jobs (hooks_of c a) ! n) = j"
    and "deliver hmac marshal s (rcv a n) j = (events_of n (hook_log (hooks_of c a)), d)"
proof -
  from mem_site_inv [OF assms(1,2)] have si: "site_inv hmac marshal s rcv c"
    and acc: "accounted (invoices s0) (books c)" by auto
  have "k \<in> ID ` set (sent_hooks (books c))" using acc assms(3-6) unfolding accounted_def by blast
  then obtain f where f: "f \<in> set (sent_hooks (books c))" "ID f = k" by blast
  have "hook_inv (\<lambda>t. t) invoices (books c)"
    using mem.steps_invariant [OF site_steps_books [OF assms(2), simplified] assms(1)] by blast
  from hook_invD(1) [OF this f(1)] have j: "f = j" using f(2) assms(3) by (auto simp: announced_def)
  have "jobs_inv (sent_hooks (books c)) (hooks_of c)" using si by (simp add: site_inv_def)
  from jobs_invD(2) [OF this] f(1) obtain a where "f \<in> set (fired_of (hooks_of c a))" by blast
  then obtain n where n: "n < length (jobs (hooks_of c a))" "for_invoice (jobs (hooks_of c a) ! n) = f"
    by (auto simp: in_set_conv_nth)
  have "hooks_reach hmac marshal s (rcv a) (hooks_of c a)" using si by (simp add: site_inv_def)
  from nothing_left [OF this assms(7) n(1)] show thesis using n j that by blast
qed

text \<open>
  Every payment reaches the webhook in full. With the in-memory store and no process
  dying, once the goroutine that settled an invoice has called the webhook and the deliveries
  have been waited for, the invoice as the store now holds it has had its whole delivery: exactly
  the requests and pauses that the delivery of that invoice prescribes for the answers received. A
  failing disk changes nothing in this.
\<close>

theorem paid_invoices_are_delivered:
  assumes "mem_inv s0" and "(site_step memory_store invoices proc hmac marshal s rcv False)\<^sup>*\<^sup>* (site_start s0) c"
    and "invoices (shared (books c)) k = Some j" and "Status j = StatusPaid"
    and "\<nexists>j0. invoices s0 k = Some j0 \<and> Status j0 = StatusPaid"
    and "\<nexists>g i. notifying (pc_of (books c) g) = Some i \<and> ID i = k"
    and "\<And>a. Wait (Some s) (hooks_of c a)"
  shows "\<exists>a n d. n < length (jobs (hooks_of c a)) \<and> for_invoice (jobs (hooks_of c a) ! n) = j
    \<and> deliver hmac marshal s (rcv a n) j = (events_of n (hook_log (hooks_of c a)), d)"
  by (rule paid_delivery [OF assms]) blast

section \<open>Every settlement run is part of a joint run\<close>

lemma move_hooks:
  assumes "move st vw proc hook l b b'"
  shows "sent_hooks b' = sent_hooks b \<or> (\<exists>g i. l = Handler g \<and> sent_hooks b' = sent_hooks b @ [i])"
  using assms by cases auto

lemma lift_alive:
  assumes "(\<lambda>b b'. \<exists>l. l \<noteq> Crash \<and> move st vw proc True l b b')\<^sup>*\<^sup>* (books c) b"
  shows "\<exists>c'. (site_step st vw proc hmac marshal s rcv mortal)\<^sup>*\<^sup>* c c' \<and> books c' = b
    \<and> incarnation c' = incarnation c
    \<and> (\<forall>a. hooks_of c' a \<noteq> hooks_of c a \<longrightarrow> a \<in> range (slot_of c))"
  using assms
proof (induction rule: rtranclp_induct)
  case base
  show ?case by (intro exI [of _ c]) blast
next
  case (step b b')
  let ?R = "site_step st vw proc hmac marshal s rcv mortal"
  from step.IH obtain c' where c': "?R\<^sup>*\<^sup>* c c'" "books c' = b" "incarnation c' = incarnation c"
    "\<forall>a. hooks_of c' a \<noteq> hooks_of c a \<longrightarrow> a \<in> range (slot_of c)" by blast
  from step.hyps(2) obtain l where l: "l \<noteq> Crash" "move st vw proc True l (books c') b'" using c'(2) by auto
  from move_hooks [OF l(2)] show ?case
  proof
    assume "sent_hooks b' = sent_hooks (books c')"
    from rtranclp.rtrancl_into_rtrancl [OF c'(1) site_step.works [OF l(2,1) this]]
    show ?thesis using c'(3,4) by (intro exI conjI) (assumption | simp)+
  next
    assume "\<exists>g i. l = Handler g \<and> sent_hooks b' = sent_hooks (books c') @ [i]"
    then obtain g i where g: "l = Handler g" "sent_hooks b' = sent_hooks (books c') @ [i]" by blast
    have here: "slot_of c' p = slot_of c p" for p by (simp add: slot_of_def c'(3))
    from rtranclp.rtrancl_into_rtrancl [OF c'(1) site_step.fires [OF l(2) [unfolded g(1)] g(2) refl]]
    show ?thesis using c'(3,4) by (intro exI conjI) (assumption | simp add: here)+
  qed
qed

lemma lift_sends:
  assumes "(hook_step hmac marshal s (rcv (slot_of c p)))\<^sup>*\<^sup>* (hooks_of c (slot_of c p)) h"
  shows "(site_step st vw proc hmac marshal s rcv mortal)\<^sup>*\<^sup>* c (c\<lparr>hooks_of := (hooks_of c)(slot_of c p := h)\<rparr>)"
  using assms
proof (induction rule: rtranclp_induct)
  case (step h h')
  let ?c = "c\<lparr>hooks_of := (hooks_of c)(slot_of c p := h)\<rparr>"
  have "site_step st vw proc hmac marshal s rcv mortal ?c
      (?c\<lparr>hooks_of := (hooks_of ?c)(slot_of c p := h')\<rparr>)"
    by (rule site_step.sends [where p = p]) (use step.hyps(2) in \<open>simp_all add: slot_of_def\<close>)
  then have "site_step st vw proc hmac marshal s rcv mortal ?c (c\<lparr>hooks_of := (hooks_of c)(slot_of c p := h')\<rparr>)"
    by simp
  with step.IH show ?case by (rule rtranclp.rtrancl_into_rtrancl)
qed simp

text \<open>A settlement that notified once, with its delivery run to the end.\<close>

lemma notified_site:
  assumes run: "(\<lambda>b b'. \<exists>l. l \<noteq> Crash \<and> move st vw proc True l b b')\<^sup>*\<^sup>* (start s0) b"
    and one: "sent_hooks b = [f]"
    and inv: "\<And>c. (site_step st vw proc hmac marshal s rcv mortal)\<^sup>*\<^sup>* (site_start s0) c \<Longrightarrow> site_inv hmac marshal s rcv c"
    and cap: "0 < sem_cap s"
  obtains c where "(site_step st vw proc hmac marshal s rcv mortal)\<^sup>*\<^sup>* (site_start s0) c"
    and "books c = b" and "\<And>a. Wait (Some s) (hooks_of c a)"
proof -
  let ?R = "site_step st vw proc hmac marshal s rcv mortal"
  obtain c where c: "?R\<^sup>*\<^sup>* (site_start s0) c" "books c = b" "incarnation c = incarnation (site_start s0)"
    "\<forall>a. hooks_of c a \<noteq> hooks_of (site_start s0) a \<longrightarrow> a \<in> range (slot_of (site_start s0))"
    using lift_alive [of st vw proc "site_start s0" b hmac marshal s rcv mortal] run by auto
  have ji: "jobs_inv [f] (hooks_of c)" and reach: "\<And>a. hooks_reach hmac marshal s (rcv a) (hooks_of c a)"
    using inv [OF c(1)] c(2) one by (simp_all add: site_inv_def)
  from jobs_invD(2) [OF ji] obtain a where a: "f \<in> set (fired_of (hooks_of c a))" by auto
  then have "hooks_of c a \<noteq> hooks_of (site_start s0) a" by (auto simp: site_start_def)
  with c(3,4) obtain p where p: "a = slot_of c p" by (auto simp: slot_of_def)
  have other: "wait_group (hooks_of c b) = 0" if "b \<noteq> a" for b
  proof -
    have "f \<notin> set (fired_of (hooks_of c b))"
      using a that jobs_invD(3) [OF ji, of _ a _ b] by (metis in_set_conv_nth)
    with jobs_invD(1) [OF ji, of b] have "fired_of (hooks_of c b) = []" by (cases "fired_of (hooks_of c b)") auto
    then have "jobs (hooks_of c b) = []" by (simp add: fired_of_def)
    then show ?thesis using reach_inv [OF reach [of b]] by (simp add: hooks_inv_def)
  qed
  obtain h where h: "(hook_step hmac marshal s (rcv a))\<^sup>*\<^sup>* (hooks_of c a) h" "wait_group h = 0"
    using deliveries.run_completes [of s hmac marshal "rcv a" "hooks_of c a"] reach_inv [OF reach [of a]] cap by blast
  let ?c = "c\<lparr>hooks_of := (hooks_of c)(a := h)\<rparr>"
  have "?R\<^sup>*\<^sup>* (site_start s0) ?c" using c(1) lift_sends h(1) p by (metis rtranclp_trans)
  moreover have "Wait (Some s) (hooks_of ?c b)" for b using other h(2) by (simp add: Wait_def)
  ultimately show thesis using that [of ?c] c(2) by simp
qed

section \<open>Two runs to the end\<close>

definition one_sender :: Sender where
  "one_sender = \<lparr>hook_url = ''http://h'', secret = ''k'', retries = 5, sem_cap = 32\<rparr>"

theorem merchant_hears_the_truth_once_witness:
  "\<exists>c. (site_step postgres_store table (\<lambda>_. 0) (\<lambda>_ _. [1]) (\<lambda>i. Some (ID i)) one_sender (\<lambda>_ _ _. Status_code 200) True)\<^sup>*\<^sup>*
       (site_start (db late_system)) c
     \<and> map ID (sent_hooks (books c)) = [''inv_1''] \<and> (\<forall>a. Wait (Some one_sender) (hooks_of c a))
     \<and> (\<forall>a k. k < length (jobs (hooks_of c a)) \<longrightarrow> sent (events_of k (hook_log (hooks_of c a))) \<le> 5)"
proof -
  let ?R = "site_step postgres_store table (\<lambda>_. 0) (\<lambda>_ _. [1]) (\<lambda>i. Some (ID i)) one_sender (\<lambda>_ _ _. Status_code 200) True"
  obtain b where b: "runs_to postgres_store table (\<lambda>_. 0) True 0 (start (db late_system)) b"
    "sent_hooks b = [settled late_invoice ''mock-tx-TON-1'' 9000]" by (rule late_runs_to)
  have run: "(\<lambda>b b'. \<exists>l. l \<noteq> Crash \<and> move postgres_store table (\<lambda>_. 0) True l b b')\<^sup>*\<^sup>* (start (db late_system)) b"
    using b(1) unfolding runs_to_def by (rule rtranclp_mono [THEN predicate2D, rotated]) auto
  obtain c where c: "?R\<^sup>*\<^sup>* (site_start (db late_system)) c" "books c = b"
    "\<And>a. Wait (Some one_sender) (hooks_of c a)"
    by (rule notified_site [OF run b(2)])
      (use pg_site_inv [OF late_system_facts(1)] in \<open>auto simp: one_sender_def\<close>)
  have "retries one_sender = 5" by (simp add: one_sender_def)
  with merchant_hears_the_truth_once [OF late_system_facts(1) c(1)] b(2) c
  show ?thesis by (intro exI [of _ c]) simp
qed

lemma sample_site:
  assumes "0 < sem_cap s"
  obtains c :: "memory site" where
    "(site_step memory_store invoices (\<lambda>_. 0) hmac marshal s rcv False)\<^sup>*\<^sup>* (site_start sample_memory) c"
    and "invoices (shared (books c)) ''inv_1'' = Some (settled sample_invoice ''tx'' 5000)"
    and "\<nexists>j0. invoices sample_memory ''inv_1'' = Some j0 \<and> Status j0 = StatusPaid"
    and "\<nexists>g i. notifying (pc_of (books c) g) = Some i \<and> ID i = ''inv_1''"
    and "\<And>a. Wait (Some s) (hooks_of c a)"
proof -
  obtain b :: "memory config" where b: "(alive_step (\<lambda>_. 0))\<^sup>*\<^sup>* (start sample_memory) b" "shared b = paid_memory"
    "sent_hooks b = [settled sample_invoice ''tx'' 5000]" "\<forall>g. notifying (pc_of b g) = None" using notified_run by blast
  have run: "(\<lambda>b b'. \<exists>l. l \<noteq> Crash \<and> move memory_store invoices (\<lambda>_. 0) True l b b')\<^sup>*\<^sup>* (start sample_memory) b"
    using b(1) by (simp add: alive_step_def [abs_def])
  obtain c where c: "(site_step memory_store invoices (\<lambda>_. 0) hmac marshal s rcv False)\<^sup>*\<^sup>* (site_start sample_memory) c"
    "books c = b" "\<And>a. Wait (Some s) (hooks_of c a)"
    by (rule notified_site [OF run b(3)])
      (use mem_site_inv [OF conjunct1 [OF sample_mem_inv]] assms in auto)
  show thesis
  proof (rule that [OF c(1) _ _ _ c(3)])
    show "invoices (shared (books c)) ''inv_1'' = Some (settled sample_invoice ''tx'' 5000)"
      using paid_memory_claim(2) b(2) c(2) by simp
    show "\<nexists>j0. invoices sample_memory ''inv_1'' = Some j0 \<and> Status j0 = StatusPaid"
      by (simp add: sample_memory_def sample_invoice_def)
    show "\<nexists>g i. notifying (pc_of (books c) g) = Some i \<and> ID i = ''inv_1''"
      using b(4) c(2) by simp
  qed
qed

theorem paid_invoices_are_delivered_witness:
  "\<exists>(c :: memory site) a n d. (site_step memory_store invoices (\<lambda>_. 0) (\<lambda>_ _. [1]) (\<lambda>i. Some (ID i)) one_sender
       (\<lambda>_ _ _. Status_code 200) False)\<^sup>*\<^sup>* (site_start sample_memory) c
     \<and> for_invoice (jobs (hooks_of c a) ! n) = settled sample_invoice ''tx'' 5000
     \<and> deliver (\<lambda>_ _. [1]) (\<lambda>i. Some (ID i)) one_sender (\<lambda>_. Status_code 200) (settled sample_invoice ''tx'' 5000)
        = (events_of n (hook_log (hooks_of c a)), d)"
proof -
  have "0 < sem_cap one_sender" by (simp add: one_sender_def)
  then obtain c :: "memory site" where c: "(site_step memory_store invoices (\<lambda>_. 0) (\<lambda>_ _. [1]) (\<lambda>i. Some (ID i)) one_sender
      (\<lambda>_ _ _. Status_code 200) False)\<^sup>*\<^sup>* (site_start sample_memory) c"
    "invoices (shared (books c)) ''inv_1'' = Some (settled sample_invoice ''tx'' 5000)"
    "\<nexists>j0. invoices sample_memory ''inv_1'' = Some j0 \<and> Status j0 = StatusPaid"
    "\<nexists>g i. notifying (pc_of (books c) g) = Some i \<and> ID i = ''inv_1''"
    "\<And>a. Wait (Some one_sender) (hooks_of c a)" by (rule sample_site) blast
  have "Status (settled sample_invoice ''tx'' 5000) = StatusPaid" by simp
  from paid_invoices_are_delivered [OF conjunct1 [OF sample_mem_inv] c(1,2) this c(3-5)] c(1) show ?thesis by blast
qed

end
