(* ===== verification/Merchant.thy ===== *)
theory Merchant
  imports Notification Persistence
begin

text \<open>
  The settlement, the deliveries and the encoding together: what a merchant who decodes the bytes
  of a notification learns.  The sender marshals with \<open>json.Marshal\<close> as the codec models it, in
  any location of the times; the merchant reads with \<open>json.Unmarshal\<close>.
\<close>

section \<open>A delivery that can be written is sent\<close>

lemma delivery_posts:
  assumes "marshal i = Some body" and "0 < retries s" and "outs 0 \<noteq> BadRequest"
  shows "\<exists>hs. Post (hook_url s) hs body \<in> set (fst (deliver hmac marshal s outs i))"
proof -
  obtain n where n: "retries s = Suc n" using assms(2) by (cases "retries s") auto
  obtain hs ok where a: "attempt s body (signature hmac s body) (outs 0) = ([Post (hook_url s) hs body], ok)"
    using assms(3) by (cases "outs 0") (auto simp: attempt_def Let_def)
  have "Post (hook_url s) hs body \<in> set (fst (deliver hmac marshal s outs i))"
    by (simp add: deliver_def assms(1) n a split: bool.split prod.split)
  then show ?thesis by blast
qed

lemma events_of_log: "e \<in> set (events_of k log) \<longleftrightarrow> (k, e) \<in> set log"
  by (force simp: events_of_def)

section \<open>What the merchant reads\<close>

text \<open>
  C3: The merchant reads the truth. Over any interleaving, with database faults and process
  deaths, whatever body was posted decodes, by the rules of \<open>json.Unmarshal\<close>, to an invoice that
  the database holds as paid: its id, address, memo, amount and transaction as stored (invalid
  UTF-8 replaced), its status paid, and the instant of settlement to the nanosecond, where the
  column keeps microseconds.
\<close>

theorem merchant_reads_the_truth:
  assumes "pg_inv s0"
    and "(site_step postgres_store table proc hmac (MarshalInvoice zone) s rcv True)\<^sup>*\<^sup>* (site_start s0) c"
    and "(k, Post u hs body) \<in> set (hook_log (hooks_of c a))"
  shows "\<exists>i tx t. table (shared (books c)) (ID i) = Some (settled i tx (micro t))
    \<and> (in_int64 (AmountNano i) \<longrightarrow> UnmarshalInvoice body = Some (as_read (settled i tx t)))
    \<and> (storable (settled i tx t) \<longrightarrow> UnmarshalInvoice body = Some (settled i tx t))"
proof -
  from pg_site_inv [OF assms(1,2)] have si: "site_inv hmac (MarshalInvoice zone) s rcv c"
    and ji: "jobs_inv (sent_hooks (books c)) (hooks_of c)" and hi: "hook_inv micro table (books c)"
    by (auto simp: site_inv_def)
  let ?f = "for_invoice (jobs (hooks_of c a) ! k)"
  from site_log [OF si assms(3)] have k: "k < length (jobs (hooks_of c a))"
    and p: "Post u hs body \<in> set (fst (deliver hmac (MarshalInvoice zone) s (rcv a k) ?f))" by blast+
  have "?f \<in> set (sent_hooks (books c))"
    using jobs_invD(1) [OF ji, of a] nth_mem [of k "fired_of (hooks_of c a)"] k by auto
  from hook_invD(1) [OF hi this] obtain i tx t where f: "?f = settled i tx t"
    and d: "table (shared (books c)) (ID i) = Some (settled i tx (micro t))"
    by (auto simp: announced_def)
  have m: "MarshalInvoice zone (settled i tx t) = Some body" using deliver_posts [OF p] f by simp
  have "UnmarshalInvoice body = Some (as_read (settled i tx t))" if "in_int64 (AmountNano i)"
    using Unmarshal_Marshal [OF _ m] that by simp
  moreover have "in_int64 (AmountNano i)" if "storable (settled i tx t)" using that by (simp add: storable_def)
  ultimately show ?thesis using d as_read_id by metis
qed

text \<open>
  C4: Every payment is heard, and read as it is stored. With the in-memory store and no process
  dying, once the deliveries of a paid invoice have been waited for, at least one body was posted
  to the configured URL that decodes to the invoice as the store holds it, field for field. The
  conditions are those under which the code can write it: storable texts, times in the years 1 to
  9999, and a URL from which a request can be built.
\<close>

theorem paid_invoices_are_read:
  assumes "mem_inv s0"
    and "(site_step memory_store invoices proc hmac (MarshalInvoice zone) s rcv False)\<^sup>*\<^sup>* (site_start s0) c"
    and "invoices (shared (books c)) k = Some j" and "Status j = StatusPaid"
    and "\<nexists>j0. invoices s0 k = Some j0 \<and> Status j0 = StatusPaid"
    and "\<nexists>g i. notifying (pc_of (books c) g) = Some i \<and> ID i = k"
    and "\<And>a. Wait (Some s) (hooks_of c a)"
    and "storable j" and "\<And>t. t \<in> {CreatedAt j, PaidAt j, ExpiresAt j} \<Longrightarrow> in_years (zone t) t"
    and "0 < retries s" and "\<And>a n. rcv a n 0 \<noteq> BadRequest"
  shows "\<exists>a n hs body. (n, Post (hook_url s) hs body) \<in> set (hook_log (hooks_of c a))
    \<and> UnmarshalInvoice body = Some j"
proof -
  obtain a n d where dl: "deliver hmac (MarshalInvoice zone) s (rcv a n) j = (events_of n (hook_log (hooks_of c a)), d)"
    by (rule paid_delivery [OF assms(1-7)])
  obtain body where b: "MarshalInvoice zone j = Some body" using MarshalInvoice_total [of j zone] assms(9) by blast
  from delivery_posts [where marshal = "MarshalInvoice zone" and outs = "rcv a n" and hmac = hmac, OF b assms(10,11)] dl obtain hs where
    "Post (hook_url s) hs body \<in> set (events_of n (hook_log (hooks_of c a)))" by fastforce
  moreover have "UnmarshalInvoice body = Some j"
    using Unmarshal_Marshal [OF _ b] as_read_id [OF assms(8)] assms(8) by (simp add: storable_def)
  ultimately show ?thesis unfolding events_of_log by blast
qed

section \<open>Two notifications that are read\<close>

lemma late_storable: "storable (settled late_invoice ''mock-tx-TON-1'' 9000)"
proof -
  have "valid_utf8 ''inv_1''" "valid_utf8 ''EQ1''" "valid_utf8 ''TON-1''" "valid_utf8 ''paid''" "valid_utf8 ''mock-tx-TON-1''"
    by (rule valid_ascii, simp add: code_def)+
  then show ?thesis
    by (simp add: storable_def settled_def late_invoice_def sample_row_invoice_def zero_invoice_def StatusPaid_def
        in_int64_def go_defs canonical_def valid_map_def)
qed

lemma late_in_years: "t \<in> {CreatedAt i, PaidAt i, ExpiresAt i} \<Longrightarrow> i = settled late_invoice x 9000 \<Longrightarrow> in_years 0 t"
  by (auto simp: settled_def late_invoice_def sample_row_invoice_def zero_invoice_def in_years_def year_start_def go_defs)

theorem merchant_reads_the_truth_witness:
  "\<exists>c a k u hs body. (site_step postgres_store table (\<lambda>_. 0) (\<lambda>_ _. [1]) (MarshalInvoice (\<lambda>_. 0)) one_sender
       (\<lambda>_ _ _. Status_code 200) True)\<^sup>*\<^sup>* (site_start (db late_system)) c
     \<and> (k, Post u hs body) \<in> set (hook_log (hooks_of c a))
     \<and> UnmarshalInvoice body = Some (settled late_invoice ''mock-tx-TON-1'' 9000)
     \<and> (\<exists>i tx t. table (shared (books c)) (ID i) = Some (settled i tx (micro t)))"
proof -
  let ?f = "settled late_invoice ''mock-tx-TON-1'' 9000"
  let ?M = "MarshalInvoice (\<lambda>_. 0)"
  let ?R = "site_step postgres_store table (\<lambda>_. 0) (\<lambda>_ _. [1]) ?M one_sender (\<lambda>_ _ _. Status_code 200) True"
  obtain b where b: "runs_to postgres_store table (\<lambda>_. 0) True 0 (start (db late_system)) b" "sent_hooks b = [?f]"
    by (rule late_runs_to)
  have run: "(\<lambda>b b'. \<exists>l. l \<noteq> Crash \<and> move postgres_store table (\<lambda>_. 0) True l b b')\<^sup>*\<^sup>* (start (db late_system)) b"
    using b(1) unfolding runs_to_def by (rule rtranclp_mono [THEN predicate2D, rotated]) auto
  obtain c where c: "?R\<^sup>*\<^sup>* (site_start (db late_system)) c" "books c = b" "\<And>a. Wait (Some one_sender) (hooks_of c a)"
    by (rule notified_site [OF run b(2)])
      (use pg_site_inv [OF late_system_facts(1)] in \<open>auto simp: one_sender_def\<close>)
  have si: "site_inv (\<lambda>_ _. [1]) ?M one_sender (\<lambda>_ _ _. Status_code 200) c"
    using pg_site_inv [OF late_system_facts(1) c(1)] by blast
  then have "jobs_inv [?f] (hooks_of c)" using b(2) c(2) by (simp add: site_inv_def)
  from jobs_invD(2) [OF this] obtain a where "?f \<in> set (fired_of (hooks_of c a))" by auto
  then obtain n where n: "n < length (jobs (hooks_of c a))" "for_invoice (jobs (hooks_of c a) ! n) = ?f"
    by (auto simp: in_set_conv_nth)
  have "hooks_reach (\<lambda>_ _. [1]) ?M one_sender (\<lambda>_. \<lambda>_. Status_code 200) (hooks_of c a)" using si by (simp add: site_inv_def)
  from nothing_left [OF this c(3) n(1)] n(2) obtain d where
    d: "deliver (\<lambda>_ _. [1]) ?M one_sender (\<lambda>_. Status_code 200) ?f = (events_of n (hook_log (hooks_of c a)), d)" by auto
  obtain body where body: "?M ?f = Some body"
    using MarshalInvoice_total [of ?f "\<lambda>_. 0"] late_in_years [OF _ refl] by blast
  have "0 < retries one_sender" by (simp add: one_sender_def)
  from delivery_posts [where marshal = ?M and outs = "\<lambda>_. Status_code 200" and hmac = "\<lambda>_ _. [1]", OF body this] d
  obtain hs where p: "(n, Post (hook_url one_sender) hs body) \<in> set (hook_log (hooks_of c a))"
    unfolding events_of_log [symmetric] by auto
  have "UnmarshalInvoice body = Some ?f"
    using Unmarshal_Marshal [OF _ body] as_read_id [OF late_storable] late_storable by (simp add: storable_def)
  with merchant_reads_the_truth [OF late_system_facts(1) c(1) p] c(1) p show ?thesis by blast
qed

theorem paid_invoices_are_read_witness:
  "\<exists>(c :: memory site) a n hs body. (site_step memory_store invoices (\<lambda>_. 0) (\<lambda>_ _. [1]) (MarshalInvoice (\<lambda>_. 0)) one_sender
       (\<lambda>_ _ _. Status_code 200) False)\<^sup>*\<^sup>* (site_start sample_memory) c
     \<and> (n, Post ''http://h'' hs body) \<in> set (hook_log (hooks_of c a))
     \<and> UnmarshalInvoice body = Some (settled sample_invoice ''tx'' 5000)"
proof -
  let ?j = "settled sample_invoice ''tx'' 5000"
  have s: "0 < sem_cap one_sender" "0 < retries one_sender" "hook_url one_sender = ''http://h''"
    by (simp_all add: one_sender_def)
  obtain c :: "memory site" where c: "(site_step memory_store invoices (\<lambda>_. 0) (\<lambda>_ _. [1]) (MarshalInvoice (\<lambda>_. 0)) one_sender
      (\<lambda>_ _ _. Status_code 200) False)\<^sup>*\<^sup>* (site_start sample_memory) c"
    "invoices (shared (books c)) ''inv_1'' = Some ?j"
    "\<nexists>j0. invoices sample_memory ''inv_1'' = Some j0 \<and> Status j0 = StatusPaid"
    "\<nexists>g i. notifying (pc_of (books c) g) = Some i \<and> ID i = ''inv_1''"
    "\<And>a. Wait (Some one_sender) (hooks_of c a)" using sample_site [OF s(1)] by metis
  have "valid_utf8 ''inv_1''" "valid_utf8 ''EQ1''" "valid_utf8 ''TON-1''" "valid_utf8 ''paid''" "valid_utf8 ''tx''"
    by (rule valid_ascii, simp add: code_def)+
  then have st: "storable ?j"
    by (simp add: storable_def settled_def sample_invoice_def zero_invoice_def StatusPaid_def
        in_int64_def go_defs canonical_def valid_map_def)
  have y: "in_years 0 t" if "t \<in> {CreatedAt ?j, PaidAt ?j, ExpiresAt ?j}" for t
    using that by (auto simp: settled_def sample_invoice_def zero_invoice_def in_years_def year_start_def go_defs)
  have p: "Status ?j = StatusPaid" by simp
  from paid_invoices_are_read [OF conjunct1 [OF sample_mem_inv] c(1,2) p c(3-5) st y s(2)] c(1) s(3)
  show ?thesis by fastforce
qed

end
