(* ===== verification/Http_Json.thy ===== *)
theory Http_Json
  imports Http_Service Responses Merchant
begin

text \<open>
  From the bytes of a creation request to the bytes of a notification: an invoice that the HTTP
  layer creates can be written as JSON and is read back as it is, also once it is settled, so the
  conditions of the round trips hold for what the service itself puts into its store.
\<close>

lemma NewID_valid: "NewID ''inv'' draw = Some k \<Longrightarrow> valid_utf8 k"
proof -
  assume "NewID ''inv'' draw = Some k"
  then have "c \<in> set url_alphabet \<or> c \<in> set ''inv_''" if "c \<in> set k" for c
    using that raw_b64_chars by (auto simp: NewID_def)
  moreover have "list_all (\<lambda>c. code c < 0x80) (url_alphabet @ ''inv_'')" by code_simp
  ultimately show ?thesis by (intro valid_ascii) (auto simp: list_all_iff)
qed

lemma NewMemo_valid: "NewMemo draw = Some m \<Longrightarrow> valid_utf8 m"
proof -
  assume "NewMemo draw = Some m"
  moreover have "list_all (\<lambda>c. code c < 0x80) ''TON-''" by code_simp
  ultimately show ?thesis
    using HexEncode_chars by (intro valid_ascii) (fastforce simp: NewMemo_def list_all_iff graphic_def)
qed

lemma NormalizeOnNetwork_valid: "NormalizeOnNetwork s b = Inr t \<Longrightarrow> valid_utf8 t"
  using spelling_chars [OF good_url]
  by (auto simp: NormalizeOnNetwork_def String_spelling intro!: valid_graphic split: sum.splits if_splits)

lemma created_storable:
  assumes "mem_inv s" and "svc_st svc = memory_store" and "nul_free (svc_defaultPayTo svc)"
    and "fresh_draws (invoices s) env" and "ServiceCreate svc env payTo n ttl md s = (Returned i, s')"
    and "valid_utf8 (svc_defaultPayTo svc)" and "valid_utf8 (svc_currency svc)"
    and "in_int64 n" and "canonical md" and "valid_map md"
  shows "storable i"
proof -
  note law = created_invoice [OF assms(1-5)]
  obtain k addr where "draws_of env k (newInvoice svc (now env) addr n (effectiveTTL svc ttl) md) i"
    using mem.ServiceCreate_law [OF assms(1-5)] by auto
  then have "valid_utf8 (ID i)" "valid_utf8 (Memo i)" using NewID_valid NewMemo_valid by (auto simp: draws_of_def)
  moreover have "valid_utf8 (PayTo i)" using law assms(6) NormalizeOnNetwork_valid by (auto split: if_splits)
  moreover have "valid_utf8 StatusPending" unfolding StatusPending_def by (rule valid_ascii) (simp add: code_def)
  ultimately show ?thesis using law assms(7-10) by (simp add: storable_def)
qed

lemma settled_storable: "storable i \<Longrightarrow> valid_utf8 tx \<Longrightarrow> storable (settled i tx t)"
proof -
  have "valid_utf8 StatusPaid" unfolding StatusPaid_def by (rule valid_ascii) (simp add: code_def)
  then show "storable i \<Longrightarrow> valid_utf8 tx \<Longrightarrow> storable (settled i tx t)" by (simp add: storable_def settled_def)
qed

lemma written_and_read:
  assumes "storable i" and "\<And>t. t \<in> {CreatedAt i, PaidAt i, ExpiresAt i} \<Longrightarrow> in_years (zone t) t"
  shows "\<exists>b. MarshalInvoice zone i = Some b \<and> UnmarshalInvoice b = Some i"
proof -
  obtain b where "MarshalInvoice zone i = Some b" using MarshalInvoice_total [OF assms(2)] by blast
  with Unmarshal_Marshal [of i zone b] as_read_id [OF assms(1)] assms(1) show ?thesis by (simp add: storable_def)
qed

lemma valid_link:
  assumes "valid_utf8 payTo"
  shows "valid_utf8 (Build payTo n m)"
proof -
  have "graphic c" if "c \<in> set (QueryEscape s)" for c s
    using QueryEscape_chars [OF that] by (auto simp: url_unreserved_def graphic_def code_def)
  then have q: "valid_utf8 (QueryEscape s)" for s by (intro valid_graphic) blast
  have "valid_utf8 ''ton://transfer/''" "valid_utf8 ''?''" "valid_utf8 ''=''" "valid_utf8 ''&''"
    by (rule valid_ascii, simp add: code_def)+
  then have "valid_utf8 (''ton://transfer/'' @ payTo @ ''?'' @ QueryEscape ''amount'' @ ''='' @ QueryEscape (FormatInt n)
      @ ''&'' @ QueryEscape ''text'' @ ''='' @ QueryEscape m)"
    using q assms by (intro valid_utf8_append)
  then show ?thesis by (simp add: Build_def)
qed

text \<open>What a client reads in the text of a response with an invoice.\<close>

lemma view_reads_back:
  assumes "storable i" and "\<And>t. t \<in> {CreatedAt i, PaidAt i, ExpiresAt i} \<Longrightarrow> in_years (zone t) t"
    and "b = body_text zone wording picture (InvoiceJson (invoiceView i))"
  shows "Option.bind (member b ''id'') (dec_string []) = Some (ID i)"
    and "Option.bind (member b ''payTo'') (dec_string []) = Some (PayTo i)"
    and "Option.bind (member b ''memo'') (dec_string []) = Some (Memo i)"
    and "Option.bind (member b ''amountNano'') (dec_int 0) = Some (AmountNano i)"
    and "Option.bind (member b ''metadata'') (dec_string_map []) = Some (Metadata i)"
    and "Option.bind (member b ''deeplink'') (dec_string []) = Some (Build (PayTo i) (AmountNano i) (Memo i))"
    and "Option.bind (member b ''expiresAt'') (dec_time 0) = Some (ExpiresAt i)"
proof -
  have "\<exists>x. time_json zone t = Some x" if "t \<in> {CreatedAt i, PaidAt i, ExpiresAt i}" for t
    using format_time_in_years [OF assms(2) [OF that]] by (auto simp: time_json_def)
  from this [of "CreatedAt i"] this [of "PaidAt i"] this [of "ExpiresAt i"] obtain c p e where t: "time_json zone (CreatedAt i) = Some c" "time_json zone (PaidAt i) = Some p"
    "time_json zone (ExpiresAt i) = Some e" by auto
  then obtain m where m: "view_members zone (invoiceView i) = Some m"
    by (auto simp: view_members_def invoiceView_def)
  note f = view_member [OF m, where wording = wording and picture = picture, folded assms(3)]
  have u: "valid_utf8 (ID i)" "valid_utf8 (PayTo i)" "valid_utf8 (Memo i)" "in_int64 (AmountNano i)"
    "valid_map (Metadata i)" "canonical (Metadata i)" using assms(1) by (simp_all add: storable_def)
  have ms: "map_of m ''id'' = Some (jstring (ID i))" "map_of m ''payTo'' = Some (jstring (PayTo i))"
    "map_of m ''memo'' = Some (jstring (Memo i))" "map_of m ''amountNano'' = Some (JNum (FormatInt (AmountNano i)))"
    "map_of m ''metadata'' = Some (string_map_json (Metadata i))"
    "map_of m ''deeplink'' = Some (jstring (Build (PayTo i) (AmountNano i) (Memo i)))" "map_of m ''expiresAt'' = Some e"
    using m t by (auto simp: view_members_def invoiceView_def)
  show "Option.bind (member b ''id'') (dec_string []) = Some (ID i)"
    "Option.bind (member b ''payTo'') (dec_string []) = Some (PayTo i)"
    "Option.bind (member b ''memo'') (dec_string []) = Some (Memo i)"
    "Option.bind (member b ''amountNano'') (dec_int 0) = Some (AmountNano i)"
    "Option.bind (member b ''metadata'') (dec_string_map []) = Some (Metadata i)"
    "Option.bind (member b ''deeplink'') (dec_string []) = Some (Build (PayTo i) (AmountNano i) (Memo i))"
    "Option.bind (member b ''expiresAt'') (dec_time 0) = Some (ExpiresAt i)"
    unfolding f ms
    using u valid_link [OF u(2)] string_map_reads_back [of "Metadata i"] dec_time_json [OF t(3)]
    by (simp_all add: ToValidUTF8_valid map_as_read_id)
qed

text \<open>
  C15: Whatever a client asks for comes back to it and can be told to the merchant. When a
  creation request is answered with an invoice, the bytes of the answer name the amount and the
  metadata of the request, and a link that reads back as address, amount and memo of the invoice
  the service holds; that invoice can be written as JSON, and its JSON, and that of the invoice once
  it is settled by any transaction whose hash is UTF-8, reads back as exactly the invoice. The clock
  is taken to be within the years 1 to 9999, lifetimes included.
\<close>

theorem requests_reach_the_merchant:
  assumes "svc_st (api_svc a) = memory_store" and "mem_inv (db (site sv))"
    and "nul_free (svc_defaultPayTo (api_svc a))" and "fresh_draws (invoices (db (site sv))) (he_create env)"
    and "req_method r = ''POST''" and "req_path r = [''v1'', ''invoices'']"
    and "serve qr a r env sv = (Written resp, sv')" and "resp_body resp = InvoiceJson v"
    and "valid_utf8 (svc_defaultPayTo (api_svc a))" and "valid_utf8 (svc_currency (api_svc a))"
    and "0 < svc_defaultTTL (api_svc a)" and "0 < svc_maxTTL (api_svc a)" and "0 \<le> now (he_create env)"
    and "now (he_create env) + svc_maxTTL (api_svc a) < year_start 10000 * (24 * Hour)"
    and "CHR ''?'' \<notin> set (svc_defaultPayTo (api_svc a))"
    and "answer = body_text (\<lambda>_. 0) wording picture (resp_body resp)"
  shows "\<exists>inp i b link. decodeJSON (req_body r) = Some inp \<and> invoices (db (site sv')) (v_id v) = Some i
    \<and> Option.bind (member answer ''metadata'') (dec_string_map []) = Some (in_metadata inp)
    \<and> Option.bind (member answer ''amountNano'') (dec_int 0) = Some (in_amountNano inp)
    \<and> Option.bind (member answer ''deeplink'') (dec_string []) = Some link
    \<and> read_link link = Some (PayTo i, in_amountNano inp, Memo i)
    \<and> MarshalInvoice (\<lambda>_. 0) i = Some b \<and> UnmarshalInvoice b = Some i
    \<and> (\<forall>tx t. valid_utf8 tx \<longrightarrow> in_years 0 t \<longrightarrow>
        (\<exists>b'. MarshalInvoice (\<lambda>_. 0) (settled i tx t) = Some b' \<and> UnmarshalInvoice b' = Some (settled i tx t)))"
proof -
  from assms(5-8) obtain inp i s' where d: "decodeJSON (req_body r) = Some inp"
    and c: "ServiceCreate (api_svc a) (he_create env) (in_payTo inp) (in_amountNano inp) (seconds (in_ttlSeconds inp))
      (in_metadata inp) (db (site sv)) = (Returned i, s')"
    and v: "v = invoiceView i" and sv': "site sv' = (site sv)\<lparr>db := s'\<rparr>" by (rule post_created)
  note law = created_invoice [OF assms(2,1,3,4) c]
  have n: "in_int64 (in_amountNano inp)" using decodeJSON_readable [OF d] by (simp add: readable_def)
  have st: "storable i" using decodeJSON_readable [OF d]
    by (intro created_storable [OF assms(2,1,3,4) c assms(9,10)]) (simp_all add: readable_def)
  have y: "in_years 0 0" by (simp add: in_years_def year_start_def go_defs)
  have e: "in_years 0 (CreatedAt i)" "in_years 0 (ExpiresAt i)"
    using law assms(11-14) effectiveTTL_bounds [of "api_svc a" "seconds (in_ttlSeconds inp)"]
    by (auto simp: in_years_def)
  have t: "in_years 0 t" if "t \<in> {CreatedAt i, PaidAt i, ExpiresAt i}" for t using that e y law by auto
  from written_and_read [OF st t] obtain b where b: "MarshalInvoice (\<lambda>_. 0) i = Some b" "UnmarshalInvoice b = Some i"
    by blast
  have later: "\<exists>b'. MarshalInvoice (\<lambda>_. 0) (settled i tx t) = Some b' \<and> UnmarshalInvoice b' = Some (settled i tx t)"
    if "valid_utf8 tx" "in_years 0 t" for tx t
    using e that by (intro written_and_read settled_storable st) auto
  have "CHR ''?'' \<notin> set (PayTo i)" using law assms(15) NormalizeOnNetwork_no_query by (auto split: if_splits)
  then have link: "read_link (Build (PayTo i) (AmountNano i) (Memo i)) = Some (PayTo i, in_amountNano inp, Memo i)"
    using read_link_Build [of "PayTo i" "in_amountNano inp" "Memo i"] n law by simp
  have "answer = body_text (\<lambda>_. 0) wording picture (InvoiceJson (invoiceView i))" using assms(8,16) v by simp
  note m = view_reads_back(4-6) [where zone = "\<lambda>_. 0", OF st t this]
  have "invoices (db (site sv')) (v_id v) = Some i" using law by (simp add: sv' v invoiceView_def)
  moreover have "AmountNano i = in_amountNano inp" "Metadata i = in_metadata inp" using law by simp_all
  ultimately show ?thesis using d m link b later by metis
qed

theorem requests_reach_the_merchant_witness:
  "\<exists>(resp :: unit response) sv' answer i b link. serve no_qr (small_api []) (post_request 0) small_env (NewServer (small_api []) small_system)
       = (Written resp, sv') \<and> answer = body_text (\<lambda>_. 0) (\<lambda>_. ''refused'') (\<lambda>_. []) (resp_body resp)
     \<and> Option.bind (member answer ''amountNano'') (dec_int 0) = Some 7
     \<and> Option.bind (member answer ''deeplink'') (dec_string []) = Some link \<and> read_link link = Some (PayTo i, 7, Memo i)
     \<and> MarshalInvoice (\<lambda>_. 0) i = Some b \<and> UnmarshalInvoice b = Some i"
proof -
  obtain resp :: "unit response" and v sv' where s: "serve no_qr (small_api []) (post_request 0) small_env
      (NewServer (small_api []) small_system) = (Written resp, sv')" "resp_body resp = InvoiceJson v"
    by (rule small_created [of 0]) simp_all
  have p: "valid_utf8 (svc_defaultPayTo (api_svc (small_api [])))"
    using spelling_chars [OF good_url] by (auto simp: small_api_def String_spelling intro!: valid_graphic)
  have c: "valid_utf8 (svc_currency (api_svc (small_api [])))"
    by (rule valid_ascii) (simp add: small_api_def sample_service_def SetLimits_def NewService_def Let_def code_def)
  have t: "0 < svc_defaultTTL (api_svc (small_api []))" "0 < svc_maxTTL (api_svc (small_api []))"
    "0 \<le> now (he_create small_env)"
    "now (he_create small_env) + svc_maxTTL (api_svc (small_api [])) < year_start 10000 * (24 * Hour)"
    by (simp_all add: small_api_def sample_service_def SetLimits_def NewService_def Let_def small_env_def
        sample_env_def year_start_def go_defs)
  have d: "decodeJSON (req_body (post_request 0)) = Some inp \<Longrightarrow> in_amountNano inp = 7" for inp
    using small_facts(8) [of 0] by (auto simp: small_input_def)
  from requests_reach_the_merchant [OF small_facts(1,2,3,5,6,7) s p c t small_facts(4) refl,
      where wording = "\<lambda>_. ''refused''" and picture = "\<lambda>_. []"] s(1) d
  show ?thesis by metis
qed

end
