(* ===== verification/Spec2Isabelle.thy ===== *)
theory Spec2Isabelle
  imports Store_Equivalence Postgres_Open Float64 Process Creation Http_Json
begin

text \<open>
  TONpayment is a watch-only payment service for the TON blockchain: it issues invoices (a
  receiving address, an amount, a unique memo), watches the address through the toncenter API and
  settles an invoice when a transfer with its memo and at least its amount has arrived.  This
  development models the Go sources under src/ and proves what makes them correct.

  \<^bold>\<open>Theories and the code they model.\<close>

  \<^item> \<open>Prelude\<close>, \<open>Go_Strings\<close>, \<open>Go_Url\<close>, \<open>Base64\<close>: Go's integers, times and the parts of
    strings, strconv, encoding/hex, encoding/base64 and net/url that the service calls.
  \<^item> \<open>Crc16\<close>, \<open>Tonaddr\<close>: internal/tonaddr.  \<open>Parse\<close>, \<open>Friendly\<close>, \<open>Raw\<close>, \<open>Normalize\<close>,
    \<open>NormalizeOnNetwork\<close> with both textual forms, their errors and the checksum.
  \<^item> \<open>Money\<close>, \<open>Float64\<close>: internal/money, the decimal rendering of amounts, and the conversion
    \<open>TONToNano\<close> over IEEE doubles as integers times powers of two.
  \<^item> \<open>Store\<close>: internal/store/store.go.  The invoice record, the interface as a record of
    operations, and the contract its comments promise as the locale \<open>invoice_store\<close>, over an abstract
    ledger from ids to invoices.
  \<^item> \<open>Json_Text\<close>, \<open>Json\<close>, \<open>Go_Time\<close>: UTF-8, string literals, the grammar and the printers of
    encoding/json, and the calendar with the RFC 3339 form of an instant.
  \<^item> \<open>Json_Codec\<close>: the JSON form of an invoice after the tags of internal/store/store.go, of a
    metadata map and of the metadata column (\<open>metaJSON\<close>, \<open>scanInvoice\<close>).  \<open>Persistence\<close> is the text
    of the memory store's snapshot, \<open>Toncenter\<close> decodes the answer of the explorer (\<open>tcResponse\<close>),
    \<open>Request_Body\<close> the body of a creation request (\<open>decodeJSON\<close>), and \<open>Responses\<close> encodes the answers
    of the HTTP handlers (\<open>writeJSON\<close>).
  \<^item> \<open>Memory\<close>, \<open>Postgres\<close>: the two stores.  Both interpret the locale (\<open>mem\<close>, \<open>pg\<close>).  The memory
    store has its JSON snapshot and temporary file with every I/O failure, Postgres its unique
    indexes and conditional updates with lost connections before or after a statement, and
    \<open>Postgres_Open\<close> opens and closes it: the schema script on whatever an older version left.
    \<open>Store_Equivalence\<close> shows that the service cannot tell them apart.
  \<^item> \<open>Wallet\<close>: internal/wallet and internal/idgen.  Ids and memos from random draws, the mock
    and the toncenter verifier with its matching of transactions.
  \<^item> \<open>Service\<close>, \<open>Service_Stores\<close>: internal/service.  Creation with its bounds and retries, status
    checks, settlement and expiry, each handler run on its own; the laws are proved once in the
    store locale and stated for the stores.
  \<^item> \<open>Creation\<close>: creations as handlers that interleave at every store call.
  \<^item> \<open>Settlement\<close>, \<open>Settlement_Stores\<close>: the same status checks as goroutines of several processes
    that interleave at every access to shared state, with the keyed locks, creations and crashes.
  \<^item> \<open>Webhook\<close>, \<open>Delivery\<close>: internal/webhook, one delivery with its retries and signature, and the
    goroutines that deliver side by side with \<open>Fire\<close>, the semaphore, the wait group and \<open>Wait\<close>.
  \<^item> \<open>Notification\<close>: settlement and deliveries as one system of processes that may die and restart.
  \<^item> \<open>Merchant\<close>, \<open>Http_Json\<close>: the components composed with the codec, from the bytes of a request
    to what a merchant reads from the bytes of a notification.
  \<^item> \<open>Deeplink\<close>: internal/deeplink.
  \<^item> \<open>Bounded_Runs\<close>: the interface of the concurrent parts that end, as a locale; the poller's tick,
    the deliveries and main interpret it.
  \<^item> \<open>Poller\<close>: internal/poller, the bounded concurrent tick and the loop over ticks.
  \<^item> \<open>RateLimit\<close>, \<open>Httpx\<close>, \<open>Http_Service\<close>: internal/httpx.  The token buckets, the middleware chain,
    the handlers and routes, and what a client can rely on.
  \<^item> \<open>Config\<close>, \<open>Startup\<close>, \<open>Process\<close>: internal/config and cmd/server, from the environment to the wired
    parts, and from listening over the signal to the exit.

  \<^bold>\<open>How the parts meet.\<close>  The HTTP handlers and the poller call the service, the service calls
  a store, a verifier and the webhook.  A call takes the state and what the surroundings
  contribute (I/O outcomes, clock readings, random draws, iteration orders, answers of
  toncenter) as arguments, so no outcome is fixed by the model.  Errors are values of
  datatypes, a panic is an outcome of its own.

  \<^bold>\<open>What is proved.\<close>  Settlement: at most one notification per invoice over any interleaving,
  faults and crashes included, none lost while no process dies, mutual exclusion and progress of
  the locks, and the sequential handler as a run of the step model.  Notification: across deaths
  and restarts no invoice has two deliveries and no request tells anything the database does not
  hold; a paid invoice has its whole delivery; and
  the bytes delivered decode to what the database holds.  JSON: invoices, metadata, snapshots and
  answers read back as written, requests are read strictly.  Deliveries: bounded by the semaphore, undisturbed by
  one another, and they end.  Shutdown: in order, within fifteen seconds, without loss when no
  poller runs, and how the poller can lose a notification.  Service: created invoices are
  as requested and within the caps, concurrent creations pass the caps by a
  bounded number, collisions are retried, failures leave nothing, payment
  beats expiry, paid and expired are final.  Stores: schema invariants, crash-safe restarts,
  atomicity, equivalence, and the schema established by opening.  Verifier: it confirms exactly when a paying transaction is listed.
  Addresses: soundness and round trips of the codecs, single typing errors, the checksum as
  polynomial division.  Poller: bounds, termination, completeness.  HTTP: the key gate, the rate
  limit end to end, hardened responses, created invoices served back.  Start-up: the production
  gates and well-formed parts for every environment.

  \<^bold>\<open>Bounds and termination.\<close>  No model uses fuel that could run out: loops are structural
  recursions, or functions with a measure (\<open>trim_left\<close>, \<open>show_nat\<close>, \<open>runes\<close>, \<open>unquote\<close>); the JSON parser
  takes twice the length of its input and one as fuel, and \<open>fuel_enough\<close> proves that more makes no
  difference.  Its nesting limit is the 10000 of encoding/json, a request body is cut off after
  1048576 bytes, as in the code; and the allocation and the
  delivery loop recurse on the number of attempts left, five in both, as in the code.  The
  concurrent parts are step relations; that a tick, the deliveries and the shutdown end is proved
  by a measure.

  \<^bold>\<open>Assumptions.\<close>  encoding/json and time are read as Go has them without the json/v2 experiment, with
  zone offsets of whole minutes; a \<open>jsonb\<close> column keeps the members of a value, not its text; of
  two \<open>result\<close> members in one answer of toncenter the second is taken to replace the first.  HMAC-SHA256,
  the QR encoder and the transport of net/http and pgx are parameters or inputs.  Ids drawn at random are
  assumed fresh where a theorem says so, since the stores do not all check them.  A database
  statement is atomic.  The rate limiter's \<open>float64\<close> arithmetic is read as exact.  The router is
  given clean paths.

  \<^bold>\<open>Not modelled.\<close>  Log texts; the fields of \<open>http.Server\<close> and the timeouts of HTTP clients and of
  database statements, which appear as failed requests and lost connections; the wording of service
  errors in responses, a parameter there, since it quotes texts of the drivers; that closing the pool waits for connections in use.
\<close>

end
